(* ===== verification/Prelude.thy ===== *)
theory Prelude
  imports Main "HOL-Library.Word" "HOL-Library.Monad_Syntax" "HOL-Library.Code_Target_Nat"
begin

text \<open>
  Shared vocabulary of the development: machine integers, panics, byte slices and the
  lemma collections the component theories use.

  \<^item> Rust's \<open>u16\<close>, \<open>u32\<close>, \<open>u64\<close> and \<open>usize\<close> (64 bits on the x86-64 targets of the
    repository) are natural numbers; every addition, subtraction and multiplication of the
    source is one of the operations below, which give \<^term>\<open>None\<close> where the Rust operation
    leaves the range of the type. Bytes are \<open>8 word\<close>.
  \<^item> A computation that may panic has an \<open>option\<close> type, \<^term>\<open>None\<close> being the panic:
    an arithmetic overflow (the profiles that build the kernel by default check overflow), an
    index or a slice out of range, a failed \<open>expect\<close>. The \<open>do\<close> notation of
    \<open>Monad_Syntax\<close> sequences such steps. A theorem that a result is \<^term>\<open>Some\<close> is therefore
    also the statement that no arithmetic wraps around, so it carries over to a build without
    overflow checks.
  \<^item> A Rust \<open>Result\<close> is a sum, \<^term>\<open>Inl\<close> being \<open>Err\<close>; a Rust \<open>Option\<close> is an \<open>option\<close>.
\<close>

named_theorems rust_consts \<open>values of the source's constants\<close>
named_theorems byte_simps \<open>reading and writing byte slices\<close>
named_theorems panic_simps \<open>unfolding of the operations that may panic\<close>

type_synonym u8 = "8 word"
type_synonym u16 = nat
type_synonym u32 = nat
type_synonym u64 = nat
type_synonym usize = nat
type_synonym bytes = "u8 list"
type_synonym 'a panics = "'a option"

section \<open>Machine integers\<close>

definition U64_MAX :: nat where [rust_consts]: "U64_MAX = 18446744073709551615"
definition USIZE_MAX :: nat where [rust_consts]: "USIZE_MAX = 18446744073709551615"
definition U32_MAX :: nat where [rust_consts]: "U32_MAX = 4294967295"

text \<open>The largest length of a Rust slice.\<close>

definition ISIZE_MAX :: nat where [rust_consts]: "ISIZE_MAX = 9223372036854775807"

definition uadd :: "nat \<Rightarrow> nat \<Rightarrow> nat option" where
  "uadd a b = (if a + b \<le> U64_MAX then Some (a + b) else None)"

definition usub :: "nat \<Rightarrow> nat \<Rightarrow> nat option" where
  "usub a b = (if b \<le> a then Some (a - b) else None)"

definition umul :: "nat \<Rightarrow> nat \<Rightarrow> nat option" where
  "umul a b = (if a * b \<le> U64_MAX then Some (a * b) else None)"

definition saturating_add :: "nat \<Rightarrow> nat \<Rightarrow> nat" where
  "saturating_add a b = min (a + b) U64_MAX"

definition saturating_mul :: "nat \<Rightarrow> nat \<Rightarrow> nat" where
  "saturating_mul a b = min (a * b) U64_MAX"

definition saturating_sub :: "nat \<Rightarrow> nat \<Rightarrow> nat" where
  "saturating_sub a b = a - b"

definition div_ceil :: "nat \<Rightarrow> nat \<Rightarrow> nat" where
  "div_ceil a b = (if a mod b = 0 then a div b else a div b + 1)"

definition is_multiple_of :: "nat \<Rightarrow> nat \<Rightarrow> bool" where
  "is_multiple_of a b = (a mod b = 0)"

definition is_power_of_two :: "nat \<Rightarrow> bool" where
  "is_power_of_two n = list_ex (\<lambda>k. n = 2 ^ k) [0..<64]"

text \<open>Bitwise complement and masking on 64-bit values: \<open>x & !m\<close>.\<close>

unbundle bit_operations_syntax

definition unot :: "nat \<Rightarrow> nat" where
  "unot a = U64_MAX - a"

definition and_not :: "nat \<Rightarrow> nat \<Rightarrow> nat" where
  "and_not x m = (x AND unot m)"

lemma uadd_Some_iff [panic_simps]: "uadd a b = Some c \<longleftrightarrow> c = a + b \<and> a + b \<le> U64_MAX"
  by (auto simp: uadd_def)

lemma uadd_None_iff [panic_simps]: "uadd a b = None \<longleftrightarrow> U64_MAX < a + b"
  by (auto simp: uadd_def)

lemma usub_Some_iff [panic_simps]: "usub a b = Some c \<longleftrightarrow> c = a - b \<and> b \<le> a"
  by (auto simp: usub_def)

lemma usub_None_iff [panic_simps]: "usub a b = None \<longleftrightarrow> a < b"
  by (auto simp: usub_def)

lemma umul_Some_iff [panic_simps]: "umul a b = Some c \<longleftrightarrow> c = a * b \<and> a * b \<le> U64_MAX"
  by (auto simp: umul_def)

lemma umul_None_iff [panic_simps]: "umul a b = None \<longleftrightarrow> U64_MAX < a * b"
  by (auto simp: umul_def)

lemma uadd_ok: "a + b \<le> U64_MAX \<Longrightarrow> uadd a b = Some (a + b)"
  by (simp add: uadd_def)

lemma usub_ok: "b \<le> a \<Longrightarrow> usub a b = Some (a - b)"
  by (simp add: usub_def)

lemma umul_ok: "a * b \<le> U64_MAX \<Longrightarrow> umul a b = Some (a * b)"
  by (simp add: umul_def)

lemma USIZE_MAX_eq [simp]: "USIZE_MAX = U64_MAX"
  by (simp add: rust_consts)

lemma is_power_of_two_iff: "is_power_of_two n \<longleftrightarrow> (\<exists>k<64. n = 2 ^ k)"
  by (auto simp: is_power_of_two_def list_ex_iff)

lemma high_mask_eq: "k \<le> 64 \<Longrightarrow> (2 ^ 64 - 2 ^ k :: nat) = push_bit k (mask (64 - k))"
proof -
  assume "k \<le> 64"
  then have "(2::nat) ^ 64 = 2 ^ k * 2 ^ (64 - k)"
    by (metis le_add_diff_inverse power_add)
  then show ?thesis
    by (simp only: push_bit_eq_mult mask_eq_exp_minus_1 right_diff_distrib' mult_1_right mult.commute [of _ "2 ^ k"])
qed

lemma bit_high_mask: "k \<le> 64 \<Longrightarrow> bit (2 ^ 64 - 2 ^ k :: nat) n \<longleftrightarrow> k \<le> n \<and> n < 64"
  by (simp only: high_mask_eq) (auto simp: bit_push_bit_iff bit_mask_iff)

lemma and_high_mask:
  assumes "x < 2 ^ 64" "k \<le> 64"
  shows "x AND (2 ^ 64 - 2 ^ k) = x div 2 ^ k * (2 ^ k :: nat)"
proof -
  have "x AND (2 ^ 64 - 2 ^ k) = push_bit k (drop_bit k x)"
  proof (rule bit_eqI)
    fix n
    have small: "bit x n \<Longrightarrow> n < 64"
      using assms(1) by (metis bit_take_bit_iff take_bit_nat_eq_self)
    have "bit (x AND (2 ^ 64 - 2 ^ k)) n \<longleftrightarrow> bit x n \<and> k \<le> n"
      using small by (simp only: bit_and_iff bit_high_mask [OF assms(2)]) blast
    also have "\<dots> \<longleftrightarrow> bit (push_bit k (drop_bit k x)) n"
      by (auto simp: bit_push_bit_iff bit_drop_bit_eq)
    finally show "bit (x AND (2 ^ 64 - 2 ^ k)) n = bit (push_bit k (drop_bit k x)) n" .
  qed
  then show ?thesis
    by (simp only: push_bit_eq_mult drop_bit_eq_div)
qed

lemma and_not_mask:
  assumes "x \<le> U64_MAX" "k \<le> 64"
  shows "and_not x (2 ^ k - 1) = x div 2 ^ k * 2 ^ k"
proof -
  have "U64_MAX - (2 ^ k - 1) = 2 ^ 64 - (2::nat) ^ k"
    by (simp add: rust_consts)
  moreover have "x < 2 ^ 64"
    using assms(1) by (simp add: rust_consts)
  ultimately show ?thesis
    using and_high_mask [of x k] assms(2) by (simp only: and_not_def unot_def)
qed

lemma div_ceil_bounds:
  assumes "0 < b"
  shows "a \<le> div_ceil a b * b" and "div_ceil a b * b < a + b"
proof -
  have eq: "a = a div b * b + a mod b" by simp
  have "a mod b < b" using assms by simp
  then show "a \<le> div_ceil a b * b" and "div_ceil a b * b < a + b"
    using eq assms unfolding div_ceil_def
    by (cases "a mod b = 0"; simp; linarith)+
qed

section \<open>Byte slices\<close>

text \<open>
  \<open>index xs i\<close> is \<open>xs[i]\<close>, \<open>slice xs a b\<close> is \<open>&xs[a..b]\<close> and \<open>copy_into xs a ys\<close> is
  \<open>xs[a..a + ys.len()].copy_from_slice(ys)\<close>; all panic out of range. \<open>sub\<close> and \<open>put\<close> are
  their total counterparts, used in statements about memory contents.
\<close>

definition sub :: "'a list \<Rightarrow> nat \<Rightarrow> nat \<Rightarrow> 'a list" where
  "sub xs a n = take n (drop a xs)"

definition put :: "'a list \<Rightarrow> nat \<Rightarrow> 'a list \<Rightarrow> 'a list" where
  "put xs a ys = take a xs @ ys @ drop (a + length ys) xs"

definition index :: "'a list \<Rightarrow> nat \<Rightarrow> 'a panics" where
  "index xs i = (if i < length xs then Some (xs ! i) else None)"

definition index_set :: "'a list \<Rightarrow> nat \<Rightarrow> 'a \<Rightarrow> 'a list panics" where
  "index_set xs i v = (if i < length xs then Some (xs[i := v]) else None)"

definition slice :: "'a list \<Rightarrow> nat \<Rightarrow> nat \<Rightarrow> 'a list panics" where
  "slice xs a b = (if a \<le> b \<and> b \<le> length xs then Some (sub xs a (b - a)) else None)"

definition copy_into :: "'a list \<Rightarrow> nat \<Rightarrow> 'a list \<Rightarrow> 'a list panics" where
  "copy_into xs a ys = (if a + length ys \<le> length xs then Some (put xs a ys) else None)"

lemma length_sub [simp]: "length (sub xs a n) = min n (length xs - a)"
  by (simp add: sub_def min.commute)

lemma length_put [simp]: "a + length ys \<le> length xs \<Longrightarrow> length (put xs a ys) = length xs"
  by (simp add: put_def)

lemma nth_put:
  assumes "a + length ys \<le> length xs" "i < length xs"
  shows "put xs a ys ! i = (if a \<le> i \<and> i < a + length ys then ys ! (i - a) else xs ! i)"
  using assms by (auto simp: put_def nth_append min_def)

lemma sub_put_same [byte_simps]:
  "a + length ys \<le> length xs \<Longrightarrow> n = length ys \<Longrightarrow> sub (put xs a ys) a n = ys"
  by (simp add: sub_def put_def)

lemma sub_eqI:
  assumes "length xs = length ys" "\<And>i. a \<le> i \<Longrightarrow> i < a + n \<Longrightarrow> i < length xs \<Longrightarrow> xs ! i = ys ! i"
  shows "sub xs a n = sub ys a n"
  using assms by (intro nth_equalityI) (auto simp: sub_def)

lemma sub_put_disjoint [byte_simps]:
  assumes "a + length ys \<le> length xs" "b + n \<le> a \<or> a + length ys \<le> b"
  shows "sub (put xs a ys) b n = sub xs b n"
  using assms by (intro sub_eqI) (auto simp: nth_put)

lemma sub_put_inside:
  assumes "a + length ys \<le> length xs" "a \<le> b" "b + n \<le> a + length ys"
  shows "sub (put xs a ys) b n = sub ys (b - a) n"
  using assms by (intro nth_equalityI) (auto simp: sub_def nth_put)

lemma put_append:
  assumes "a + length ys + length zs \<le> length xs" "b = a + length ys"
  shows "put (put xs a ys) b zs = put xs a (ys @ zs)"
  using assms by (simp add: put_def ac_simps)

lemma nth_sub: "i < n \<Longrightarrow> a + i < length xs \<Longrightarrow> sub xs a n ! i = xs ! (a + i)"
  by (simp add: sub_def)

lemma sub_sub: "b + m \<le> n \<Longrightarrow> sub (sub xs a n) b m = sub xs (a + b) m"
  by (simp add: sub_def drop_take min_def add.commute)

lemma index_Some_iff [panic_simps]: "index xs i = Some v \<longleftrightarrow> i < length xs \<and> v = xs ! i"
  by (auto simp: index_def)

lemma index_set_Some_iff [panic_simps]:
  "index_set xs i v = Some ys \<longleftrightarrow> i < length xs \<and> ys = xs[i := v]"
  by (auto simp: index_set_def)

lemma slice_Some_iff [panic_simps]:
  "slice xs a b = Some ys \<longleftrightarrow> a \<le> b \<and> b \<le> length xs \<and> ys = sub xs a (b - a)"
  by (auto simp: slice_def)

lemma copy_into_Some_iff [panic_simps]:
  "copy_into xs a ys = Some zs \<longleftrightarrow> a + length ys \<le> length xs \<and> zs = put xs a ys"
  by (auto simp: copy_into_def)

section \<open>Little-endian integers\<close>

fun from_le_bytes :: "bytes \<Rightarrow> nat" where
  "from_le_bytes [] = 0"
| "from_le_bytes (b # bs) = unat b + 256 * from_le_bytes bs"

fun to_le_bytes :: "nat \<Rightarrow> nat \<Rightarrow> bytes" where
  "to_le_bytes 0 v = []"
| "to_le_bytes (Suc n) v = word_of_nat v # to_le_bytes n (v div 256)"

lemma length_to_le_bytes [simp]: "length (to_le_bytes n v) = n"
  by (induction n arbitrary: v) auto

lemma from_to_le_bytes: "from_le_bytes (to_le_bytes n v) = v mod 256 ^ n"
proof (induction n arbitrary: v)
  case 0
  then show ?case by simp
next
  case (Suc n)
  have "unat (word_of_nat v :: u8) = v mod 256"
    by (simp add: unat_of_nat)
  moreover have "v mod 256 + 256 * (v div 256 mod 256 ^ n) = v mod (256 * 256 ^ n)"
    by (simp add: mod_mult2_eq)
  ultimately show ?case
    by (simp add: Suc.IH)
qed

lemma from_le_bytes_less: "from_le_bytes bs < 256 ^ length bs"
proof (induction bs)
  case Nil
  then show ?case by simp
next
  case (Cons b bs)
  have "unat b < 256"
    using unsigned_less [of b, where ?'a = nat] by simp
  with Cons.IH show ?case by simp
qed

lemma to_from_le_bytes: "to_le_bytes (length bs) (from_le_bytes bs) = bs"
proof (induction bs)
  case Nil
  then show ?case by simp
next
  case (Cons b bs)
  have b: "unat b < 256"
    using unsigned_less [of b, where ?'a = nat] by simp
  have "word_of_nat (unat b + 256 * from_le_bytes bs) = b"
  proof -
    have "(256 :: u8) = 0" by simp
    then have "(256 :: u8) * word_of_nat (from_le_bytes bs) = 0" by (simp only: mult_zero_left)
    then show ?thesis by simp
  qed
  with Cons.IH b show ?case by simp
qed

lemma from_le_bytes_u64: "length bs = 8 \<Longrightarrow> from_le_bytes bs \<le> U64_MAX"
  using from_le_bytes_less [of bs] by (simp add: rust_consts)

lemma from_le_bytes_u32: "length bs = 4 \<Longrightarrow> from_le_bytes bs \<le> U32_MAX"
  using from_le_bytes_less [of bs] by (simp add: rust_consts)

lemma from_to_le_bytes_u64 [byte_simps]: "v \<le> U64_MAX \<Longrightarrow> from_le_bytes (to_le_bytes 8 v) = v"
  by (simp add: from_to_le_bytes rust_consts)

lemma from_to_le_bytes_u32 [byte_simps]: "v \<le> U32_MAX \<Longrightarrow> from_le_bytes (to_le_bytes 4 v) = v"
  by (simp add: from_to_le_bytes rust_consts)

section \<open>Searching and asserting\<close>

text \<open>\<open>position P xs\<close> is \<open>xs.iter().position(P)\<close>; \<open>debug_assert b\<close> is \<open>debug_assert!(b)\<close>.\<close>

fun position :: "('a \<Rightarrow> bool) \<Rightarrow> 'a list \<Rightarrow> nat option" where
  "position P [] = None"
| "position P (x # xs) = (if P x then Some 0 else map_option Suc (position P xs))"

definition debug_assert :: "bool \<Rightarrow> unit panics" where
  "debug_assert b = (if b then Some () else None)"

lemma position_Some_iff:
  "position P xs = Some i \<longleftrightarrow> i < length xs \<and> P (xs ! i) \<and> (\<forall>j<i. \<not> P (xs ! j))"
proof (induction xs arbitrary: i)
  case Nil
  then show ?case by simp
next
  case (Cons x xs)
  show ?case
  proof (cases i)
    case 0
    then show ?thesis by auto
  next
    case (Suc k)
    then show ?thesis by (auto simp: Cons.IH less_Suc_eq_0_disj)
  qed
qed

lemma position_SomeD: "position P xs = Some i \<Longrightarrow> i < length xs \<and> P (xs ! i)"
  by (simp add: position_Some_iff)

lemma position_None_iff: "position P xs = None \<longleftrightarrow> (\<forall>i<length xs. \<not> P (xs ! i))"
  by (induction xs) (auto simp: nth_Cons less_Suc_eq_0_disj split: nat.splits)

lemma filter_upt_first:
  assumes "filter P [0..<n] = i # js"
  shows "i < n" "P i" "\<And>j. j < i \<Longrightarrow> \<not> P j"
proof -
  from assms obtain us vs where us: "[0..<n] = us @ i # vs" "\<forall>u \<in> set us. \<not> P u" "P i"
    by (auto simp: filter_eq_Cons_iff)
  have len: "n = length us + Suc (length vs)"
    using arg_cong [OF us(1), of length] by simp
  have i: "i = length us"
    using nth_upt [of 0 "length us" n] len unfolding us(1) by simp
  have "j \<in> set us" if "j < length us" for j
    using nth_upt [of 0 j n] that len nth_mem [of j us] unfolding us(1) by (auto simp: nth_append)
  then show "i < n" "P i" "\<And>j. j < i \<Longrightarrow> \<not> P j"
    using us(2,3) i len by auto
qed

lemma debug_assert_Some_iff [panic_simps]: "debug_assert b = Some u \<longleftrightarrow> b"
  by (simp add: debug_assert_def)

lemmas run_simps = Option.bind_eq_Some_conv panic_simps

end
