(* ===== verification/Scheduler.thy ===== *)
theory Scheduler
  imports Prelude
begin

text \<open>
  The scheduler state machine of \<^verbatim>\<open>src/crates/kernel-sched/src/lib.rs\<close>: the thread table, the
  ring buffer of ready threads, rotation on a tick or a yield, exit and reaping.

  The three fixed arrays of the Rust struct are lists of length \<open>MAX_THREADS\<close>.  An operation that
  may panic (a \<open>debug_assert!\<close>, an index out of range, an overflowing counter) has a result in
  \<open>option\<close>; \<open>None\<close> is the panic.  A method taking \<open>&mut self\<close> returns the new state, also next to an
  error, because assignments made before an early return persist.

  The ring buffer is verified against the interface of a bounded first-in-first-out queue (locale
  \<open>bounded_fifo\<close>), and the scheduler against the invariant \<open>sched_inv\<close>.
\<close>

section \<open>Data\<close>

definition MAX_THREADS :: usize where [rust_consts]: "MAX_THREADS = 16"

definition NO_THREAD :: usize where [rust_consts]: "NO_THREAD = USIZE_MAX"

datatype ThreadState = Unused | Ready | Running | Exited

datatype ThreadKind = Normal | Idle | Boot

datatype SchedError = NoFreeSlot | InvalidId usize | NoCurrentThread | IdleAlreadyRegistered
  | NothingToRun

datatype Decision = Keep | Switch usize usize

record SchedStats =
  stats_ticks :: u64
  stats_switches :: u64
  stats_ready :: usize
  stats_live :: usize

record Scheduler =
  states :: "ThreadState list"
  kinds :: "ThreadKind list"
  queue :: "usize list"
  queue_head :: usize
  queue_len :: usize
  current :: usize
  idle :: usize
  ticks :: u64
  switches :: u64

section \<open>Operations\<close>

definition sched_new :: Scheduler where
  "sched_new = \<lparr> states = replicate MAX_THREADS Unused, kinds = replicate MAX_THREADS Normal,
     queue = replicate MAX_THREADS NO_THREAD, queue_head = 0, queue_len = 0, current = NO_THREAD,
     idle = NO_THREAD, ticks = 0, switches = 0 \<rparr>"

definition enqueue :: "Scheduler \<Rightarrow> usize \<Rightarrow> Scheduler panics" where
  "enqueue s tid = do {
     debug_assert (queue_len s < MAX_THREADS);
     i \<leftarrow> uadd (queue_head s) (queue_len s);
     q \<leftarrow> index_set (queue s) (i mod MAX_THREADS) tid;
     n \<leftarrow> uadd (queue_len s) 1;
     Some (s\<lparr>queue := q, queue_len := n\<rparr>)
   }"

definition dequeue :: "Scheduler \<Rightarrow> (usize \<times> Scheduler) panics" where
  "dequeue s = do {
     debug_assert (queue_len s > 0);
     tid \<leftarrow> index (queue s) (queue_head s);
     q \<leftarrow> index_set (queue s) (queue_head s) NO_THREAD;
     h \<leftarrow> uadd (queue_head s) 1;
     n \<leftarrow> usub (queue_len s) 1;
     Some (tid, s\<lparr>queue := q, queue_head := h mod MAX_THREADS, queue_len := n\<rparr>)
   }"

definition register_boot :: "Scheduler \<Rightarrow> usize \<Rightarrow> (Scheduler \<times> (SchedError + unit)) panics" where
  "register_boot s tid =
     (if tid \<ge> MAX_THREADS then Some (s, Inl (InvalidId tid))
      else do {
        sts \<leftarrow> index_set (states s) tid Running;
        kds \<leftarrow> index_set (kinds s) tid Boot;
        Some (s\<lparr>states := sts, kinds := kds, current := tid\<rparr>, Inr ())
      })"

definition register_idle :: "Scheduler \<Rightarrow> usize \<Rightarrow> (Scheduler \<times> (SchedError + unit)) panics" where
  "register_idle s tid =
     (if tid \<ge> MAX_THREADS then Some (s, Inl (InvalidId tid))
      else if idle s \<noteq> NO_THREAD then Some (s, Inl IdleAlreadyRegistered)
      else do {
        st \<leftarrow> index (states s) tid;
        if st \<noteq> Unused then Some (s, Inl (InvalidId tid))
        else do {
          sts \<leftarrow> index_set (states s) tid Ready;
          kds \<leftarrow> index_set (kinds s) tid Idle;
          Some (s\<lparr>states := sts, kinds := kds, idle := tid\<rparr>, Inr ())
        }
      })"

definition register_idle_any :: "Scheduler \<Rightarrow> (Scheduler \<times> (SchedError + usize)) panics" where
  "register_idle_any s =
     (case position (\<lambda>st. st = Unused) (states s) of
        None \<Rightarrow> Some (s, Inl NoFreeSlot)
      | Some tid \<Rightarrow> do {
          (s', r) \<leftarrow> register_idle s tid;
          Some (s', case r of Inl e \<Rightarrow> Inl e | Inr _ \<Rightarrow> Inr tid)
        })"

definition create :: "Scheduler \<Rightarrow> (Scheduler \<times> (SchedError + usize)) panics" where
  "create s =
     (case position (\<lambda>st. st = Unused) (states s) of
        None \<Rightarrow> Some (s, Inl NoFreeSlot)
      | Some tid \<Rightarrow> do {
          sts \<leftarrow> index_set (states s) tid Ready;
          kds \<leftarrow> index_set (kinds s) tid Normal;
          s' \<leftarrow> enqueue (s\<lparr>states := sts, kinds := kds\<rparr>) tid;
          Some (s', Inr tid)
        })"

definition state_of :: "Scheduler \<Rightarrow> usize \<Rightarrow> SchedError + ThreadState" where
  "state_of s tid = (if tid < length (states s) then Inr (states s ! tid) else Inl (InvalidId tid))"

definition kind_of :: "Scheduler \<Rightarrow> usize \<Rightarrow> SchedError + ThreadKind" where
  "kind_of s tid = (if tid < length (kinds s) then Inr (kinds s ! tid) else Inl (InvalidId tid))"

definition sched_stats :: "Scheduler \<Rightarrow> SchedStats" where
  "sched_stats s = \<lparr> stats_ticks = ticks s, stats_switches = switches s, stats_ready = queue_len s,
     stats_live = length (filter (\<lambda>st. st \<noteq> Unused) (states s)) \<rparr>"

definition ready_queue :: "Scheduler \<Rightarrow> usize list" where
  "ready_queue s = map (\<lambda>offset. queue s ! ((queue_head s + offset) mod MAX_THREADS)) [0..<queue_len s]"

definition sched_rotate :: "Scheduler \<Rightarrow> (Scheduler \<times> Decision) panics" where
  "sched_rotate s = (let from = current s in
     if from = NO_THREAD then Some (s, Keep)
     else do {
       k \<leftarrow> index (kinds s) from;
       let is_idle = (k = Idle);
       if queue_len s = 0 then Some (s, Keep)
       else do {
         sts \<leftarrow> index_set (states s) from Ready;
         let s1 = s\<lparr>states := sts\<rparr>;
         s2 \<leftarrow> (if \<not> is_idle then enqueue s1 from else Some s1);
         (to, s3) \<leftarrow> dequeue s2;
         sts' \<leftarrow> index_set (states s3) to Running;
         n \<leftarrow> uadd (switches s3) 1;
         Some (s3\<lparr>states := sts', current := to, switches := n\<rparr>, Switch from to)
       }
     })"

definition on_tick :: "Scheduler \<Rightarrow> bool \<Rightarrow> (Scheduler \<times> Decision) panics" where
  "on_tick s reschedule = do {
     t \<leftarrow> uadd (ticks s) 1;
     let s1 = s\<lparr>ticks := t\<rparr>;
     if \<not> reschedule then Some (s1, Keep) else sched_rotate s1
   }"

definition yield_current :: "Scheduler \<Rightarrow> (Scheduler \<times> Decision) panics" where
  "yield_current s = sched_rotate s"

definition pick_after_stop :: "Scheduler \<Rightarrow> (Scheduler \<times> (SchedError + usize)) panics" where
  "pick_after_stop s =
     (if queue_len s > 0 then do {
        (to, s1) \<leftarrow> dequeue s;
        sts \<leftarrow> index_set (states s1) to Running;
        Some (s1\<lparr>states := sts\<rparr>, Inr to)
      }
      else if idle s \<noteq> NO_THREAD then do {
        sts \<leftarrow> index_set (states s) (idle s) Running;
        Some (s\<lparr>states := sts\<rparr>, Inr (idle s))
      }
      else Some (s, Inl NothingToRun))"

definition exit_current :: "Scheduler \<Rightarrow> (Scheduler \<times> (SchedError + Decision)) panics" where
  "exit_current s = (let from = current s in
     if from = NO_THREAD then Some (s, Inl NoCurrentThread)
     else do {
       sts \<leftarrow> index_set (states s) from Exited;
       (s1, r) \<leftarrow> pick_after_stop (s\<lparr>states := sts\<rparr>);
       case r of
         Inl e \<Rightarrow> Some (s1, Inl e)
       | Inr to \<Rightarrow> do {
           n \<leftarrow> uadd (switches s1) 1;
           Some (s1\<lparr>current := to, switches := n\<rparr>, Inr (Switch from to))
         }
     })"

definition take_reapable :: "Scheduler \<Rightarrow> (Scheduler \<times> usize option) panics" where
  "take_reapable s =
     (case position (\<lambda>st. st = Exited) (states s) of
        None \<Rightarrow> Some (s, None)
      | Some tid \<Rightarrow> do {
          sts \<leftarrow> index_set (states s) tid Unused;
          kds \<leftarrow> index_set (kinds s) tid Normal;
          Some (s\<lparr>states := sts, kinds := kds\<rparr>, Some tid)
        })"

section \<open>The ready queue is a bounded first-in-first-out queue\<close>

text \<open>
  The interface: a state with an abstraction to a list, of at most \<open>cap\<close> elements; \<open>enq\<close> appends
  while there is room, \<open>deq\<close> removes the head, and neither changes what \<open>rest\<close> observes of the
  state.
\<close>

locale bounded_fifo =
  fixes wf :: "'q \<Rightarrow> bool"
    and view :: "'q \<Rightarrow> 'a list"
    and rest :: "'q \<Rightarrow> 'r"
    and cap :: nat
    and enq :: "'q \<Rightarrow> 'a \<Rightarrow> 'q option"
    and deq :: "'q \<Rightarrow> ('a \<times> 'q) option"
  assumes enq_room: "wf q \<Longrightarrow> length (view q) < cap \<Longrightarrow>
      \<exists>q'. enq q x = Some q' \<and> wf q' \<and> view q' = view q @ [x] \<and> rest q' = rest q"
    and enq_full: "wf q \<Longrightarrow> cap \<le> length (view q) \<Longrightarrow> enq q x = None"
    and deq_head: "wf q \<Longrightarrow> view q = x # xs \<Longrightarrow>
      \<exists>q'. deq q = Some (x, q') \<and> wf q' \<and> view q' = xs \<and> rest q' = rest q"
    and deq_empty: "wf q \<Longrightarrow> view q = [] \<Longrightarrow> deq q = None"
begin

text \<open>A push followed by a pop, the order \<open>Scheduler::rotate\<close> uses.\<close>

lemma push_pop:
  assumes "wf q" "length (view q) < cap"
  obtains q1 q2 y ys where "enq q x = Some q1" "deq q1 = Some (y, q2)" "wf q2"
    "view q @ [x] = y # ys" "view q2 = ys" "rest q2 = rest q"
proof -
  obtain q1 where q1: "enq q x = Some q1" "wf q1" "view q1 = view q @ [x]" "rest q1 = rest q"
    using enq_room [OF assms] by blast
  obtain y ys where ys: "view q @ [x] = y # ys"
    by (cases "view q") auto
  then show thesis
    using deq_head [OF q1(2)] q1 that by metis
qed

lemma deq_Some_iff: "wf q \<Longrightarrow> (\<exists>r. deq q = Some r) \<longleftrightarrow> view q \<noteq> []"
  using deq_head deq_empty by (metis list.exhaust not_None_eq option.distinct(1))

lemma enq_Some_iff: "wf q \<Longrightarrow> (\<exists>q'. enq q x = Some q') \<longleftrightarrow> length (view q) < cap"
  using enq_room enq_full by (metis linorder_not_less option.distinct(1))

end

text \<open>The well-formed ring buffers, and the part of the state the queue operations leave alone.\<close>

definition ring_wf :: "Scheduler \<Rightarrow> bool" where
  "ring_wf s \<longleftrightarrow> length (queue s) = MAX_THREADS \<and> queue_head s < MAX_THREADS \<and> queue_len s \<le> MAX_THREADS"

definition sched_rest where
  "sched_rest s = (states s, kinds s, current s, idle s, ticks s, switches s)"

lemma ring_slot_neq:
  fixes h a b n :: nat
  assumes "a < b" "b - a < n"
  shows "(h + a) mod n \<noteq> (h + b) mod n"
proof
  assume "(h + a) mod n = (h + b) mod n"
  then have "n dvd (h + b) - (h + a)"
    using assms by (intro mod_eq_dvd_iff_nat [THEN iffD1]) auto
  then show False
    using assms by (auto dest: dvd_imp_le)
qed

lemma length_ready_queue [simp]: "length (ready_queue s) = queue_len s"
  by (simp add: ready_queue_def)

lemma enqueue_ring:
  assumes wf: "ring_wf s" and room: "queue_len s < MAX_THREADS"
  shows "\<exists>s'. enqueue s t = Some s' \<and> ring_wf s' \<and> ready_queue s' = ready_queue s @ [t] \<and>
           sched_rest s' = sched_rest s"
proof -
  let ?k = "(queue_head s + queue_len s) mod MAX_THREADS"
  let ?s' = "s\<lparr>queue := (queue s)[?k := t], queue_len := queue_len s + 1\<rparr>"
  have "enqueue s t = Some ?s'"
    using wf room
    by (simp add: enqueue_def debug_assert_def uadd_def index_set_def ring_wf_def rust_consts)
  moreover have "ready_queue ?s' = ready_queue s @ [t]"
    using wf room ring_slot_neq [of _ "queue_len s" MAX_THREADS "queue_head s", symmetric]
    by (auto simp: ready_queue_def ring_wf_def)
  moreover have "ring_wf ?s'" "sched_rest ?s' = sched_rest s"
    using wf room by (auto simp: ring_wf_def sched_rest_def)
  ultimately show ?thesis by blast
qed

lemma dequeue_ring:
  assumes wf: "ring_wf s" and some: "queue_len s > 0"
  shows "\<exists>s'. dequeue s = Some (hd (ready_queue s), s') \<and> ring_wf s' \<and>
           ready_queue s' = tl (ready_queue s) \<and> sched_rest s' = sched_rest s"
proof -
  let ?h = "queue_head s"
  let ?s' = "s\<lparr>queue := (queue s)[?h := NO_THREAD], queue_head := (?h + 1) mod MAX_THREADS,
               queue_len := queue_len s - 1\<rparr>"
  have hd: "hd (ready_queue s) = queue s ! ?h"
    using some wf by (simp add: ready_queue_def ring_wf_def hd_map upt_conv_Cons)
  have "dequeue s = Some (hd (ready_queue s), ?s')"
    using wf some unfolding hd
    by (simp add: dequeue_def debug_assert_def uadd_def usub_def index_def index_set_def ring_wf_def
        rust_consts)
  moreover have "ready_queue ?s' = tl (ready_queue s)"
  proof (rule nth_equalityI)
    show "length (ready_queue ?s') = length (tl (ready_queue s))" by simp
  next
    fix i assume "i < length (ready_queue ?s')"
    then have i: "Suc i < queue_len s" by simp
    have "(?h + 0) mod MAX_THREADS \<noteq> (?h + Suc i) mod MAX_THREADS"
      using i wf by (intro ring_slot_neq) (auto simp: ring_wf_def)
    moreover have "((?h + 1) mod MAX_THREADS + i) mod MAX_THREADS = (?h + Suc i) mod MAX_THREADS"
      by (simp add: mod_add_left_eq)
    ultimately show "ready_queue ?s' ! i = tl (ready_queue s) ! i"
      using i wf by (simp add: ready_queue_def nth_tl ring_wf_def less_diff_conv)
  qed
  moreover have "ring_wf ?s'" "sched_rest ?s' = sched_rest s"
    using wf by (auto simp: ring_wf_def sched_rest_def rust_consts)
  ultimately show ?thesis by blast
qed

interpretation rq: bounded_fifo ring_wf ready_queue sched_rest MAX_THREADS enqueue dequeue
proof unfold_locales
  fix q x assume "ring_wf q" "length (ready_queue q) < MAX_THREADS"
  then show "\<exists>q'. enqueue q x = Some q' \<and> ring_wf q' \<and> ready_queue q' = ready_queue q @ [x] \<and>
      sched_rest q' = sched_rest q"
    by (simp add: enqueue_ring)
next
  fix q x assume "ring_wf q" "MAX_THREADS \<le> length (ready_queue q)"
  then show "enqueue q x = None" by (simp add: enqueue_def debug_assert_def)
next
  fix q x xs assume *: "ring_wf q" "ready_queue q = x # xs"
  then have "queue_len q > 0" using length_ready_queue [of q] by simp
  then show "\<exists>q'. dequeue q = Some (x, q') \<and> ring_wf q' \<and> ready_queue q' = xs \<and>
      sched_rest q' = sched_rest q"
    using dequeue_ring [of q] * by auto
next
  fix q assume "ring_wf q" "ready_queue q = []"
  then show "dequeue q = None"
    using length_ready_queue [of q] by (simp add: dequeue_def debug_assert_def del: length_ready_queue)
qed

section \<open>The invariant\<close>

text \<open>
  The invariant is stated slot by slot: thread \<open>t\<close> is in the ring exactly when it is ready and not
  the idle thread, it is running exactly when it is the current thread, it has kind \<open>Idle\<close> exactly
  when it is the registered idle thread, and the idle thread is ready or running.
\<close>

definition slot_ok :: "usize set \<Rightarrow> usize \<Rightarrow> usize \<Rightarrow> usize \<Rightarrow> ThreadState \<Rightarrow> ThreadKind \<Rightarrow> bool" where
  "slot_ok rdy c i t st kd \<longleftrightarrow> (t \<in> rdy \<longleftrightarrow> st = Ready \<and> kd \<noteq> Idle) \<and> (st = Running \<longleftrightarrow> t = c) \<and>
     (kd = Idle \<longleftrightarrow> t = i) \<and> (t = i \<longrightarrow> st \<in> {Ready, Running})"

definition table_inv :: "ThreadState list \<Rightarrow> ThreadKind list \<Rightarrow> usize list \<Rightarrow> usize \<Rightarrow> usize \<Rightarrow> bool" where
  "table_inv sts kds rdy c i \<longleftrightarrow>
     length sts = MAX_THREADS \<and> length kds = MAX_THREADS \<and> distinct rdy \<and> (\<forall>t \<in> set rdy. t < MAX_THREADS) \<and>
     (c = NO_THREAD \<or> c < MAX_THREADS) \<and> (i = NO_THREAD \<or> i < MAX_THREADS) \<and>
     (\<forall>t < MAX_THREADS. slot_ok (set rdy) c i t (sts ! t) (kds ! t))"

definition sched_inv :: "Scheduler \<Rightarrow> bool" where
  "sched_inv s \<longleftrightarrow> ring_wf s \<and> table_inv (states s) (kinds s) (ready_queue s) (current s) (idle s)"

lemma NO_THREAD_not_slot [simp]: "\<not> NO_THREAD < MAX_THREADS"
  by (simp add: rust_consts)

lemma sched_inv_lengths:
  "sched_inv s \<Longrightarrow> length (states s) = MAX_THREADS" "sched_inv s \<Longrightarrow> length (kinds s) = MAX_THREADS"
  by (simp_all add: sched_inv_def table_inv_def)

text \<open>The number of ready threads is below the capacity whenever some slot is not in the ring.\<close>

lemma ready_room:
  assumes "sched_inv s" "t < MAX_THREADS" "t \<notin> set (ready_queue s)"
  shows "queue_len s < MAX_THREADS"
proof -
  have "set (ready_queue s) \<subset> {0..<MAX_THREADS}"
    using assms by (auto simp: sched_inv_def table_inv_def)
  then have "card (set (ready_queue s)) < card {0..<MAX_THREADS}"
    by (intro psubset_card_mono) auto
  moreover have "card (set (ready_queue s)) = queue_len s"
    using assms(1) distinct_card [of "ready_queue s"] by (simp add: sched_inv_def table_inv_def)
  ultimately show ?thesis by simp
qed

lemma current_slot:
  assumes "sched_inv s" "current s \<noteq> NO_THREAD"
  shows "current s < MAX_THREADS" "current s \<notin> set (ready_queue s)" "states s ! current s = Running"
    "kinds s ! current s = Idle \<longleftrightarrow> current s = idle s" "current s < length (states s)"
    "current s < length (kinds s)"
  using assms by (auto simp: sched_inv_def table_inv_def slot_ok_def)

lemma ready_slot:
  assumes "sched_inv s" "t \<in> set (ready_queue s)"
  shows "t < MAX_THREADS" "states s ! t = Ready" "kinds s ! t \<noteq> Idle" "t \<noteq> idle s" "t \<noteq> current s"
    "t < length (states s)" "t < length (kinds s)"
  using assms by (auto simp: sched_inv_def table_inv_def slot_ok_def)

text \<open>The invariant of a changed table follows from the invariant of the old one slot by slot.\<close>

lemma table_inv_slots:
  assumes "table_inv sts kds rdy c i" "length sts' = length sts" "length kds' = length kds"
    and "distinct rdy'" "\<And>t. t \<in> set rdy' \<Longrightarrow> t < MAX_THREADS"
    and "c' = NO_THREAD \<or> c' < MAX_THREADS" "i' = NO_THREAD \<or> i' < MAX_THREADS"
    and "\<And>t. t < MAX_THREADS \<Longrightarrow> slot_ok (set rdy) c i t (sts ! t) (kds ! t) \<Longrightarrow>
           slot_ok (set rdy') c' i' t (sts' ! t) (kds' ! t)"
  shows "table_inv sts' kds' rdy' c' i'"
  using assms by (simp add: table_inv_def)

lemma table_inv_slot: "table_inv sts kds rdy c i \<Longrightarrow> t < MAX_THREADS \<Longrightarrow>
    slot_ok (set rdy) c i t (sts ! t) (kds ! t)"
  by (simp add: table_inv_def)

lemma table_inv_bounds:
  assumes "table_inv sts kds rdy c i"
  shows "length sts = MAX_THREADS" "length kds = MAX_THREADS" "distinct rdy"
    "t \<in> set rdy \<Longrightarrow> t < MAX_THREADS" "c = NO_THREAD \<or> c < MAX_THREADS" "i = NO_THREAD \<or> i < MAX_THREADS"
  using assms by (auto simp: table_inv_def)

lemma table_inv_rotate:
  assumes inv: "table_inv sts kds (t # ts) c i" and c: "c \<noteq> NO_THREAD"
  shows "table_inv (sts[c := Ready, t := Running]) kds (ts @ (if kds ! c = Idle then [] else [c])) t i"
proof -
  note b = table_inv_bounds [OF inv]
  have c': "c < MAX_THREADS" using b(5) c by simp
  have "c \<notin> set (t # ts)"
    using table_inv_slot [OF inv c'] by (simp add: slot_ok_def)
  then show ?thesis
    using b(1-4,6) c'
    by (intro table_inv_slots [OF inv]) (auto simp: slot_ok_def nth_list_update split: if_splits)
qed

lemma table_inv_exit_ready:
  assumes inv: "table_inv sts kds (t # ts) c i" and c: "c \<noteq> NO_THREAD" "c \<noteq> i"
  shows "table_inv (sts[c := Exited, t := Running]) kds ts t i"
proof -
  note b = table_inv_bounds [OF inv]
  have c': "c < MAX_THREADS" using b(5) c by simp
  have "c \<notin> set (t # ts)"
    using table_inv_slot [OF inv c'] by (simp add: slot_ok_def)
  then show ?thesis
    using b(1-4,6) c c' by (intro table_inv_slots [OF inv]) (auto simp: slot_ok_def nth_list_update)
qed

lemma table_inv_exit_idle:
  assumes inv: "table_inv sts kds [] c i" and "c \<noteq> NO_THREAD" "c \<noteq> i" "i \<noteq> NO_THREAD"
  shows "table_inv (sts[c := Exited, i := Running]) kds [] i i"
  using table_inv_bounds [OF inv] assms(2-)
  by (intro table_inv_slots [OF inv]) (auto simp: slot_ok_def nth_list_update)

lemma table_inv_create:
  assumes inv: "table_inv sts kds rdy c i" and t: "t < MAX_THREADS" "sts ! t = Unused"
  shows "table_inv (sts[t := Ready]) (kds[t := Normal]) (rdy @ [t]) c i"
  using table_inv_bounds [OF inv] t table_inv_slot [OF inv t(1)]
  by (intro table_inv_slots [OF inv]) (auto simp: slot_ok_def nth_list_update)

lemma table_inv_register_idle:
  assumes inv: "table_inv sts kds rdy c NO_THREAD" and t: "t < MAX_THREADS" "sts ! t = Unused"
  shows "table_inv (sts[t := Ready]) (kds[t := Idle]) rdy c t"
  using table_inv_bounds [OF inv] t table_inv_slot [OF inv t(1)]
  by (intro table_inv_slots [OF inv]) (auto simp: slot_ok_def nth_list_update)

lemma table_inv_register_boot:
  assumes inv: "table_inv sts kds rdy NO_THREAD i" and t: "t < MAX_THREADS" "sts ! t = Unused"
  shows "table_inv (sts[t := Running]) (kds[t := Boot]) rdy t i"
  using table_inv_bounds [OF inv] t table_inv_slot [OF inv t(1)]
  by (intro table_inv_slots [OF inv]) (auto simp: slot_ok_def nth_list_update)

lemma table_inv_reap:
  assumes inv: "table_inv sts kds rdy c i" and t: "t < MAX_THREADS" "sts ! t = Exited"
  shows "table_inv (sts[t := Unused]) (kds[t := Normal]) rdy c i"
  using table_inv_bounds [OF inv] t table_inv_slot [OF inv t(1)]
  by (intro table_inv_slots [OF inv]) (auto simp: slot_ok_def nth_list_update)

lemma ring_wf_update [simp]:
  "ring_wf (s\<lparr>states := a\<rparr>) = ring_wf s" "ring_wf (s\<lparr>kinds := b\<rparr>) = ring_wf s"
  "ring_wf (s\<lparr>current := c\<rparr>) = ring_wf s" "ring_wf (s\<lparr>idle := d\<rparr>) = ring_wf s"
  "ring_wf (s\<lparr>ticks := e\<rparr>) = ring_wf s" "ring_wf (s\<lparr>switches := e\<rparr>) = ring_wf s"
  by (simp_all add: ring_wf_def)

lemma ready_queue_update [simp]:
  "ready_queue (s\<lparr>states := a\<rparr>) = ready_queue s" "ready_queue (s\<lparr>kinds := b\<rparr>) = ready_queue s"
  "ready_queue (s\<lparr>current := c\<rparr>) = ready_queue s" "ready_queue (s\<lparr>idle := d\<rparr>) = ready_queue s"
  "ready_queue (s\<lparr>ticks := e\<rparr>) = ready_queue s" "ready_queue (s\<lparr>switches := e\<rparr>) = ready_queue s"
  by (simp_all add: ready_queue_def)

lemma sched_inv_new: "sched_inv sched_new"
  by (simp add: sched_inv_def table_inv_def slot_ok_def sched_new_def ring_wf_def ready_queue_def rust_consts)

section \<open>What every operation does\<close>

text \<open>
  The abstract scheduler: the running thread, the ready threads in order, the idle thread and the
  threads waiting to be reaped.
\<close>

record Abs_Sched =
  a_current :: "usize option"
  a_ready :: "usize list"
  a_idle :: "usize option"
  a_dead :: "usize set"

definition thread_opt :: "usize \<Rightarrow> usize option" where
  "thread_opt t = (if t = NO_THREAD then None else Some t)"

definition abs_sched :: "Scheduler \<Rightarrow> Abs_Sched" where
  "abs_sched s = \<lparr> a_current = thread_opt (current s), a_ready = ready_queue s,
     a_idle = thread_opt (idle s), a_dead = {t. t < MAX_THREADS \<and> states s ! t = Exited} \<rparr>"

lemma thread_opt_eq:
  "t \<noteq> NO_THREAD \<Longrightarrow> thread_opt t = Some t" "t < MAX_THREADS \<Longrightarrow> thread_opt t = Some t"
  "thread_opt NO_THREAD = None" "thread_opt t = Some u \<longleftrightarrow> t = u \<and> u \<noteq> NO_THREAD"
  by (auto simp: thread_opt_def rust_consts)

text \<open>A yield or a preempting tick: the head of the queue runs, the old thread goes to the back.\<close>

definition a_yield :: "Abs_Sched \<Rightarrow> Abs_Sched \<times> Decision" where
  "a_yield a = (case (a_current a, a_ready a) of
       (Some c, t # ts) \<Rightarrow>
         (a\<lparr>a_current := Some t, a_ready := ts @ (if a_idle a = Some c then [] else [c])\<rparr>, Switch c t)
     | _ \<Rightarrow> (a, Keep))"

text \<open>An exit: the next ready thread runs, or else the idle thread.\<close>

definition a_exit :: "Abs_Sched \<Rightarrow> Abs_Sched \<times> (SchedError + Decision)" where
  "a_exit a = (case a_current a of
       None \<Rightarrow> (a, Inl NoCurrentThread)
     | Some c \<Rightarrow>
         (case a_ready a of
            t # ts \<Rightarrow> (a\<lparr>a_current := Some t, a_ready := ts, a_dead := insert c (a_dead a)\<rparr>, Inr (Switch c t))
          | [] \<Rightarrow>
              (case a_idle a of
                 Some t \<Rightarrow> (a\<lparr>a_current := Some t, a_dead := insert c (a_dead a)\<rparr>, Inr (Switch c t))
               | None \<Rightarrow> (a\<lparr>a_dead := insert c (a_dead a)\<rparr>, Inl NothingToRun))))"

lemma rotate_step:
  assumes inv: "sched_inv s" and cur: "current s \<noteq> NO_THREAD" and rq: "ready_queue s = t # ts"
    and sw: "switches s < U64_MAX"
  shows "\<exists>s'. sched_rotate s = Some (s', Switch (current s) t) \<and> ring_wf s' \<and>
     ready_queue s' = ts @ (if kinds s ! current s = Idle then [] else [current s]) \<and>
     sched_rest s' = ((states s)[current s := Ready, t := Running], kinds s, t, idle s, ticks s,
       switches s + 1)"
proof -
  let ?c = "current s"
  let ?s1 = "s\<lparr>states := (states s)[?c := Ready]\<rparr>"
  have c: "?c < MAX_THREADS" "?c \<notin> set (ready_queue s)" and len: "length (states s) = MAX_THREADS"
    "length (kinds s) = MAX_THREADS" and wf: "ring_wf s" and t: "t < MAX_THREADS"
    using inv cur rq current_slot [OF inv cur] by (auto simp: sched_inv_def table_inv_def)
  have ne: "queue_len s \<noteq> 0"
    using rq length_ready_queue [of s] by auto
  have wf1: "ring_wf ?s1" using wf by simp
  have room: "length (ready_queue ?s1) < MAX_THREADS"
    using ready_room [OF inv c] by simp
  obtain s2 s3 where s2: "(if kinds s ! ?c \<noteq> Idle then enqueue ?s1 ?c else Some ?s1) = Some s2"
    and s3: "dequeue s2 = Some (t, s3)" "ring_wf s3"
      "ready_queue s3 = ts @ (if kinds s ! ?c = Idle then [] else [?c])" "sched_rest s3 = sched_rest ?s1"
  proof (cases "kinds s ! ?c = Idle")
    case True
    then show thesis
      using that [of ?s1] rq.deq_head [OF wf1, of t ts] rq by auto
  next
    case False
    obtain q1 q2 y ys where "enqueue ?s1 ?c = Some q1" "dequeue q1 = Some (y, q2)" "ring_wf q2"
      "ready_queue ?s1 @ [?c] = y # ys" "ready_queue q2 = ys" "sched_rest q2 = sched_rest ?s1"
      by (rule rq.push_pop [OF wf1 room, of ?c])
    with False show thesis
      using that [of q1 q2] rq by simp
  qed
  have fields: "states s3 = (states s)[?c := Ready]" "kinds s3 = kinds s" "idle s3 = idle s"
    "ticks s3 = ticks s" "switches s3 = switches s"
    using s3(4) by (simp_all add: sched_rest_def)
  have "sched_rotate s = Some (s3\<lparr>states := (states s3)[t := Running], current := t,
      switches := switches s + 1\<rparr>, Switch ?c t)"
    using cur c ne len s2 s3(1) t fields sw
    by (simp add: sched_rotate_def Let_def index_def index_set_def uadd_def rust_consts)
  then show ?thesis
    using s3 fields by (simp add: sched_rest_def)
qed

lemma rotate_keep:
  assumes inv: "sched_inv s" and idle: "current s = NO_THREAD \<or> ready_queue s = []"
  shows "sched_rotate s = Some (s, Keep)"
proof (cases "current s = NO_THREAD")
  case True
  then show ?thesis by (simp add: sched_rotate_def)
next
  case False
  with idle have "ready_queue s = []" by simp
  then have "queue_len s = 0" using length_ready_queue [of s] by simp
  moreover have "current s < length (kinds s)" using inv False by (simp add: sched_inv_def table_inv_def)
  ultimately show ?thesis using False by (simp add: sched_rotate_def index_def)
qed

text \<open>\<open>Scheduler::rotate\<close> keeps the invariant and implements the abstract yield.\<close>

lemma rotate_refines:
  assumes inv: "sched_inv s" and sw: "switches s < U64_MAX"
  shows "\<exists>s' d. sched_rotate s = Some (s', d) \<and> sched_inv s' \<and> (abs_sched s', d) = a_yield (abs_sched s) \<and>
     kinds s' = kinds s \<and> ticks s' = ticks s"
proof (cases "current s = NO_THREAD \<or> ready_queue s = []")
  case True
  then show ?thesis
    using rotate_keep [OF inv True] inv
    by (auto simp: a_yield_def abs_sched_def thread_opt_def split: list.splits)
next
  case False
  then obtain t ts where rq: "ready_queue s = t # ts" and cur: "current s \<noteq> NO_THREAD"
    by (cases "ready_queue s") auto
  obtain s' where s': "sched_rotate s = Some (s', Switch (current s) t)" "ring_wf s'"
    "ready_queue s' = ts @ (if kinds s ! current s = Idle then [] else [current s])"
    "sched_rest s' = ((states s)[current s := Ready, t := Running], kinds s, t, idle s, ticks s,
       switches s + 1)"
    using rotate_step [OF inv cur rq sw] by blast
  have "t \<in> set (ready_queue s)" by (simp add: rq)
  note c = current_slot [OF inv cur] ready_slot [OF inv this]
  have "table_inv (states s) (kinds s) (t # ts) (current s) (idle s)"
    using inv rq by (simp add: sched_inv_def)
  then have "sched_inv s'"
    using s'(2-4) table_inv_rotate [OF _ cur] by (simp add: sched_inv_def sched_rest_def)
  moreover have "(abs_sched s', Switch (current s) t) = a_yield (abs_sched s)"
    using s'(3,4) c rq cur
    by (auto simp: a_yield_def abs_sched_def thread_opt_eq sched_rest_def nth_list_update)
  ultimately show ?thesis
    using s'(1,4) by (auto simp: sched_rest_def)
qed

text \<open>\<open>Scheduler::exit_current\<close> implements the abstract exit.\<close>

lemma exit_ready:
  assumes inv: "sched_inv s" and cur: "current s \<noteq> NO_THREAD" and rq: "ready_queue s = t # ts"
    and sw: "switches s < U64_MAX"
  shows "\<exists>s'. exit_current s = Some (s', Inr (Switch (current s) t)) \<and> ring_wf s' \<and> ready_queue s' = ts \<and>
     sched_rest s' = ((states s)[current s := Exited, t := Running], kinds s, t, idle s, ticks s,
       switches s + 1)"
proof -
  let ?s1 = "s\<lparr>states := (states s)[current s := Exited]\<rparr>"
  have wf1: "ring_wf ?s1" "ready_queue ?s1 = t # ts" using inv rq by (simp_all add: sched_inv_def)
  obtain s2 where s2: "dequeue ?s1 = Some (t, s2)" "ring_wf s2" "ready_queue s2 = ts"
    "sched_rest s2 = sched_rest ?s1"
    using rq.deq_head [OF wf1] by blast
  have t: "t < length (states s)" "queue_len s \<noteq> 0"
    using ready_slot(6) [OF inv, of t] rq length_ready_queue [of s] by auto
  then show ?thesis
    using current_slot [OF inv cur] cur s2 sw
    by (simp add: exit_current_def pick_after_stop_def Let_def index_set_def uadd_def sched_rest_def
        rust_consts)
qed

lemma exit_no_ready:
  assumes inv: "sched_inv s" and cur: "current s \<noteq> NO_THREAD" and rq: "ready_queue s = []"
    and sw: "switches s < U64_MAX"
  shows "exit_current s =
    (if idle s \<noteq> NO_THREAD
     then Some (s\<lparr>states := (states s)[current s := Exited, idle s := Running], current := idle s,
                 switches := switches s + 1\<rparr>, Inr (Switch (current s) (idle s)))
     else Some (s\<lparr>states := (states s)[current s := Exited]\<rparr>, Inl NothingToRun))"
proof -
  have "queue_len s = 0" using rq length_ready_queue [of s] by simp
  moreover have "idle s < length (states s)" if "idle s \<noteq> NO_THREAD"
    using inv that by (simp add: sched_inv_def table_inv_def)
  ultimately show ?thesis
    using current_slot [OF inv cur] cur sw
    by (simp add: exit_current_def pick_after_stop_def Let_def index_set_def uadd_def rust_consts)
qed

lemma exit_refines:
  assumes inv: "sched_inv s" and sw: "switches s < U64_MAX"
    and not_idle: "current s = NO_THREAD \<or> current s \<noteq> idle s"
  shows "\<exists>s' r. exit_current s = Some (s', r) \<and> (abs_sched s', r) = a_exit (abs_sched s) \<and>
     (r \<noteq> Inl NothingToRun \<longrightarrow> sched_inv s')"
proof (cases "current s = NO_THREAD")
  case True
  then show ?thesis
    using inv by (simp add: exit_current_def a_exit_def abs_sched_def thread_opt_eq)
next
  case cur: False
  note c = current_slot [OF inv cur]
  have tab: "table_inv (states s) (kinds s) (ready_queue s) (current s) (idle s)" and wf: "ring_wf s"
    using inv by (auto simp: sched_inv_def)
  show ?thesis
  proof (cases "ready_queue s")
    case Nil
    have i: "idle s < MAX_THREADS" "idle s < length (states s)" "states s ! idle s \<noteq> Exited"
      if "idle s \<noteq> NO_THREAD"
      using tab that by (auto simp: table_inv_def slot_ok_def)
    show ?thesis
      using exit_no_ready [OF inv cur Nil sw] c i Nil cur not_idle wf
        table_inv_exit_idle [OF tab [unfolded Nil] cur]
      by (auto simp: a_exit_def abs_sched_def thread_opt_eq sched_inv_def nth_list_update)
  next
    case (Cons t ts)
    then have "t \<in> set (ready_queue s)" by simp
    note t = ready_slot [OF inv this]
    obtain s' where s': "exit_current s = Some (s', Inr (Switch (current s) t))" "ring_wf s'"
      "ready_queue s' = ts" "sched_rest s' = ((states s)[current s := Exited, t := Running], kinds s,
         t, idle s, ticks s, switches s + 1)"
      using exit_ready [OF inv cur Cons sw] by blast
    moreover have "(abs_sched s', Inr (Switch (current s) t)) = a_exit (abs_sched s)"
      using s' c t Cons cur
      by (auto simp: a_exit_def abs_sched_def thread_opt_eq sched_rest_def nth_list_update)
    moreover have "sched_inv s'"
      using s' table_inv_exit_ready [OF tab [unfolded Cons] cur] not_idle cur
      by (simp add: sched_inv_def sched_rest_def)
    ultimately show ?thesis by blast
  qed
qed

text \<open>Creation and registration take the lowest unused slot; reaping the lowest exited one.\<close>

lemma create_refines:
  assumes inv: "sched_inv s"
  shows "case position (\<lambda>st. st = Unused) (states s) of
      None \<Rightarrow> create s = Some (s, Inl NoFreeSlot)
    | Some t \<Rightarrow> \<exists>s'. create s = Some (s', Inr t) \<and> sched_inv s' \<and> ready_queue s' = ready_queue s @ [t] \<and>
        sched_rest s' = ((states s)[t := Ready], (kinds s)[t := Normal], current s, idle s, ticks s,
          switches s)"
proof (cases "position (\<lambda>st. st = Unused) (states s)")
  case None
  then show ?thesis by (simp add: create_def)
next
  case (Some t)
  have tab: "table_inv (states s) (kinds s) (ready_queue s) (current s) (idle s)" and wf: "ring_wf s"
    using inv by (auto simp: sched_inv_def)
  note b = table_inv_bounds [OF tab]
  have t: "t < MAX_THREADS" "states s ! t = Unused"
    using Some b by (simp_all add: position_Some_iff)
  then have "t \<notin> set (ready_queue s)"
    using table_inv_slot [OF tab t(1)] by (simp add: slot_ok_def)
  then have "queue_len s < MAX_THREADS" by (rule ready_room [OF inv t(1)])
  let ?s1 = "s\<lparr>states := (states s)[t := Ready], kinds := (kinds s)[t := Normal]\<rparr>"
  obtain s' where "enqueue ?s1 t = Some s'" "ring_wf s'" "ready_queue s' = ready_queue s @ [t]"
    "sched_rest s' = sched_rest ?s1"
    using rq.enq_room [of ?s1 t] wf \<open>queue_len s < MAX_THREADS\<close> by auto
  then show ?thesis
    using Some t b table_inv_create [OF tab t]
    by (simp add: create_def index_set_def sched_inv_def sched_rest_def)
qed

lemma register_idle_any_refines:
  assumes inv: "sched_inv s"
  shows "register_idle_any s =
    (case position (\<lambda>st. st = Unused) (states s) of
       None \<Rightarrow> Some (s, Inl NoFreeSlot)
     | Some t \<Rightarrow>
         if idle s \<noteq> NO_THREAD then Some (s, Inl IdleAlreadyRegistered)
         else Some (s\<lparr>states := (states s)[t := Ready], kinds := (kinds s)[t := Idle], idle := t\<rparr>, Inr t))"
  using sched_inv_lengths [OF inv]
  by (auto simp: register_idle_any_def register_idle_def index_def index_set_def
      dest!: position_SomeD split: option.split)

lemma register_idle_any_inv:
  assumes inv: "sched_inv s" and run: "register_idle_any s = Some (s', r)"
  shows "sched_inv s'"
proof -
  have tab: "table_inv (states s) (kinds s) (ready_queue s) (current s) (idle s)" and wf: "ring_wf s"
    using inv by (auto simp: sched_inv_def)
  show ?thesis
  proof (cases "position (\<lambda>st. st = Unused) (states s)")
    case None
    then show ?thesis using run inv by (simp add: register_idle_any_refines)
  next
    case (Some t)
    then have "t < MAX_THREADS" "states s ! t = Unused"
      using table_inv_bounds(1) [OF tab] by (simp_all add: position_Some_iff)
    then show ?thesis
      using run inv Some wf tab table_inv_register_idle [of "states s" "kinds s" "ready_queue s" "current s" t]
      by (auto simp: register_idle_any_refines sched_inv_def split: if_splits)
  qed
qed

lemma register_boot_inv:
  assumes inv: "sched_inv s" and fresh: "current s = NO_THREAD" "t < MAX_THREADS" "states s ! t = Unused"
  shows "\<exists>s'. register_boot s t = Some (s', Inr ()) \<and> sched_inv s' \<and> current s' = t \<and>
     kind_of s' t = Inr Boot \<and> ready_queue s' = ready_queue s"
  using assms sched_inv_lengths [OF inv]
    table_inv_register_boot [of "states s" "kinds s" "ready_queue s" "idle s" t]
  by (simp add: register_boot_def index_set_def sched_inv_def kind_of_def)

lemma take_reapable_refines:
  assumes inv: "sched_inv s"
  shows "take_reapable s =
    (case position (\<lambda>st. st = Exited) (states s) of
       None \<Rightarrow> Some (s, None)
     | Some t \<Rightarrow> Some (s\<lparr>states := (states s)[t := Unused], kinds := (kinds s)[t := Normal]\<rparr>, Some t))"
  using sched_inv_lengths [OF inv]
  by (auto simp: take_reapable_def index_set_def dest!: position_SomeD split: option.split)

lemma take_reapable_inv:
  assumes inv: "sched_inv s" and run: "take_reapable s = Some (s', r)"
  shows "sched_inv s'"
proof (cases "position (\<lambda>st. st = Exited) (states s)")
  case None
  then show ?thesis using run inv by (simp add: take_reapable_refines)
next
  case (Some t)
  have tab: "table_inv (states s) (kinds s) (ready_queue s) (current s) (idle s)"
    using inv by (simp add: sched_inv_def)
  then have "t < MAX_THREADS" "states s ! t = Exited"
    using Some table_inv_bounds(1) [OF tab] by (simp_all add: position_Some_iff)
  then show ?thesis
    using run inv Some table_inv_reap [OF tab] by (auto simp: take_reapable_refines sched_inv_def)
qed

lemma on_tick_refines:
  assumes inv: "sched_inv s" and "ticks s < U64_MAX" "switches s < U64_MAX"
  shows "\<exists>s' d. on_tick s b = Some (s', d) \<and> sched_inv s' \<and> ticks s' = ticks s + 1 \<and>
     (abs_sched s', d) = (if b then a_yield (abs_sched s) else (abs_sched s, Keep))"
proof -
  let ?s1 = "s\<lparr>ticks := ticks s + 1\<rparr>"
  have "sched_inv ?s1" "abs_sched ?s1 = abs_sched s" using inv by (simp_all add: sched_inv_def abs_sched_def)
  then show ?thesis
    using rotate_refines [of ?s1] assms by (auto simp: on_tick_def uadd_def rust_consts)
qed

section \<open>Reachable states\<close>

text \<open>
  What the kernel does with the scheduler: it registers the boot context once, and then registers
  the idle thread, creates threads, takes ticks and yields, ends the current thread (never the idle
  thread, whose entry point does not return) and reaps.
\<close>

inductive reachable :: "Scheduler \<Rightarrow> bool" where
  boot: "register_boot sched_new 0 = Some (s, Inr ()) \<Longrightarrow> reachable s"
| idle: "reachable s \<Longrightarrow> register_idle_any s = Some (s', r) \<Longrightarrow> reachable s'"
| create: "reachable s \<Longrightarrow> create s = Some (s', r) \<Longrightarrow> reachable s'"
| tick: "reachable s \<Longrightarrow> switches s < U64_MAX \<Longrightarrow> on_tick s b = Some (s', d) \<Longrightarrow> reachable s'"
| yield: "reachable s \<Longrightarrow> switches s < U64_MAX \<Longrightarrow> yield_current s = Some (s', d) \<Longrightarrow> reachable s'"
| exit: "reachable s \<Longrightarrow> switches s < U64_MAX \<Longrightarrow> current s \<noteq> idle s \<Longrightarrow>
    exit_current s = Some (s', Inr d) \<Longrightarrow> reachable s'"
| reap: "reachable s \<Longrightarrow> take_reapable s = Some (s', r) \<Longrightarrow> reachable s'"

lemma create_inv:
  assumes inv: "sched_inv s" and run: "create s = Some (s', r)"
  shows "sched_inv s'" "current s' = current s"
  using create_refines [OF inv] run inv by (auto simp: sched_rest_def split: option.splits)

lemma on_tick_inv:
  assumes inv: "sched_inv s" and sw: "switches s < U64_MAX" and run: "on_tick s b = Some (s', d)"
  shows "sched_inv s'"
proof -
  have "ticks s < U64_MAX"
    using run by (auto simp: on_tick_def run_simps rust_consts)
  then show ?thesis
    using on_tick_refines [OF inv _ sw, of b] run by auto
qed

lemma reachable_sched_inv: "reachable s \<Longrightarrow> sched_inv s"
proof (induction rule: reachable.induct)
  case (boot s)
  have "states sched_new ! 0 = Unused" "current sched_new = NO_THREAD" "(0 :: nat) < MAX_THREADS"
    by (simp_all add: sched_new_def rust_consts)
  then show ?case using register_boot_inv [OF sched_inv_new, of 0] boot by auto
next
  case (exit s s' d)
  then show ?case using exit_refines [of s] by auto
next
  case (yield s s' d)
  then show ?case using rotate_refines [of s] by (auto simp: yield_current_def)
qed (blast intro: register_idle_any_inv create_inv on_tick_inv take_reapable_inv)+

lemma current_abs: "current s \<noteq> NO_THREAD \<longleftrightarrow> a_current (abs_sched s) \<noteq> None"
  by (simp add: abs_sched_def thread_opt_def)

lemma a_yield_current: "a_current a \<noteq> None \<Longrightarrow> a_current (fst (a_yield a)) \<noteq> None"
  by (auto simp: a_yield_def split: list.split)

lemma a_exit_current: "a_exit a = (a', Inr d) \<Longrightarrow> a_current a' \<noteq> None"
  by (auto simp: a_exit_def split: option.splits list.splits)

lemma reachable_current: "reachable s \<Longrightarrow> current s \<noteq> NO_THREAD"
proof (induction rule: reachable.induct)
  case (boot s)
  then show ?case by (auto simp: register_boot_def run_simps rust_consts split: if_splits)
next
  case (idle s s' r)
  then show ?case
    using register_idle_any_refines [OF reachable_sched_inv [OF idle(1)]]
    by (auto split: option.splits if_splits)
next
  case (create s s' r)
  then show ?case using create_inv reachable_sched_inv by metis
next
  case (tick s b s' d)
  have inv: "sched_inv s" by (rule reachable_sched_inv [OF tick(1)])
  have "ticks s < U64_MAX" using tick by (auto simp: on_tick_def run_simps rust_consts)
  then have "(abs_sched s', d) = (if b then a_yield (abs_sched s) else (abs_sched s, Keep))"
    using on_tick_refines [OF inv _ tick(2), of b] tick by auto
  then show ?case
    using tick a_yield_current [of "abs_sched s"] unfolding current_abs by (metis fst_conv)
next
  case (yield s s' d)
  have "(abs_sched s', d) = a_yield (abs_sched s)"
    using rotate_refines [OF reachable_sched_inv [OF yield(1)] yield(2)] yield
    by (auto simp: yield_current_def)
  then show ?case
    using yield a_yield_current [of "abs_sched s"] unfolding current_abs by (metis fst_conv)
next
  case (exit s s' d)
  have "(abs_sched s', Inr d) = a_exit (abs_sched s)"
    using exit_refines [OF reachable_sched_inv [OF exit(1)] exit(2)] exit by auto
  then show ?case
    unfolding current_abs using a_exit_current by metis
next
  case (reap s s' r)
  then show ?case
    using take_reapable_refines [OF reachable_sched_inv [OF reap(1)]]
    by (auto split: option.splits if_splits)
qed

section \<open>Round robin\<close>

text \<open>\<open>n\<close> consecutive yields.\<close>

fun yields :: "nat \<Rightarrow> Scheduler \<Rightarrow> Scheduler panics" where
  "yields 0 s = Some s"
| "yields (Suc n) s = do { (s', _) \<leftarrow> yield_current s; yields n s' }"

lemma yield_rotates:
  assumes inv: "sched_inv s" and cur: "current s \<noteq> NO_THREAD" "current s \<noteq> idle s"
    and sw: "switches s < U64_MAX"
  shows "\<exists>s' d. yield_current s = Some (s', d) \<and> sched_inv s' \<and> current s' \<noteq> NO_THREAD \<and>
     current s' \<noteq> idle s' \<and> current s' # ready_queue s' = rotate1 (current s # ready_queue s) \<and>
     switches s' \<le> switches s + 1"
proof (cases "ready_queue s")
  case Nil
  then show ?thesis using rotate_keep [OF inv] inv cur by (simp add: yield_current_def)
next
  case (Cons t ts)
  obtain s' where s': "sched_rotate s = Some (s', Switch (current s) t)"
    "ready_queue s' = ts @ (if kinds s ! current s = Idle then [] else [current s])"
    "sched_rest s' = ((states s)[current s := Ready, t := Running], kinds s, t, idle s, ticks s,
       switches s + 1)"
    using rotate_step [OF inv cur(1) Cons sw] by blast
  have "sched_inv s'" using rotate_refines [OF inv sw] s'(1) by auto
  moreover have "t \<noteq> NO_THREAD" "t \<noteq> idle s"
    using ready_slot [OF inv, of t] Cons by (auto simp: rust_consts)
  ultimately show ?thesis
    using s' Cons cur current_slot(4) [OF inv cur(1)] by (simp add: yield_current_def sched_rest_def)
qed

lemma yields_rotate:
  assumes "sched_inv s" "current s \<noteq> NO_THREAD" "current s \<noteq> idle s" "switches s + n \<le> U64_MAX"
  shows "\<exists>s'. yields n s = Some s' \<and> sched_inv s' \<and>
     current s' # ready_queue s' = rotate n (current s # ready_queue s)"
  using assms
proof (induction n arbitrary: s)
  case 0
  then show ?case by simp
next
  case (Suc n)
  obtain s1 d where s1: "yield_current s = Some (s1, d)" "sched_inv s1" "current s1 \<noteq> NO_THREAD"
    "current s1 \<noteq> idle s1" "current s1 # ready_queue s1 = rotate1 (current s # ready_queue s)"
    "switches s1 \<le> switches s + 1"
    using yield_rotates [of s] Suc.prems by auto
  then show ?case
    using Suc.IH [OF s1(2-4)] Suc.prems(4) by (auto simp: rotate1_rotate_swap rotate_def funpow_swap1)
qed

section \<open>Properties\<close>

text \<open>A state the kernel reaches: the boot context runs, one idle thread and two created threads.\<close>

definition sched_demo :: "Scheduler panics" where
  "sched_demo = do {
     (s, _) \<leftarrow> register_boot sched_new 0;
     (s, _) \<leftarrow> register_idle_any s;
     (s, _) \<leftarrow> create s;
     (s, _) \<leftarrow> create s;
     Some s
   }"

definition demo :: Scheduler where "demo = the sched_demo"

lemma boot_demo: "\<exists>s. register_boot sched_new 0 = Some (s, Inr ()) \<and> reachable s"
  by (auto simp: register_boot_def index_set_def sched_new_def rust_consts intro!: reachable.boot)

lemma reachable_demo: "reachable demo"
proof -
  obtain s0 where s0: "register_boot sched_new 0 = Some (s0, Inr ())" "reachable s0"
    using boot_demo by blast
  have "sched_demo \<noteq> None" by code_simp
  then obtain s s1 s2 r1 r2 r3 where "register_idle_any s0 = Some (s1, r1)" "create s1 = Some (s2, r2)"
    "create s2 = Some (s, r3)" "sched_demo = Some s"
    by (auto simp: sched_demo_def s0 run_simps)
  then show ?thesis
    using s0(2) by (metis demo_def option.sel reachable.create reachable.idle)
qed

lemma demo_values:
  "current demo = 0" "idle demo = 1" "ready_queue demo = [2, 3]" "switches demo = 0" "ticks demo = 0"
  by code_simp+

lemma demo_inv: "sched_inv demo"
  by (rule reachable_sched_inv [OF reachable_demo])

lemma demo_states: "states demo ! 0 = Running" "states demo ! 1 = Ready" "kinds demo ! 1 = Idle"
  by code_simp+

text \<open>
  C1. In every state the kernel can bring the scheduler to, exactly one thread is \<open>Running\<close> and it
  is the current one; the ring buffer holds exactly the ready threads other than the idle thread,
  each once; and an exited or unused thread is neither current nor queued.
\<close>

theorem reachable_invariant:
  assumes "reachable s"
  shows "sched_inv s \<and> current s < MAX_THREADS \<and>
    {t. t < MAX_THREADS \<and> states s ! t = Running} = {current s} \<and> distinct (ready_queue s) \<and>
    set (ready_queue s) = {t. t < MAX_THREADS \<and> states s ! t = Ready \<and> t \<noteq> idle s}"
proof -
  have inv: "sched_inv s" and cur: "current s < MAX_THREADS"
    using assms reachable_sched_inv reachable_current current_slot(1) by blast+
  then have slot: "slot_ok (set (ready_queue s)) (current s) (idle s) t (states s ! t) (kinds s ! t)"
    if "t < MAX_THREADS" for t
    using that by (simp add: sched_inv_def table_inv_def)
  have "set (ready_queue s) = {t. t < MAX_THREADS \<and> states s ! t = Ready \<and> t \<noteq> idle s}"
    using slot ready_slot [OF inv] by (auto simp: slot_ok_def)
  moreover have "{t. t < MAX_THREADS \<and> states s ! t = Running} = {current s}"
    using slot cur by (auto simp: slot_ok_def)
  ultimately show ?thesis
    using inv cur by (simp add: sched_inv_def table_inv_def)
qed

theorem reachable_invariant_witness:
  "reachable demo \<and> current demo = 0 \<and> set (ready_queue demo) = {2, 3} \<and>
   {t. t < MAX_THREADS \<and> states demo ! t = Running} = {0}"
  using reachable_demo reachable_invariant [OF reachable_demo] demo_values by simp

text \<open>
  C2. A clock tick and a voluntary yield never panic below the counters' range, keep the invariant
  and implement the abstract round-robin step: the head of the ready list runs, the old thread goes
  to the tail unless it is the idle thread, and with nothing ready the current thread is kept.
\<close>

theorem tick_and_yield_refine:
  assumes "sched_inv s" "ticks s < U64_MAX" "switches s < U64_MAX"
  shows "(\<exists>s' d. yield_current s = Some (s', d) \<and> sched_inv s' \<and>
            (abs_sched s', d) = a_yield (abs_sched s)) \<and>
         (\<exists>s' d. on_tick s True = Some (s', d) \<and> sched_inv s' \<and> ticks s' = ticks s + 1 \<and>
            (abs_sched s', d) = a_yield (abs_sched s)) \<and>
         on_tick s False = Some (s\<lparr>ticks := ticks s + 1\<rparr>, Keep)"
  using rotate_refines [of s] on_tick_refines [of s True] assms
  by (auto simp: yield_current_def on_tick_def uadd_def rust_consts)

theorem tick_and_yield_refine_witness:
  "sched_inv demo \<and> ticks demo < U64_MAX \<and> switches demo < U64_MAX \<and>
   (\<exists>s'. yield_current demo = Some (s', Switch 0 2) \<and> a_ready (abs_sched s') = [3, 0])"
proof -
  have "a_yield (abs_sched demo) =
      ((abs_sched demo)\<lparr>a_current := Some 2, a_ready := [3, 0]\<rparr>, Switch 0 2)"
    by (simp add: a_yield_def abs_sched_def thread_opt_def demo_values rust_consts)
  then show ?thesis
    using tick_and_yield_refine [OF demo_inv] demo_inv by (auto simp: demo_values rust_consts)
qed

text \<open>
  C3. Round robin: after \<open>n\<close> yields the running thread followed by the ready queue is the initial
  one rotated \<open>n\<close> times, so the thread that runs after \<open>n\<close> yields is entry \<open>n mod k\<close> of the \<open>k\<close>
  runnable threads: every thread runs exactly once in each window of \<open>k\<close> yields.
\<close>

theorem yields_round_robin:
  assumes "sched_inv s" "current s \<noteq> NO_THREAD" "current s \<noteq> idle s" "switches s + n \<le> U64_MAX"
  shows "\<exists>s'. yields n s = Some s' \<and> sched_inv s' \<and>
     current s' # ready_queue s' = rotate n (current s # ready_queue s) \<and>
     current s' = (current s # ready_queue s) ! (n mod (queue_len s + 1))"
proof -
  obtain s' where s': "yields n s = Some s'" "sched_inv s'"
    "current s' # ready_queue s' = rotate n (current s # ready_queue s)"
    using yields_rotate [OF assms] by blast
  then have "current s' = hd (rotate n (current s # ready_queue s))"
    by (metis list.sel(1))
  then have "current s' = (current s # ready_queue s) ! (n mod (queue_len s + 1))"
    by (simp add: hd_rotate_conv_nth)
  with s' show ?thesis by blast
qed

theorem yields_round_robin_witness:
  "\<exists>s'. yields 5 demo = Some s' \<and> current s' = 3 \<and> ready_queue s' = [0, 2]"
proof -
  have "rotate 5 [0, 2, 3 :: nat] = [3, 0, 2]" by code_simp
  then show ?thesis
    using yields_round_robin [OF demo_inv, of 5] by (auto simp: demo_values rust_consts)
qed

text \<open>
  C4. Once an idle thread is registered, the exit of any other thread always succeeds: the exiting
  thread becomes \<open>Exited\<close>, the next one is the head of the ready queue or, when that is empty, the
  idle thread, and it is never the exiting thread itself.
\<close>

theorem exit_switches:
  assumes "reachable s" "switches s < U64_MAX" "idle s \<noteq> NO_THREAD" "current s \<noteq> idle s"
  shows "\<exists>s' t. exit_current s = Some (s', Inr (Switch (current s) t)) \<and> sched_inv s' \<and>
     t = (case ready_queue s of [] \<Rightarrow> idle s | x # _ \<Rightarrow> x) \<and> t \<noteq> current s \<and> current s' = t \<and>
     ready_queue s' = tl (ready_queue s) \<and> state_of s' (current s) = Inr Exited"
proof -
  have inv: "sched_inv s" and cur: "current s \<noteq> NO_THREAD"
    using assms(1) reachable_sched_inv reachable_current by blast+
  note c = current_slot [OF inv cur]
  obtain s' r where s': "exit_current s = Some (s', r)" "(abs_sched s', r) = a_exit (abs_sched s)"
    "r \<noteq> Inl NothingToRun \<longrightarrow> sched_inv s'"
    using exit_refines [OF inv assms(2)] assms(4) by blast
  let ?t = "case ready_queue s of [] \<Rightarrow> idle s | x # _ \<Rightarrow> x"
  have t: "?t \<noteq> current s"
    using assms(4) ready_slot(5) [OF inv] by (auto split: list.split)
  have a: "r = Inr (Switch (current s) ?t)" "a_current (abs_sched s') = Some ?t"
    "a_ready (abs_sched s') = tl (ready_queue s)" "current s \<in> a_dead (abs_sched s')"
    using s'(2) cur assms(3) by (auto simp: a_exit_def abs_sched_def thread_opt_eq split: list.splits)
  then show ?thesis
    using s' t c by (auto simp: abs_sched_def thread_opt_eq state_of_def sched_inv_lengths)
qed

theorem exit_switches_witness:
  "reachable demo \<and> (\<exists>s'. exit_current demo = Some (s', Inr (Switch 0 2)) \<and> ready_queue s' = [3] \<and>
     state_of s' 0 = Inr Exited)"
  using reachable_demo exit_switches [OF reachable_demo] by (auto simp: demo_values rust_consts)

text \<open>
  Reaping takes the lowest exited thread, never the running or the idle thread, frees exactly
  its slot and touches no other thread; it answers \<open>None\<close> only when no thread has exited.
\<close>

theorem reap_only_exited:
  assumes "reachable s"
  shows "\<exists>s' r. take_reapable s = Some (s', r) \<and> sched_inv s' \<and> ready_queue s' = ready_queue s \<and>
    current s' = current s \<and>
    (case r of
       None \<Rightarrow> s' = s \<and> (\<forall>t < MAX_THREADS. states s ! t \<noteq> Exited)
     | Some t \<Rightarrow> t < MAX_THREADS \<and> states s ! t = Exited \<and> t \<noteq> current s \<and> t \<noteq> idle s \<and>
         (\<forall>u < t. states s ! u \<noteq> Exited) \<and> states s' = (states s)[t := Unused])"
proof -
  have inv: "sched_inv s" by (rule reachable_sched_inv [OF assms])
  have slot: "t \<noteq> current s \<and> t \<noteq> idle s" if "t < MAX_THREADS" "states s ! t = Exited" for t
    using inv that by (auto simp: sched_inv_def table_inv_def slot_ok_def)
  show ?thesis
  proof (cases "position (\<lambda>st. st = Exited) (states s)")
    case None
    then have "\<forall>t < MAX_THREADS. states s ! t \<noteq> Exited"
      using inv by (simp add: position_None_iff sched_inv_lengths)
    then show ?thesis
      using take_reapable_refines [OF inv] inv None by simp
  next
    case (Some t)
    then have "t < MAX_THREADS" "states s ! t = Exited" "\<forall>u < t. states s ! u \<noteq> Exited"
      using inv by (simp_all add: position_Some_iff sched_inv_lengths)
    then show ?thesis
      using take_reapable_refines [OF inv] take_reapable_inv [OF inv] slot Some by simp
  qed
qed

definition demo_exited :: Scheduler where "demo_exited = fst (the (exit_current demo))"

theorem reap_only_exited_witness:
  "reachable demo_exited \<and> (\<exists>s'. take_reapable demo_exited = Some (s', Some 0) \<and> ready_queue s' = [3])"
proof -
  have run: "exit_current demo = Some (demo_exited, Inr (Switch 0 2))" by code_simp
  have "reachable demo_exited"
    by (rule reachable.exit [OF reachable_demo _ _ run]) (simp_all add: demo_values rust_consts)
  moreover have "map_option snd (take_reapable demo_exited) = Some (Some 0)" "ready_queue demo_exited = [3]"
    by code_simp+
  ultimately show ?thesis
    using reap_only_exited [of demo_exited] by auto
qed

text \<open>
  Two places where the source's comments promise more than the code does.  The comment on
  \<open>take_reapable\<close> says the running thread is never taken; after an exit with nothing left to run the
  current thread is \<open>Exited\<close> and is taken.  The comment on \<open>register_boot\<close> says a second registration
  is refused; it succeeds and leaves two threads \<open>Running\<close>.
\<close>

lemma exit_without_idle_reaps_current:
  "do { (s, _) \<leftarrow> register_boot sched_new 0; (s, r) \<leftarrow> exit_current s; (s', t) \<leftarrow> take_reapable s;
        Some (r, current s, t) } = Some (Inl NothingToRun, 0, Some 0)"
  by code_simp

lemma register_boot_twice:
  "do { (s, _) \<leftarrow> register_boot sched_new 0; (s, r) \<leftarrow> register_boot s 1;
        Some (r, states s ! 0, states s ! 1) } = Some (Inr (), Running, Running)"
  by code_simp

end
