(* ===== verification/Memory_Map.thy ===== *)
theory Memory_Map
  imports Prelude
begin

text \<open>
  The UEFI memory map of \<^verbatim>\<open>src/crates/kernel-memory/src/map.rs\<close>: memory kinds, regions, parsing
  and validation of the raw descriptor array, iteration and the top of RAM.

  The raw array is a byte list.  \<open>map_wf\<close> is what a successful \<open>MemoryMap::from_bytes\<close> establishes,
  and \<open>regions_of\<close> the list of regions a well-formed map denotes; the clients of the map (frame
  allocator and page tables) rely on these two only.
\<close>

section \<open>Memory kinds and regions\<close>

definition PAGE_SIZE :: u64 where [rust_consts]: "PAGE_SIZE = 4096"
definition DESCRIPTOR_MIN_SIZE :: u32 where [rust_consts]: "DESCRIPTOR_MIN_SIZE = 40"
definition OFF_TYPE :: usize where [rust_consts]: "OFF_TYPE = 0"
definition OFF_PHYSICAL_START :: usize where [rust_consts]: "OFF_PHYSICAL_START = 8"
definition OFF_NUMBER_OF_PAGES :: usize where [rust_consts]: "OFF_NUMBER_OF_PAGES = 24"

datatype MemoryKind = Reserved | LoaderCode | LoaderData | BootServicesCode | BootServicesData
  | RuntimeServicesCode | RuntimeServicesData | Conventional | Unusable | AcpiReclaim | AcpiNvs
  | Mmio | MmioPortSpace | PalCode | Persistent | Unaccepted | Unknown u32

definition from_raw :: "u32 \<Rightarrow> MemoryKind" where
  "from_raw raw =
     (if raw = 0 then Reserved
      else if raw = 1 then LoaderCode
      else if raw = 2 then LoaderData
      else if raw = 3 then BootServicesCode
      else if raw = 4 then BootServicesData
      else if raw = 5 then RuntimeServicesCode
      else if raw = 6 then RuntimeServicesData
      else if raw = 7 then Conventional
      else if raw = 8 then Unusable
      else if raw = 9 then AcpiReclaim
      else if raw = 10 then AcpiNvs
      else if raw = 11 then Mmio
      else if raw = 12 then MmioPortSpace
      else if raw = 13 then PalCode
      else if raw = 14 then Persistent
      else if raw = 15 then Unaccepted
      else Unknown raw)"

fun kind_raw :: "MemoryKind \<Rightarrow> u32" where
  "kind_raw Reserved = 0"
| "kind_raw LoaderCode = 1"
| "kind_raw LoaderData = 2"
| "kind_raw BootServicesCode = 3"
| "kind_raw BootServicesData = 4"
| "kind_raw RuntimeServicesCode = 5"
| "kind_raw RuntimeServicesData = 6"
| "kind_raw Conventional = 7"
| "kind_raw Unusable = 8"
| "kind_raw AcpiReclaim = 9"
| "kind_raw AcpiNvs = 10"
| "kind_raw Mmio = 11"
| "kind_raw MmioPortSpace = 12"
| "kind_raw PalCode = 13"
| "kind_raw Persistent = 14"
| "kind_raw Unaccepted = 15"
| "kind_raw (Unknown other) = other"

fun is_ram :: "MemoryKind \<Rightarrow> bool" where
  "is_ram LoaderCode = True"
| "is_ram LoaderData = True"
| "is_ram BootServicesCode = True"
| "is_ram BootServicesData = True"
| "is_ram RuntimeServicesCode = True"
| "is_ram RuntimeServicesData = True"
| "is_ram Conventional = True"
| "is_ram AcpiReclaim = True"
| "is_ram AcpiNvs = True"
| "is_ram _ = False"

record Region =
  region_kind :: MemoryKind
  region_base :: u64
  region_pages :: u64

definition region_end :: "Region \<Rightarrow> u64 panics" where
  "region_end r = do { n \<leftarrow> umul (region_pages r) PAGE_SIZE; uadd (region_base r) n }"

definition byte_len :: "Region \<Rightarrow> u64 panics" where
  "byte_len r = umul (region_pages r) PAGE_SIZE"

definition overlaps :: "Region \<Rightarrow> u64 \<Rightarrow> u64 \<Rightarrow> bool panics" where
  "overlaps r start stop =
     (if region_base r < stop then do { e \<leftarrow> region_end r; Some (start < e) } else Some False)"

section \<open>Parsing\<close>

datatype MapError = Empty | StrideTooSmall u32 | TooShort usize usize | TooLarge u64 u32
  | AddressOverflow usize

definition buffer_len :: "u64 \<Rightarrow> u32 \<Rightarrow> usize option" where
  "buffer_len entries stride =
     (if stride < DESCRIPTOR_MIN_SIZE then None else umul entries stride)"

record MemoryMap =
  map_bytes :: bytes
  map_entries :: usize
  map_stride :: usize
  map_version :: u32

text \<open>The two readers yield 0 out of range; \<open>bytes.get(offset..end)\<close> is \<open>slice\<close> as a value.\<close>

definition read_le :: "bytes \<Rightarrow> usize \<Rightarrow> nat \<Rightarrow> nat" where
  "read_le bs offset n =
     (case uadd offset n of
        None \<Rightarrow> 0
      | Some stop \<Rightarrow> (case slice bs offset stop of None \<Rightarrow> 0 | Some src \<Rightarrow> from_le_bytes src))"

definition map_read_u32 :: "bytes \<Rightarrow> usize \<Rightarrow> u32" where
  "map_read_u32 bs offset = read_le bs offset 4"

definition map_read_u64 :: "bytes \<Rightarrow> usize \<Rightarrow> u64" where
  "map_read_u64 bs offset = read_le bs offset 8"

definition read_region :: "bytes \<Rightarrow> usize \<Rightarrow> Region panics" where
  "read_region bs base_offset = do {
     o_type \<leftarrow> uadd base_offset OFF_TYPE;
     o_start \<leftarrow> uadd base_offset OFF_PHYSICAL_START;
     o_pages \<leftarrow> uadd base_offset OFF_NUMBER_OF_PAGES;
     Some \<lparr> region_kind = from_raw (map_read_u32 bs o_type), region_base = map_read_u64 bs o_start,
            region_pages = map_read_u64 bs o_pages \<rparr>
   }"

definition map_get :: "MemoryMap \<Rightarrow> usize \<Rightarrow> Region panics" where
  "map_get m i = read_region (map_bytes m) (saturating_mul i (map_stride m))"

fun check_ends :: "MemoryMap \<Rightarrow> usize list \<Rightarrow> (MapError + unit) panics" where
  "check_ends m [] = Some (Inr ())"
| "check_ends m (i # is) = do {
     region \<leftarrow> map_get m i;
     case region_end region of
       None \<Rightarrow> Some (Inl (AddressOverflow i))
     | Some _ \<Rightarrow> check_ends m is
   }"

definition from_bytes :: "bytes \<Rightarrow> u64 \<Rightarrow> u32 \<Rightarrow> u32 \<Rightarrow> (MapError + MemoryMap) panics" where
  "from_bytes bs entries stride version =
     (if entries = 0 then Some (Inl Empty)
      else if stride < DESCRIPTOR_MIN_SIZE then Some (Inl (StrideTooSmall stride))
      else case buffer_len entries stride of
        None \<Rightarrow> Some (Inl (TooLarge entries stride))
      | Some needed \<Rightarrow>
          if length bs < needed then Some (Inl (TooShort needed (length bs)))
          else do {
            prefix \<leftarrow> slice bs 0 needed;
            let n = needed div stride;
            let m = \<lparr> map_bytes = prefix, map_entries = n, map_stride = stride, map_version = version \<rparr>;
            r \<leftarrow> check_ends m [0..<n];
            case r of Inl e \<Rightarrow> Some (Inl e) | Inr _ \<Rightarrow> Some (Inr m)
          })"

definition map_is_empty :: "MemoryMap \<Rightarrow> bool" where
  "map_is_empty m = (map_entries m = 0)"

section \<open>Iteration\<close>

record Regions =
  it_bytes :: bytes
  it_entries :: usize
  it_stride :: usize
  it_index :: usize

definition map_iter :: "MemoryMap \<Rightarrow> Regions" where
  "map_iter m = \<lparr> it_bytes = map_bytes m, it_entries = map_entries m, it_stride = map_stride m, it_index = 0 \<rparr>"

definition regions_next :: "Regions \<Rightarrow> (Region option \<times> Regions) panics" where
  "regions_next it =
     (if it_index it \<ge> it_entries it then Some (None, it)
      else do {
        base_offset \<leftarrow> umul (it_index it) (it_stride it);
        i \<leftarrow> uadd (it_index it) 1;
        r \<leftarrow> read_region (it_bytes it) base_offset;
        Some (Some r, it\<lparr>it_index := i\<rparr>)
      })"

definition size_hint :: "Regions \<Rightarrow> (usize \<times> usize option) panics" where
  "size_hint it = do { remaining \<leftarrow> usub (it_entries it) (it_index it); Some (remaining, Some remaining) }"

text \<open>The items a \<open>for\<close> loop over the iterator visits.\<close>

lemma regions_next_decreases:
  "regions_next it = Some (Some r, it') \<Longrightarrow>
     it_entries it' - it_index it' < it_entries it - it_index it"
  by (auto simp: regions_next_def run_simps split: if_splits)

function collect_regions :: "Regions \<Rightarrow> Region list panics" where
  "collect_regions it = do {
     (r, it') \<leftarrow> regions_next it;
     case r of
       None \<Rightarrow> Some []
     | Some x \<Rightarrow> do { xs \<leftarrow> collect_regions it'; Some (x # xs) }
   }"
  by pat_completeness auto

termination
  by (relation "measure (\<lambda>it. it_entries it - it_index it)") (auto intro: regions_next_decreases)

declare collect_regions.simps [simp del]

definition map_regions :: "MemoryMap \<Rightarrow> Region list panics" where
  "map_regions m = collect_regions (map_iter m)"

fun ram_top_loop :: "Region list \<Rightarrow> u64 option \<Rightarrow> u64 option panics" where
  "ram_top_loop [] t = Some t"
| "ram_top_loop (r # rs) t =
     (if \<not> is_ram (region_kind r) then ram_top_loop rs t
      else do {
        e \<leftarrow> region_end r;
        ram_top_loop rs (Some (case t of Some current \<Rightarrow> if current \<ge> e then current else e | None \<Rightarrow> e))
      })"

definition ram_top :: "MemoryMap \<Rightarrow> u64 option panics" where
  "ram_top m = do { rs \<leftarrow> map_regions m; ram_top_loop rs None }"

section \<open>What a well-formed map denotes\<close>

definition region_at :: "bytes \<Rightarrow> nat \<Rightarrow> Region" where
  "region_at bs off = \<lparr> region_kind = from_raw (from_le_bytes (sub bs off 4)),
     region_base = from_le_bytes (sub bs (off + 8) 8), region_pages = from_le_bytes (sub bs (off + 24) 8) \<rparr>"

definition region_stop :: "Region \<Rightarrow> nat" where
  "region_stop r = region_base r + region_pages r * PAGE_SIZE"

definition regions_of :: "MemoryMap \<Rightarrow> Region list" where
  "regions_of m = map (\<lambda>i. region_at (map_bytes m) (i * map_stride m)) [0..<map_entries m]"

definition map_shape :: "MemoryMap \<Rightarrow> bool" where
  "map_shape m \<longleftrightarrow> DESCRIPTOR_MIN_SIZE \<le> map_stride m \<and> length (map_bytes m) = map_entries m * map_stride m \<and>
     length (map_bytes m) \<le> U64_MAX"

definition map_wf :: "MemoryMap \<Rightarrow> bool" where
  "map_wf m \<longleftrightarrow> map_shape m \<and> 0 < map_entries m \<and> (\<forall>r \<in> set (regions_of m). region_stop r \<le> U64_MAX)"

lemma region_end_eq: "region_end r = (if region_stop r \<le> U64_MAX then Some (region_stop r) else None)"
  by (auto simp: region_end_def region_stop_def uadd_def umul_def)

lemma overlaps_eq: "region_stop r \<le> U64_MAX \<Longrightarrow> overlaps r a b = Some (region_base r < b \<and> a < region_stop r)"
  by (simp add: overlaps_def region_end_eq)

lemma read_le_inside: "off + n \<le> length bs \<Longrightarrow> length bs \<le> U64_MAX \<Longrightarrow>
    read_le bs off n = from_le_bytes (sub bs off n)"
  by (simp add: read_le_def uadd_def slice_def)

lemma read_region_inside: "off + 40 \<le> length bs \<Longrightarrow> length bs \<le> U64_MAX \<Longrightarrow>
    read_region bs off = Some (region_at bs off)"
  by (simp add: read_region_def region_at_def uadd_def map_read_u32_def map_read_u64_def read_le_inside
      OFF_TYPE_def OFF_PHYSICAL_START_def OFF_NUMBER_OF_PAGES_def)

lemma descriptor_inside:
  assumes "map_shape m" "i < map_entries m"
  shows "i * map_stride m + 40 \<le> length (map_bytes m)" "i * map_stride m \<le> U64_MAX" "i + 1 \<le> U64_MAX"
proof -
  have "i * map_stride m + map_stride m \<le> map_entries m * map_stride m"
    using assms(2) mult_le_mono1 [of "Suc i" "map_entries m" "map_stride m"] by simp
  moreover have "i \<le> i * map_stride m"
    using assms(1) by (simp add: map_shape_def DESCRIPTOR_MIN_SIZE_def)
  ultimately show "i * map_stride m + 40 \<le> length (map_bytes m)" "i * map_stride m \<le> U64_MAX" "i + 1 \<le> U64_MAX"
    using assms(1) unfolding map_shape_def DESCRIPTOR_MIN_SIZE_def by linarith+
qed

lemma map_get_inside:
  assumes "map_shape m" "i < map_entries m"
  shows "map_get m i = Some (regions_of m ! i)"
  using descriptor_inside [OF assms] assms
  by (simp add: map_get_def saturating_mul_def min_def read_region_inside regions_of_def map_shape_def)

lemma check_ends_eq:
  assumes "map_shape m" "\<forall>i \<in> set is. i < map_entries m"
  shows "check_ends m is = Some
    (case filter (\<lambda>i. \<not> region_stop (regions_of m ! i) \<le> U64_MAX) is of [] \<Rightarrow> Inr () | i # _ \<Rightarrow> Inl (AddressOverflow i))"
  using assms(2)
proof (induction "is")
  case Nil
  then show ?case by simp
next
  case (Cons i "is")
  then show ?case using map_get_inside [OF assms(1), of i] by (simp add: region_end_eq)
qed

lemma collect_from:
  assumes "map_shape m" "n \<le> map_entries m"
  shows "collect_regions \<lparr> it_bytes = map_bytes m, it_entries = map_entries m, it_stride = map_stride m, it_index = n \<rparr>
    = Some (drop n (regions_of m))"
  using assms(2)
proof (induction n rule: inc_induct)
  case base
  then show ?case by (subst collect_regions.simps) (simp add: regions_next_def regions_of_def)
next
  case (step n)
  have n: "n < length (regions_of m)" "n * map_stride m + 40 \<le> length (map_bytes m)"
    using step.hyps descriptor_inside [OF assms(1), of n] by (simp_all add: regions_of_def)
  have "regions_of m ! n = region_at (map_bytes m) (n * map_stride m)"
    using n(1) by (simp add: regions_of_def)
  then show ?case
    using step descriptor_inside [OF assms(1), of n] assms(1)
    by (subst collect_regions.simps)
      (simp add: regions_next_def umul_def uadd_def read_region_inside map_shape_def Cons_nth_drop_Suc [OF n(1), symmetric])
qed

lemma map_regions_eq: "map_shape m \<Longrightarrow> map_regions m = Some (regions_of m)"
  by (simp add: map_regions_def map_iter_def collect_from)

lemma length_regions_of [simp]: "length (regions_of m) = map_entries m"
  by (simp add: regions_of_def)

lemma from_bytes_shape:
  assumes "DESCRIPTOR_MIN_SIZE \<le> stride" "0 < entries" "entries * stride \<le> length bs" "length bs \<le> U64_MAX"
  shows "from_bytes bs entries stride version =
    (let m = \<lparr> map_bytes = sub bs 0 (entries * stride), map_entries = entries, map_stride = stride, map_version = version \<rparr>
     in Some (case filter (\<lambda>i. \<not> region_stop (regions_of m ! i) \<le> U64_MAX) [0..<entries] of
          [] \<Rightarrow> Inr m | i # _ \<Rightarrow> Inl (AddressOverflow i)))"
proof -
  let ?m = "\<lparr> map_bytes = sub bs 0 (entries * stride), map_entries = entries, map_stride = stride,
      map_version = version \<rparr>"
  have "map_shape ?m" using assms by (simp add: map_shape_def min_def)
  then have "check_ends ?m [0..<entries] = Some
      (case filter (\<lambda>i. \<not> region_stop (regions_of ?m ! i) \<le> U64_MAX) [0..<entries] of
         [] \<Rightarrow> Inr () | i # _ \<Rightarrow> Inl (AddressOverflow i))"
    by (subst check_ends_eq) simp_all
  moreover have "entries * stride div stride = entries"
    using assms(1) by (simp add: DESCRIPTOR_MIN_SIZE_def)
  ultimately show ?thesis
    using assms by (auto simp: from_bytes_def buffer_len_def umul_def slice_def Let_def split: list.split)
qed

lemma from_bytes_wf:
  assumes "from_bytes bs entries stride version = Some (Inr m)" "length bs \<le> U64_MAX"
  shows "map_wf m" "map_entries m = entries" "map_stride m = stride" "map_version m = version"
    "map_bytes m = sub bs 0 (entries * stride)"
proof -
  have pre: "DESCRIPTOR_MIN_SIZE \<le> stride" "0 < entries" "entries * stride \<le> length bs"
    using assms by (auto simp: from_bytes_def buffer_len_def umul_def split: if_splits)
  define m' where "m' = \<lparr> map_bytes = sub bs 0 (entries * stride), map_entries = entries, map_stride = stride,
      map_version = version \<rparr>"
  have m: "m = m'" and ok: "filter (\<lambda>i. \<not> region_stop (regions_of m' ! i) \<le> U64_MAX) [0..<entries] = []"
    using assms(1) from_bytes_shape [OF pre assms(2), of version]
    by (auto simp: Let_def m'_def split: list.splits)
  have "map_shape m'" "map_entries m' = entries"
    using pre assms(2) by (simp_all add: map_shape_def min_def m'_def)
  then show "map_wf m"
    using ok pre(2) unfolding m by (auto simp: map_wf_def filter_empty_conv in_set_conv_nth)
  show "map_entries m = entries" "map_stride m = stride" "map_version m = version"
    "map_bytes m = sub bs 0 (entries * stride)"
    unfolding m by (simp_all add: m'_def)
qed

lemma map_wf_shape: "map_wf m \<Longrightarrow> map_shape m"
  by (simp add: map_wf_def)

lemma map_wf_regions: "map_wf m \<Longrightarrow> map_regions m = Some (regions_of m)"
  by (simp add: map_wf_def map_regions_eq)

lemma map_wf_stop: "map_wf m \<Longrightarrow> r \<in> set (regions_of m) \<Longrightarrow> region_stop r \<le> U64_MAX"
  by (simp add: map_wf_def)

lemma Max_insert_if:
  fixes c e :: nat
  shows "finite R \<Longrightarrow> Max (insert (if e \<le> c then c else e) R) = Max (insert c (insert e R))"
  by (cases "R = {}") (auto simp: max_def)

lemma ram_top_loop_eq:
  assumes "\<forall>r \<in> set rs. region_stop r \<le> U64_MAX"
  shows "ram_top_loop rs t = Some (let E = set_option t \<union> region_stop ` {r \<in> set rs. is_ram (region_kind r)} in
     if E = {} then None else Some (Max E))"
  using assms
proof (induction rs arbitrary: t)
  case Nil
  then show ?case by (cases t) auto
next
  case (Cons r rs)
  show ?case
  proof (cases "is_ram (region_kind r)")
    case True
    let ?R = "region_stop ` {r \<in> set rs. is_ram (region_kind r)}"
    let ?e = "region_stop r"
    let ?t = "case t of None \<Rightarrow> ?e | Some c \<Rightarrow> if ?e \<le> c then c else ?e"
    have "Max (insert ?t ?R) = Max (set_option t \<union> insert ?e ?R)"
      by (cases t) (simp_all add: Max_insert_if del: Max_insert, simp only: insert_commute)
    moreover have "region_stop ` {x \<in> set (r # rs). is_ram (region_kind x)} = insert ?e ?R"
      using True by auto
    ultimately show ?thesis
      using Cons True by (simp add: region_end_eq)
  next
    case False
    then have "{x \<in> set (r # rs). is_ram (region_kind x)} = {x \<in> set rs. is_ram (region_kind x)}"
      by auto
    then show ?thesis using Cons False by simp
  qed
qed

section \<open>Encoding\<close>

text \<open>
  The descriptor format of the UEFI specification, with a stride that may exceed the 40 bytes of
  the standard descriptor: type, padding, physical start, virtual start, page count, attributes
  and \<open>stride - 40\<close> bytes of vendor data.
\<close>

definition encode_descriptor :: "nat \<Rightarrow> Region \<Rightarrow> bytes" where
  "encode_descriptor stride r = to_le_bytes 4 (kind_raw (region_kind r)) @ replicate 4 0 @
     to_le_bytes 8 (region_base r) @ replicate 8 0 @ to_le_bytes 8 (region_pages r) @ replicate 8 0 @
     replicate (stride - 40) 0"

definition region_valid :: "Region \<Rightarrow> bool" where
  "region_valid r \<longleftrightarrow> from_raw (kind_raw (region_kind r)) = region_kind r \<and>
     kind_raw (region_kind r) \<le> U32_MAX \<and> region_stop r \<le> U64_MAX"

lemma from_raw_raw_iff: "from_raw (kind_raw k) = k \<longleftrightarrow> (\<forall>n. k = Unknown n \<longrightarrow> 15 < n)"
  by (cases k) (auto simp: from_raw_def, presburger)

lemma kind_raw_from_raw: "kind_raw (from_raw n) = n"
  by (simp add: from_raw_def)

lemma length_encode_descriptor: "40 \<le> stride \<Longrightarrow> length (encode_descriptor stride r) = stride"
  by (simp add: encode_descriptor_def)

lemma sub_append_right: "a = length xs \<Longrightarrow> sub (xs @ ys) (a + k) n = sub ys k n"
  by (simp add: sub_def)

lemma sub_append_left: "k + n \<le> length xs \<Longrightarrow> sub (xs @ ys) k n = sub xs k n"
  by (simp add: sub_def)

lemma sub_take_all: "n = length xs \<Longrightarrow> sub (xs @ ys) 0 n = xs"
  by (simp add: sub_def)

lemma region_at_encode:
  assumes "region_valid r"
  shows "region_at (encode_descriptor stride r @ tail) 0 = r"
proof -
  have "region_base r \<le> U64_MAX" "region_pages r \<le> U64_MAX"
    using assms by (auto simp: region_valid_def region_stop_def PAGE_SIZE_def)
  moreover have "sub (encode_descriptor stride r @ tail) 0 4 = to_le_bytes 4 (kind_raw (region_kind r))"
    by (simp add: encode_descriptor_def sub_take_all)
  moreover have "sub (encode_descriptor stride r @ tail) 8 8 = to_le_bytes 8 (region_base r)"
    by (simp add: encode_descriptor_def sub_def)
  moreover have "sub (encode_descriptor stride r @ tail) 24 8 = to_le_bytes 8 (region_pages r)"
    by (simp add: encode_descriptor_def sub_def)
  ultimately show ?thesis
    using assms by (simp add: region_at_def region_valid_def from_to_le_bytes_u32 from_to_le_bytes_u64)
qed

lemma region_at_append: "length xs = n \<Longrightarrow> region_at (xs @ ys) (n + k) = region_at ys k"
  by (simp add: region_at_def sub_def add.assoc)

lemma regions_of_encoded:
  assumes "40 \<le> stride" "\<forall>r \<in> set rs. region_valid r" "i < length rs"
  shows "region_at (concat (map (encode_descriptor stride) rs) @ tail) (i * stride) = rs ! i"
  using assms(2,3)
proof (induction rs arbitrary: i)
  case Nil
  then show ?case by simp
next
  case (Cons r rs)
  show ?case
  proof (cases i)
    case 0
    then show ?thesis using Cons region_at_encode [of r stride] by simp
  next
    case (Suc j)
    then show ?thesis
      using Cons region_at_append [OF length_encode_descriptor [OF assms(1)]] by simp
  qed
qed

lemma length_encoded: "40 \<le> stride \<Longrightarrow>
    length (concat (map (encode_descriptor stride) rs)) = length rs * stride"
  by (induction rs) (simp_all add: length_encode_descriptor)

section \<open>The interface the clients of the map use\<close>

text \<open>
  The frame allocator and the page-table builder only iterate over a map and ask for the ends of
  its regions.  What they rely on: iteration yields the denoted regions, and no end overflows.
\<close>

locale region_source =
  fixes wf :: "'m \<Rightarrow> bool"
    and items :: "'m \<Rightarrow> Region list panics"
    and denotes :: "'m \<Rightarrow> Region list"
  assumes items_eq: "wf m \<Longrightarrow> items m = Some (denotes m)"
    and stop_bound: "wf m \<Longrightarrow> r \<in> set (denotes m) \<Longrightarrow> region_stop r \<le> U64_MAX"
begin

lemma end_total: "wf m \<Longrightarrow> r \<in> set (denotes m) \<Longrightarrow> region_end r = Some (region_stop r)"
  by (simp add: region_end_eq stop_bound)

lemma overlaps_total: "wf m \<Longrightarrow> r \<in> set (denotes m) \<Longrightarrow>
    overlaps r a b = Some (region_base r < b \<and> a < region_stop r)"
  by (simp add: overlaps_eq stop_bound)

lemma highest_end:
  assumes "wf m"
  shows "do { rs \<leftarrow> items m; ram_top_loop rs None } =
    Some (let E = region_stop ` {r \<in> set (denotes m). is_ram (region_kind r)} in
          if E = {} then None else Some (Max E))"
  using ram_top_loop_eq [of "denotes m" None] stop_bound [OF assms] items_eq [OF assms] by simp

end

interpretation mm: region_source map_wf map_regions regions_of
  by unfold_locales (simp_all add: map_wf_regions map_wf_stop)

section \<open>Properties\<close>

text \<open>
  C5. \<open>MemoryMap::from_bytes\<close> never panics and classifies every input: no entries, a stride below
  the standard descriptor, a size that overflows, a buffer that is too short, the first descriptor
  whose end address overflows; otherwise it returns the map of exactly the given entries, and in
  that map no region end overflows.
\<close>

theorem from_bytes_classifies:
  assumes "length bs \<le> U64_MAX"
  shows "\<exists>r. from_bytes bs entries stride version = Some r \<and>
    (case r of
       Inl Empty \<Rightarrow> entries = 0
     | Inl (StrideTooSmall n) \<Rightarrow> 0 < entries \<and> n = stride \<and> stride < 40
     | Inl (TooLarge e n) \<Rightarrow> 0 < entries \<and> e = entries \<and> n = stride \<and> 40 \<le> stride \<and> U64_MAX < entries * stride
     | Inl (TooShort needed got) \<Rightarrow> 0 < entries \<and> 40 \<le> stride \<and> needed = entries * stride \<and>
         got = length bs \<and> got < needed \<and> needed \<le> U64_MAX
     | Inl (AddressOverflow i) \<Rightarrow> i < entries \<and> 40 \<le> stride \<and> entries * stride \<le> length bs \<and>
         U64_MAX < region_stop (region_at bs (i * stride)) \<and>
         (\<forall>j < i. region_stop (region_at bs (j * stride)) \<le> U64_MAX)
     | Inr m \<Rightarrow> 0 < entries \<and> 40 \<le> stride \<and> entries * stride \<le> length bs \<and> map_wf m \<and> map_version m = version \<and>
         regions_of m = map (\<lambda>i. region_at bs (i * stride)) [0..<entries])"
proof (cases "entries = 0 \<or> stride < 40 \<or> length bs < entries * stride")
  case True
  then show ?thesis
    using assms by (auto simp: from_bytes_def buffer_len_def umul_def DESCRIPTOR_MIN_SIZE_def)
next
  case False
  then have pre: "DESCRIPTOR_MIN_SIZE \<le> stride" "0 < entries" "entries * stride \<le> length bs"
    by (auto simp: DESCRIPTOR_MIN_SIZE_def)
  define m where "m = \<lparr> map_bytes = sub bs 0 (entries * stride), map_entries = entries, map_stride = stride,
      map_version = version \<rparr>"
  have shape: "map_shape m" "map_entries m = entries" "map_stride m = stride"
    using pre assms by (simp_all add: map_shape_def min_def m_def)
  have at: "regions_of m ! i = region_at bs (i * stride)" if "i < entries" for i
    using descriptor_inside(1) [OF shape(1), of i] that shape pre
    by (simp add: regions_of_def m_def region_at_def sub_sub)
  then have all: "regions_of m = map (\<lambda>i. region_at bs (i * stride)) [0..<entries]"
    using shape(2) by (intro nth_equalityI) auto
  show ?thesis
  proof (cases "filter (\<lambda>i. \<not> region_stop (regions_of m ! i) \<le> U64_MAX) [0..<entries]")
    case Nil
    then have run: "from_bytes bs entries stride version = Some (Inr m)"
      using from_bytes_shape [OF pre assms, of version] by (simp add: Let_def m_def)
    then show ?thesis
      using from_bytes_wf [OF run assms] pre all by (simp add: DESCRIPTOR_MIN_SIZE_def)
  next
    case (Cons i js)
    then have "from_bytes bs entries stride version = Some (Inl (AddressOverflow i))"
      using from_bytes_shape [OF pre assms, of version] by (simp add: Let_def m_def)
    moreover have "i < entries" "U64_MAX < region_stop (regions_of m ! i)"
      "\<forall>j < i. region_stop (regions_of m ! j) \<le> U64_MAX"
      using filter_upt_first [OF Cons] by auto
    ultimately show ?thesis
      using pre at by (simp add: DESCRIPTOR_MIN_SIZE_def)
  qed
qed

text \<open>A map of two descriptors with a stride of 48 bytes: 16 MiB of RAM at 1 MiB, and MMIO.\<close>

definition sample_regions :: "Region list" where
  "sample_regions = [\<lparr> region_kind = Conventional, region_base = 1048576, region_pages = 4096 \<rparr>,
     \<lparr> region_kind = Mmio, region_base = 4273995776, region_pages = 16 \<rparr>]"

definition sample_bytes :: bytes where
  "sample_bytes = concat (map (encode_descriptor 48) sample_regions)"

definition sample_map :: MemoryMap where
  "sample_map = \<lparr> map_bytes = sample_bytes, map_entries = 2, map_stride = 48, map_version = 1 \<rparr>"

lemma sample_regions_of: "regions_of sample_map = sample_regions"
  by code_simp

lemma sample_map_wf: "map_wf sample_map"
proof -
  have "map_shape sample_map" by code_simp
  then show ?thesis
    by (simp add: map_wf_def sample_regions_of)
      (simp add: sample_regions_def sample_map_def region_stop_def rust_consts)
qed

theorem from_bytes_classifies_witness:
  "length sample_bytes \<le> U64_MAX \<and> (\<exists>m. from_bytes sample_bytes 2 48 1 = Some (Inr m) \<and>
     regions_of m = map (\<lambda>i. region_at sample_bytes (i * 48)) [0..<2])"
proof -
  have len: "length sample_bytes = 96"
    by (simp add: sample_bytes_def length_encoded) (simp add: sample_regions_def)
  have "map_option (\<lambda>r. case r of Inl _ \<Rightarrow> False | Inr _ \<Rightarrow> True) (from_bytes sample_bytes 2 48 1) = Some True"
    by code_simp
  then obtain m where "from_bytes sample_bytes 2 48 1 = Some (Inr m)"
    by (cases "from_bytes sample_bytes 2 48 1") (auto split: sum.splits)
  then show ?thesis
    using from_bytes_classifies [of sample_bytes 2 48 1] len by (auto simp: rust_consts)
qed

text \<open>
  C6. Parsing inverts encoding: a list of regions written as UEFI descriptors with any stride of at
  least 40 bytes, followed by anything, parses to a map whose iteration yields exactly these
  regions, and \<open>get(i)\<close> the \<open>i\<close>-th of them.
\<close>

theorem parse_encoded_map:
  assumes "40 \<le> stride" "rs \<noteq> []" "\<forall>r \<in> set rs. region_valid r"
    and "length rs * stride + length tail \<le> U64_MAX"
  shows "\<exists>m. from_bytes (concat (map (encode_descriptor stride) rs) @ tail) (length rs) stride version = Some (Inr m) \<and>
    map_regions m = Some rs \<and> (\<forall>i < length rs. map_get m i = Some (rs ! i))"
proof -
  let ?e = "concat (map (encode_descriptor stride) rs)"
  define m where "m = \<lparr> map_bytes = ?e, map_entries = length rs, map_stride = stride, map_version = version \<rparr>"
  have len: "length ?e = length rs * stride" by (rule length_encoded [OF assms(1)])
  have shape: "map_shape m" "map_entries m = length rs"
    using assms len by (simp_all add: map_shape_def m_def DESCRIPTOR_MIN_SIZE_def)
  have rs: "regions_of m = rs"
    using regions_of_encoded [OF assms(1,3), where tail = "[]"]
    by (intro nth_equalityI) (simp_all add: regions_of_def m_def)
  have "filter (\<lambda>i. \<not> region_stop (regions_of m ! i) \<le> U64_MAX) [0..<length rs] = []"
    using assms(3) by (auto simp: rs filter_empty_conv region_valid_def)
  moreover have "sub (?e @ tail) 0 (length rs * stride) = ?e"
    by (simp add: sub_def len)
  ultimately have "from_bytes (?e @ tail) (length rs) stride version = Some (Inr m)"
    using from_bytes_shape [of stride "length rs" "?e @ tail" version] assms(1,2,4) len
    by (simp add: Let_def m_def DESCRIPTOR_MIN_SIZE_def)
  then show ?thesis
    using map_regions_eq [OF shape(1)] map_get_inside [OF shape(1)] shape(2) rs by auto
qed

theorem parse_encoded_map_witness:
  "\<exists>m. from_bytes (concat (map (encode_descriptor 48) sample_regions) @ [7, 7]) (length sample_regions) 48 1 = Some (Inr m) \<and>
     map_regions m = Some sample_regions"
  using parse_encoded_map [of 48 sample_regions "[7, 7]" 1]
  by (auto simp: sample_regions_def region_valid_def region_stop_def from_raw_def rust_consts)

text \<open>
  On a map that parsed, \<open>ram_top\<close> returns the largest end address of its RAM regions, and
  \<open>None\<close> exactly when it has none; it does not panic.
\<close>

theorem ram_top_is_max:
  assumes "from_bytes bs entries stride version = Some (Inr m)" "length bs \<le> U64_MAX"
  shows "\<exists>t. ram_top m = Some t \<and>
    (case t of
       None \<Rightarrow> (\<forall>r \<in> set (regions_of m). \<not> is_ram (region_kind r))
     | Some a \<Rightarrow> (\<exists>r \<in> set (regions_of m). is_ram (region_kind r) \<and> region_stop r = a) \<and>
         (\<forall>r \<in> set (regions_of m). is_ram (region_kind r) \<longrightarrow> region_stop r \<le> a))"
proof -
  let ?E = "region_stop ` {r \<in> set (regions_of m). is_ram (region_kind r)}"
  have "map_wf m" using from_bytes_wf assms by blast
  then have top: "ram_top m = Some (if ?E = {} then None else Some (Max ?E))"
    using mm.highest_end [of m] by (simp add: ram_top_def Let_def)
  show ?thesis
  proof (cases "?E = {}")
    case True
    then show ?thesis using top by auto
  next
    case False
    then have "Max ?E \<in> ?E" by (intro Max_in) auto
    then obtain r where "r \<in> set (regions_of m)" "is_ram (region_kind r)" "region_stop r = Max ?E"
      by auto
    moreover have "region_stop r \<le> Max ?E" if "r \<in> set (regions_of m)" "is_ram (region_kind r)" for r
      using that by (intro Max_ge) auto
    ultimately show ?thesis using top False by (auto intro: bexI [of _ r])
  qed
qed

theorem ram_top_is_max_witness:
  "\<exists>m. from_bytes sample_bytes 2 48 1 = Some (Inr m) \<and> ram_top m = Some (Some 17825792)"
proof -
  have v: "map_option (\<lambda>r. case r of Inl _ \<Rightarrow> None | Inr m \<Rightarrow> ram_top m) (from_bytes sample_bytes 2 48 1)
      = Some (Some (Some 17825792))"
    by code_simp
  then obtain m where m: "from_bytes sample_bytes 2 48 1 = Some (Inr m)" "ram_top m = Some (Some 17825792)"
    by (cases "from_bytes sample_bytes 2 48 1") (auto split: sum.splits)
  moreover have "length sample_bytes = 96"
    by (simp add: sample_bytes_def length_encoded) (simp add: sample_regions_def)
  ultimately show ?thesis
    using ram_top_is_max [OF m(1)] by (auto simp: rust_consts)
qed

text \<open>
  The doc of \<open>MemoryMap::get\<close> promises an empty region for an index out of range.  The offset
  saturates, but the additions of the field offsets do not: the largest index panics in a build
  with overflow checks (and wraps to the start of the table without them).
\<close>

lemma map_get_saturated_panics: "1 < map_stride m \<Longrightarrow> map_get m USIZE_MAX = None"
  by (simp add: map_get_def saturating_mul_def min_def read_region_def uadd_def rust_consts)

end
