(* ===== verification/Frame_Allocator.thy ===== *)
theory Frame_Allocator
  imports Memory_Map
begin

text \<open>
  The bitmap allocator of physical frames, \<^verbatim>\<open>src/crates/kernel-memory/src/frame.rs\<close>.

  Two bitmaps say which managed frames may be handed out and which of these are in use.  The
  abstraction is the set \<open>free_set\<close> of the indices of the free frames; the invariant \<open>fa_inv\<close> ties the
  counter \<open>free_frames\<close> to it and keeps every allocatable frame clear of the reserved ranges.
\<close>

section \<open>Data\<close>

unbundle bit_operations_syntax

definition MIN_FREE_ADDR :: u64 where [rust_consts]: "MIN_FREE_ADDR = 1024 * 1024"
definition MAX_RESERVED_RANGES :: usize where [rust_consts]: "MAX_RESERVED_RANGES = 8"

record PhysFrame =
  frame_address :: u64

record PhysRange =
  range_start :: u64
  range_len :: u64

definition range_end :: "PhysRange \<Rightarrow> u64 panics" where
  "range_end r = uadd (range_start r) (range_len r)"

definition range_frames :: "PhysRange \<Rightarrow> u64" where
  "range_frames r = range_len r div PAGE_SIZE"

definition range_contains :: "PhysRange \<Rightarrow> u64 \<Rightarrow> bool panics" where
  "range_contains r a = (if range_start r \<le> a then do { e \<leftarrow> range_end r; Some (a < e) } else Some False)"

record ReservedRange =
  rsv_start :: u64
  rsv_end :: u64

definition rsv_overlaps :: "ReservedRange \<Rightarrow> u64 \<Rightarrow> u64 \<Rightarrow> bool" where
  "rsv_overlaps r start stop = (rsv_start r < stop \<and> start < rsv_end r)"

definition rsv_is_empty :: "ReservedRange \<Rightarrow> bool" where
  "rsv_is_empty r = (rsv_end r \<le> rsv_start r)"

record Config =
  managed_start :: u64
  config_limit :: u64

definition config_new :: "u64 \<Rightarrow> Config" where
  "config_new l = \<lparr> managed_start = MIN_FREE_ADDR, config_limit = l \<rparr>"

record FrameStats =
  stat_managed :: u64
  stat_free :: u64

datatype FrameInitError = BitmapTooSmall usize usize | TooManyReservedRanges usize | EmptyRange u64 u64
  | NoUsableMemory

datatype FreeError = NotManaged u64 | AlreadyFree u64 | FrameReserved u64

record FrameAllocator =
  fa_allocatable :: bytes
  fa_used :: bytes
  fa_first_frame :: u64
  fa_frames :: u64
  fa_free_frames :: u64
  fa_reserved :: "ReservedRange list"
  fa_reserved_len :: usize

section \<open>Bits\<close>

definition bitmap_bytes :: "u64 \<Rightarrow> usize panics" where
  "bitmap_bytes n = umul 2 (div_ceil n 8)"

definition frame_bit :: "bytes \<Rightarrow> u64 \<Rightarrow> bool panics" where
  "frame_bit bs i = do { b \<leftarrow> index bs (i div 8); Some (b AND push_bit (i mod 8) 1 \<noteq> 0) }"

definition frame_set_bit :: "bytes \<Rightarrow> u64 \<Rightarrow> bool \<Rightarrow> bytes panics" where
  "frame_set_bit bs i value = (let m = push_bit (i mod 8) 1 in do {
     b \<leftarrow> index bs (i div 8);
     index_set bs (i div 8) (if value then b OR m else b AND NOT m)
   })"

section \<open>Queries\<close>

definition reserved_ranges :: "FrameAllocator \<Rightarrow> ReservedRange list panics" where
  "reserved_ranges fa = slice (fa_reserved fa) 0 (fa_reserved_len fa)"

definition frame_index :: "FrameAllocator \<Rightarrow> u64 \<Rightarrow> u64 option panics" where
  "frame_index fa a = (let frame = a div PAGE_SIZE in
     if \<not> is_multiple_of a PAGE_SIZE \<or> frame < fa_first_frame fa then Some None
     else do {
       stop \<leftarrow> uadd (fa_first_frame fa) (fa_frames fa);
       if frame \<ge> stop then Some None
       else do { i \<leftarrow> usub frame (fa_first_frame fa); Some (Some i) }
     })"

definition is_reserved :: "FrameAllocator \<Rightarrow> u64 \<Rightarrow> bool panics" where
  "is_reserved fa a = do {
     stop \<leftarrow> uadd a PAGE_SIZE;
     rs \<leftarrow> reserved_ranges fa;
     Some (list_ex (\<lambda>r. rsv_overlaps r a stop) rs)
   }"

definition is_allocatable :: "FrameAllocator \<Rightarrow> u64 \<Rightarrow> bool panics" where
  "is_allocatable fa i = frame_bit (fa_allocatable fa) i"

definition is_used :: "FrameAllocator \<Rightarrow> u64 \<Rightarrow> bool panics" where
  "is_used fa i = frame_bit (fa_used fa) i"

definition is_free :: "FrameAllocator \<Rightarrow> u64 \<Rightarrow> bool panics" where
  "is_free fa i = do {
     a \<leftarrow> is_allocatable fa i;
     if \<not> a then Some False else do { u \<leftarrow> is_used fa i; Some (\<not> u) }
   }"

definition frame_stats :: "FrameAllocator \<Rightarrow> FrameStats" where
  "frame_stats fa = \<lparr> stat_managed = fa_frames fa, stat_free = fa_free_frames fa \<rparr>"

fun first_free_loop :: "FrameAllocator \<Rightarrow> u64 list \<Rightarrow> PhysFrame option panics" where
  "first_free_loop fa [] = Some None"
| "first_free_loop fa (f # fs) = do {
     a \<leftarrow> umul f PAGE_SIZE;
     i \<leftarrow> frame_index fa a;
     found \<leftarrow> (case i of None \<Rightarrow> Some False | Some i \<Rightarrow> is_free fa i);
     if found then Some (Some \<lparr> frame_address = a \<rparr>) else first_free_loop fa fs
   }"

definition first_free_in :: "FrameAllocator \<Rightarrow> u64 \<Rightarrow> u64 \<Rightarrow> PhysFrame option panics" where
  "first_free_in fa start stop = first_free_loop fa [start div PAGE_SIZE..<div_ceil stop PAGE_SIZE]"

fun find_run_loop :: "FrameAllocator \<Rightarrow> u64 \<Rightarrow> u64 list \<Rightarrow> u64 \<Rightarrow> u64 \<Rightarrow> u64 option panics" where
  "find_run_loop fa count [] run_start run = Some None"
| "find_run_loop fa count (i # is) run_start run = do {
     free \<leftarrow> is_free fa i;
     if \<not> free then find_run_loop fa count is run_start 0
     else do {
       let run_start = (if run = 0 then i else run_start);
       run \<leftarrow> uadd run 1;
       if run = count then Some (Some run_start) else find_run_loop fa count is run_start run
     }
   }"

definition find_free_run :: "FrameAllocator \<Rightarrow> u64 \<Rightarrow> u64 option panics" where
  "find_free_run fa count =
     (if count = 0 \<or> count > fa_frames fa then Some None
      else find_run_loop fa count [0..<fa_frames fa] 0 0)"

section \<open>Operations\<close>

definition mark_available :: "FrameAllocator \<Rightarrow> u64 \<Rightarrow> FrameAllocator panics" where
  "mark_available fa a = do {
     i \<leftarrow> frame_index fa a;
     case i of
       None \<Rightarrow> Some fa
     | Some i \<Rightarrow> do {
         al \<leftarrow> frame_set_bit (fa_allocatable fa) i True;
         us \<leftarrow> frame_set_bit (fa_used fa) i False;
         n \<leftarrow> uadd (fa_free_frames fa) 1;
         Some (fa\<lparr>fa_allocatable := al, fa_used := us, fa_free_frames := n\<rparr>)
       }
   }"

definition mark_used :: "FrameAllocator \<Rightarrow> u64 \<Rightarrow> FrameAllocator panics" where
  "mark_used fa i = do {
     us \<leftarrow> frame_set_bit (fa_used fa) i True;
     n \<leftarrow> usub (fa_free_frames fa) 1;
     Some (fa\<lparr>fa_used := us, fa_free_frames := n\<rparr>)
   }"

function mark_region :: "FrameAllocator \<Rightarrow> u64 \<Rightarrow> u64 \<Rightarrow> FrameAllocator panics" where
  "mark_region fa address stop =
     (if address < stop then do {
        r \<leftarrow> is_reserved fa address;
        fa' \<leftarrow> (if \<not> r then mark_available fa address else Some fa);
        address' \<leftarrow> uadd address PAGE_SIZE;
        mark_region fa' address' stop
      }
      else Some fa)"
  by pat_completeness auto

termination
  by (relation "measure (\<lambda>(fa, address, stop). stop - address)") (auto simp: panic_simps rust_consts)

declare mark_region.simps [simp del]

fun mark_regions :: "FrameAllocator \<Rightarrow> u64 \<Rightarrow> u64 \<Rightarrow> Region list \<Rightarrow> FrameAllocator panics" where
  "mark_regions fa lo hi [] = Some fa"
| "mark_regions fa lo hi (r # rs) =
     (if region_kind r \<noteq> Conventional then mark_regions fa lo hi rs
      else do {
        e \<leftarrow> region_end r;
        fa' \<leftarrow> mark_region fa (max (region_base r) lo) (min e hi);
        mark_regions fa' lo hi rs
      })"

definition frame_init :: "bytes \<Rightarrow> MemoryMap \<Rightarrow> ReservedRange list \<Rightarrow> Config \<Rightarrow>
    (FrameInitError + FrameAllocator) panics" where
  "frame_init bitmap m rsv config =
     (if length rsv > MAX_RESERVED_RANGES then Some (Inl (TooManyReservedRanges (length rsv)))
      else let first_frame = div_ceil (managed_start config) PAGE_SIZE;
               end_frame = config_limit config div PAGE_SIZE in
      if end_frame \<le> first_frame
      then Some (Inl (EmptyRange (managed_start config) (config_limit config)))
      else do {
        frames \<leftarrow> usub end_frame first_frame;
        let half = div_ceil frames 8;
        needed \<leftarrow> umul 2 half;
        if length bitmap < needed then Some (Inl (BitmapTooSmall needed (length bitmap)))
        else do {
          al \<leftarrow> copy_into (take half bitmap) 0 (replicate half 0);
          us \<leftarrow> copy_into (drop half bitmap) 0 (replicate half 255);
          slots \<leftarrow> copy_into (replicate MAX_RESERVED_RANGES \<lparr> rsv_start = 0, rsv_end = 0 \<rparr>) 0 rsv;
          let fa = \<lparr> fa_allocatable = al, fa_used = us, fa_first_frame = first_frame, fa_frames = frames,
                     fa_free_frames = 0, fa_reserved = slots, fa_reserved_len = length rsv \<rparr>;
          lo \<leftarrow> umul first_frame PAGE_SIZE;
          hi \<leftarrow> umul end_frame PAGE_SIZE;
          rs \<leftarrow> map_regions m;
          fa' \<leftarrow> mark_regions fa lo hi rs;
          if fa_free_frames fa' = 0 then Some (Inl NoUsableMemory) else Some (Inr fa')
        }
      })"

definition frame_alloc :: "FrameAllocator \<Rightarrow> (FrameAllocator \<times> PhysFrame option) panics" where
  "frame_alloc fa = do {
     found \<leftarrow> find_free_run fa 1;
     case found of
       None \<Rightarrow> Some (fa, None)
     | Some i \<Rightarrow> do {
         fa' \<leftarrow> mark_used fa i;
         f \<leftarrow> uadd (fa_first_frame fa') i;
         a \<leftarrow> umul f PAGE_SIZE;
         Some (fa', Some \<lparr> frame_address = a \<rparr>)
       }
   }"

fun mark_used_all :: "FrameAllocator \<Rightarrow> u64 list \<Rightarrow> FrameAllocator panics" where
  "mark_used_all fa [] = Some fa"
| "mark_used_all fa (i # is) = do { fa' \<leftarrow> mark_used fa i; mark_used_all fa' is }"

definition alloc_contiguous :: "FrameAllocator \<Rightarrow> usize \<Rightarrow> (FrameAllocator \<times> PhysRange option) panics" where
  "alloc_contiguous fa count =
     (if count = 0 then Some (fa, None)
      else do {
        found \<leftarrow> find_free_run fa count;
        case found of
          None \<Rightarrow> Some (fa, None)
        | Some start \<Rightarrow> do {
            stop \<leftarrow> uadd start count;
            fa' \<leftarrow> mark_used_all fa [start..<stop];
            f \<leftarrow> uadd (fa_first_frame fa') start;
            a \<leftarrow> umul f PAGE_SIZE;
            l \<leftarrow> umul count PAGE_SIZE;
            Some (fa', Some \<lparr> range_start = a, range_len = l \<rparr>)
          }
      })"

definition frame_free :: "FrameAllocator \<Rightarrow> PhysFrame \<Rightarrow> (FrameAllocator \<times> (FreeError + unit)) panics" where
  "frame_free fa f = do {
     found \<leftarrow> frame_index fa (frame_address f);
     case found of
       None \<Rightarrow> Some (fa, Inl (NotManaged (frame_address f)))
     | Some i \<Rightarrow> do {
         rsv \<leftarrow> is_reserved fa (frame_address f);
         if rsv then Some (fa, Inl (FrameReserved (frame_address f)))
         else do {
           al \<leftarrow> is_allocatable fa i;
           if \<not> al then Some (fa, Inl (NotManaged (frame_address f)))
           else do {
             us \<leftarrow> is_used fa i;
             if \<not> us then Some (fa, Inl (AlreadyFree (frame_address f)))
             else do {
               us' \<leftarrow> frame_set_bit (fa_used fa) i False;
               n \<leftarrow> uadd (fa_free_frames fa) 1;
               Some (fa\<lparr>fa_used := us', fa_free_frames := n\<rparr>, Inr ())
             }
           }
         }
       }
   }"

section \<open>Abstraction and invariant\<close>

definition bm :: "bytes \<Rightarrow> nat \<Rightarrow> bool" where
  "bm bs i = bit (bs ! (i div 8)) (i mod 8)"

definition free_at :: "FrameAllocator \<Rightarrow> nat \<Rightarrow> bool" where
  "free_at fa i \<longleftrightarrow> bm (fa_allocatable fa) i \<and> \<not> bm (fa_used fa) i"

definition free_set :: "FrameAllocator \<Rightarrow> nat set" where
  "free_set fa = {i. i < fa_frames fa \<and> free_at fa i}"

definition frame_addr :: "FrameAllocator \<Rightarrow> nat \<Rightarrow> nat" where
  "frame_addr fa i = (fa_first_frame fa + i) * PAGE_SIZE"

definition reserved_at :: "FrameAllocator \<Rightarrow> nat \<Rightarrow> bool" where
  "reserved_at fa a \<longleftrightarrow>
     list_ex (\<lambda>r. rsv_overlaps r a (a + PAGE_SIZE)) (take (fa_reserved_len fa) (fa_reserved fa))"

definition fa_shape :: "FrameAllocator \<Rightarrow> bool" where
  "fa_shape fa \<longleftrightarrow> fa_frames fa \<le> 8 * length (fa_allocatable fa) \<and> fa_frames fa \<le> 8 * length (fa_used fa) \<and>
     (fa_first_frame fa + fa_frames fa) * PAGE_SIZE \<le> U64_MAX \<and> fa_reserved_len fa \<le> length (fa_reserved fa)"

definition fa_inv :: "FrameAllocator \<Rightarrow> bool" where
  "fa_inv fa \<longleftrightarrow> fa_shape fa \<and> fa_free_frames fa = card (free_set fa) \<and>
     (\<forall>i < fa_frames fa. bm (fa_allocatable fa) i \<longrightarrow> \<not> reserved_at fa (frame_addr fa i))"

lemma finite_free_set [simp]: "finite (free_set fa)"
  by (simp add: free_set_def)

lemma frame_bit_eq: "i < 8 * length bs \<Longrightarrow> frame_bit bs i = Some (bm bs i)"
  by (simp add: frame_bit_def index_def bm_def bit_iff_and_push_bit_not_eq_0 less_mult_imp_div_less mult.commute)

lemma frame_set_bit_eq:
  assumes "i < 8 * length bs"
  shows "\<exists>bs'. frame_set_bit bs i v = Some bs' \<and> length bs' = length bs \<and>
    (\<forall>j. bm bs' j = (if j = i then v else bm bs j))"
proof -
  let ?k = "i div 8" and ?m = "push_bit (i mod 8) 1 :: u8"
  let ?b = "if v then bs ! ?k OR ?m else bs ! ?k AND NOT ?m"
  have k: "?k < length bs" using assms by (simp add: less_mult_imp_div_less mult.commute)
  have m: "bit ?m n \<longleftrightarrow> n = i mod 8" if "n < 8" for n
    using that by (auto simp: bit_simps)
  have "bm (bs[?k := ?b]) j = (if j = i then v else bm bs j)" for j
  proof (cases "j div 8 = ?k")
    case True
    have "j = i \<longleftrightarrow> j mod 8 = i mod 8"
      using True by (metis div_mult_mod_eq)
    then show ?thesis
      using k True m [of "j mod 8"] by (auto simp: bm_def bit_or_iff bit_and_iff bit_not_iff)
  next
    case False
    then show ?thesis by (auto simp: bm_def nth_list_update)
  qed
  then show ?thesis
    using k by (auto simp: frame_set_bit_def Let_def index_def index_set_def)
qed

lemma is_free_eq: "fa_shape fa \<Longrightarrow> i < fa_frames fa \<Longrightarrow> is_free fa i = Some (i \<in> free_set fa)"
  by (simp add: is_free_def is_allocatable_def is_used_def frame_bit_eq fa_shape_def free_set_def free_at_def)

lemma shape_addr:
  assumes "fa_shape fa" "i < fa_frames fa"
  shows "frame_addr fa i + PAGE_SIZE \<le> U64_MAX" "fa_first_frame fa + i \<le> U64_MAX"
    "fa_first_frame fa + fa_frames fa \<le> U64_MAX" "frame_addr fa i \<le> U64_MAX" "fa_frames fa \<le> U64_MAX"
proof -
  have "frame_addr fa i + PAGE_SIZE = (fa_first_frame fa + Suc i) * PAGE_SIZE"
    by (simp add: frame_addr_def)
  also have "\<dots> \<le> (fa_first_frame fa + fa_frames fa) * PAGE_SIZE"
    using assms(2) by (intro mult_le_mono1) simp
  finally show "frame_addr fa i + PAGE_SIZE \<le> U64_MAX" "frame_addr fa i \<le> U64_MAX"
    using assms(1) by (simp_all add: fa_shape_def)
  have "fa_first_frame fa + fa_frames fa \<le> (fa_first_frame fa + fa_frames fa) * PAGE_SIZE"
    by (simp add: PAGE_SIZE_def)
  then show "fa_first_frame fa + i \<le> U64_MAX" "fa_first_frame fa + fa_frames fa \<le> U64_MAX" "fa_frames fa \<le> U64_MAX"
    using assms unfolding fa_shape_def by linarith+
qed

lemma is_reserved_eq: "fa_shape fa \<Longrightarrow> a + PAGE_SIZE \<le> U64_MAX \<Longrightarrow> is_reserved fa a = Some (reserved_at fa a)"
  by (simp add: is_reserved_def reserved_ranges_def slice_def uadd_def fa_shape_def reserved_at_def sub_def)

lemma frame_index_eq:
  assumes "fa_shape fa"
  shows "frame_index fa a = Some (if \<exists>i < fa_frames fa. a = frame_addr fa i
     then Some (a div PAGE_SIZE - fa_first_frame fa) else None)"
proof -
  have sum: "fa_first_frame fa + fa_frames fa \<le> U64_MAX"
  proof -
    have "fa_first_frame fa + fa_frames fa \<le> (fa_first_frame fa + fa_frames fa) * PAGE_SIZE"
      by (simp add: PAGE_SIZE_def)
    then show ?thesis using assms unfolding fa_shape_def by linarith
  qed
  have ex: "(\<exists>i < fa_frames fa. a = frame_addr fa i) \<longleftrightarrow>
      a mod PAGE_SIZE = 0 \<and> fa_first_frame fa \<le> a div PAGE_SIZE \<and> a div PAGE_SIZE < fa_first_frame fa + fa_frames fa"
    (is "?l \<longleftrightarrow> ?r")
  proof
    assume ?r
    then have "a div PAGE_SIZE - fa_first_frame fa < fa_frames fa"
      "a = frame_addr fa (a div PAGE_SIZE - fa_first_frame fa)"
      by (auto simp: frame_addr_def)
    then show ?l by blast
  qed (auto simp: frame_addr_def PAGE_SIZE_def)
  show ?thesis
    using sum unfolding ex
    by (auto simp: frame_index_def Let_def is_multiple_of_def uadd_def usub_def)
qed

lemma frame_index_addr: "fa_shape fa \<Longrightarrow> i < fa_frames fa \<Longrightarrow> frame_index fa (frame_addr fa i) = Some (Some i)"
  by (auto simp: frame_index_eq) (auto simp: frame_addr_def PAGE_SIZE_def)

section \<open>The search for a run of free frames\<close>

text \<open>\<open>is_run F c s\<close>: the \<open>c\<close> indices from \<open>s\<close> are all in \<open>F\<close>.\<close>

definition is_run :: "nat set \<Rightarrow> nat \<Rightarrow> nat \<Rightarrow> bool" where
  "is_run F c s \<longleftrightarrow> {s..<s + c} \<subseteq> F"

definition first_run :: "nat set \<Rightarrow> nat \<Rightarrow> nat option \<Rightarrow> bool" where
  "first_run F c r \<longleftrightarrow> (case r of None \<Rightarrow> \<forall>s. \<not> is_run F c s | Some s \<Rightarrow> is_run F c s \<and> (\<forall>t < s. \<not> is_run F c t))"

lemma is_run_mem: "is_run F c s \<Longrightarrow> s \<le> j \<Longrightarrow> j < s + c \<Longrightarrow> j \<in> F"
  by (auto simp: is_run_def)

text \<open>
  The state of the search before index \<open>k\<close>: the last \<open>run\<close> indices are free, the one before them is
  not, and no run of \<open>c\<close> ends at or before \<open>k\<close>.
\<close>

definition scan_inv :: "nat set \<Rightarrow> nat \<Rightarrow> nat \<Rightarrow> nat \<Rightarrow> nat \<Rightarrow> bool" where
  "scan_inv F c k run_start run \<longleftrightarrow> run \<le> k \<and> run < c \<and> (0 < run \<longrightarrow> run_start = k - run) \<and>
     {k - run..<k} \<subseteq> F \<and> (k - run = 0 \<or> k - run - 1 \<notin> F) \<and> (\<forall>s. s + c \<le> k \<longrightarrow> \<not> is_run F c s)"

lemma scan_inv_skip:
  assumes inv: "scan_inv F c k rs run" and k: "k \<notin> F"
  shows "scan_inv F c (Suc k) rs' 0"
proof -
  have "\<not> is_run F c s" if "s + c \<le> Suc k" for s
    using inv that k is_run_mem [of F c s k] by (cases "s + c = Suc k") (auto simp: scan_inv_def)
  then show ?thesis using inv k by (auto simp: scan_inv_def)
qed

lemma scan_inv_least:
  assumes "scan_inv F c k rs run" "s < k - run"
  shows "\<not> is_run F c s"
proof (cases "s + c \<le> k")
  case True
  then show ?thesis using assms by (simp add: scan_inv_def)
next
  case False
  then have "s \<le> k - run - 1" "k - run - 1 < s + c" using assms by auto
  then show ?thesis
    using assms is_run_mem [of F c s "k - run - 1"] by (auto simp: scan_inv_def)
qed

lemma scan_inv_found:
  assumes inv: "scan_inv F c k rs run" and k: "k \<in> F" and full: "Suc run = c"
  shows "first_run F c (Some (k - run))"
proof -
  have "is_run F c (k - run)"
    using inv k full by (auto simp: scan_inv_def is_run_def less_Suc_eq)
  moreover have "\<not> is_run F c t" if "t < k - run" for t
    by (rule scan_inv_least [OF inv that])
  ultimately show ?thesis by (simp add: first_run_def)
qed

lemma scan_inv_extend:
  assumes inv: "scan_inv F c k rs run" and k: "k \<in> F" and more: "Suc run \<noteq> c"
  shows "scan_inv F c (Suc k) (k - run) (Suc run)"
proof -
  have "\<not> is_run F c s" if "s + c \<le> Suc k" for s
  proof (cases "s + c \<le> k")
    case True
    then show ?thesis using inv by (simp add: scan_inv_def)
  next
    case False
    have "run \<le> k" "run < c" using inv by (simp_all add: scan_inv_def)
    then have "s < k - run" using that more False by linarith
    then show ?thesis by (rule scan_inv_least [OF inv])
  qed
  then show ?thesis
    using inv k more by (auto simp: scan_inv_def less_Suc_eq)
qed

lemma run_within:
  assumes "is_run (free_set fa) c s" "0 < c"
  shows "s + c \<le> fa_frames fa"
proof -
  have "s \<le> s + c - 1" "s + c - 1 < s + c" using assms(2) by auto
  then have "s + c - 1 \<in> free_set fa" by (rule is_run_mem [OF assms(1)])
  then show ?thesis by (auto simp: free_set_def)
qed

lemma find_run_loop_eq:
  assumes "fa_shape fa" "k \<le> fa_frames fa" "scan_inv (free_set fa) c k rs run"
  shows "\<exists>r. find_run_loop fa c [k..<fa_frames fa] rs run = Some r \<and> first_run (free_set fa) c r"
  using assms(2,3)
proof (induction "fa_frames fa - k" arbitrary: k rs run)
  case 0
  then have k: "k = fa_frames fa" by simp
  have "\<not> is_run (free_set fa) c s" for s
  proof (cases "s + c \<le> k")
    case True
    then show ?thesis using 0 by (simp add: scan_inv_def)
  next
    case False
    have "0 < c" using 0 by (auto simp: scan_inv_def)
    then show ?thesis using False k run_within [of fa c s] by auto
  qed
  then show ?case using k by (simp add: first_run_def)
next
  case (Suc n)
  then have k: "k < fa_frames fa" "n = fa_frames fa - Suc k" "Suc k \<le> fa_frames fa" by auto
  have run: "run + 1 \<le> U64_MAX" "run = 0 \<Longrightarrow> k = k - run" "0 < run \<Longrightarrow> rs = k - run"
    using Suc.prems(2) k shape_addr(5) [OF assms(1) k(1)] by (auto simp: scan_inv_def)
  have step: "find_run_loop fa c [k..<fa_frames fa] rs run =
      (if k \<notin> free_set fa then find_run_loop fa c [Suc k..<fa_frames fa] rs 0
       else if Suc run = c then Some (Some (k - run))
       else find_run_loop fa c [Suc k..<fa_frames fa] (k - run) (Suc run))"
    using k run by (auto simp: upt_conv_Cons is_free_eq [OF assms(1)] uadd_def Let_def)
  show ?case
    using Suc.hyps(1) [OF k(2,3)] scan_inv_skip [OF Suc.prems(2)] scan_inv_found [OF Suc.prems(2)]
      scan_inv_extend [OF Suc.prems(2)] unfolding step by auto
qed

lemma find_free_run_eq:
  assumes "fa_shape fa" "0 < c"
  shows "\<exists>r. find_free_run fa c = Some r \<and> first_run (free_set fa) c r"
proof (cases "fa_frames fa < c")
  case True
  have "\<not> is_run (free_set fa) c s" for s
    using True run_within [of fa c s] by auto
  then show ?thesis using True by (simp add: find_free_run_def first_run_def)
next
  case False
  have "scan_inv (free_set fa) c 0 0 0" using assms(2) by (auto simp: scan_inv_def)
  then show ?thesis
    using find_run_loop_eq [OF assms(1), of 0 c] False assms(2) by (simp add: find_free_run_def)
qed

lemma first_run_single: "first_run F 1 r \<longleftrightarrow> (case r of None \<Rightarrow> F = {} | Some i \<Rightarrow> i \<in> F \<and> (\<forall>j < i. j \<notin> F))"
  by (auto simp: first_run_def is_run_def split: option.split)

section \<open>What every operation does\<close>

text \<open>The part of the allocator that marking a frame as used or free leaves alone.\<close>

definition fa_frame where
  "fa_frame fa = (fa_allocatable fa, fa_first_frame fa, fa_frames fa, fa_reserved fa, fa_reserved_len fa,
     length (fa_used fa))"

lemma fa_frame_simps:
  assumes "fa_frame fa' = fa_frame fa"
  shows "fa_shape fa' = fa_shape fa" "frame_addr fa' = frame_addr fa" "reserved_at fa' = reserved_at fa"
    "fa_frames fa' = fa_frames fa" "fa_allocatable fa' = fa_allocatable fa" "fa_first_frame fa' = fa_first_frame fa"
  using assms by (auto simp: fa_frame_def fa_shape_def frame_addr_def reserved_at_def fun_eq_iff)

lemma fa_invI:
  assumes "fa_inv fa" "fa_frame fa' = fa_frame fa" "fa_free_frames fa' = card (free_set fa')"
  shows "fa_inv fa'"
  using assms fa_frame_simps [OF assms(2)] by (simp add: fa_inv_def)

lemma mark_used_eq:
  assumes inv: "fa_inv fa" and i: "i \<in> free_set fa"
  shows "\<exists>fa'. mark_used fa i = Some fa' \<and> fa_inv fa' \<and> free_set fa' = free_set fa - {i} \<and>
     fa_frame fa' = fa_frame fa"
proof -
  have "i < 8 * length (fa_used fa)" using inv i by (auto simp: fa_inv_def fa_shape_def free_set_def)
  then obtain us where us: "frame_set_bit (fa_used fa) i True = Some us" "length us = length (fa_used fa)"
    "\<forall>j. bm us j = (if j = i then True else bm (fa_used fa) j)"
    using frame_set_bit_eq by blast
  let ?fa = "fa\<lparr>fa_used := us, fa_free_frames := fa_free_frames fa - 1\<rparr>"
  have free: "free_set ?fa = free_set fa - {i}"
    using us(3) by (auto simp: free_set_def free_at_def)
  have "1 \<le> card (free_set fa)"
    using i card_gt_0_iff [of "free_set fa"] by (auto simp: Suc_le_eq)
  then have "mark_used fa i = Some ?fa" "fa_free_frames ?fa = card (free_set ?fa)"
    using inv us(1) i unfolding free by (simp_all add: mark_used_def usub_def fa_inv_def)
  moreover have "fa_frame ?fa = fa_frame fa" using us(2) by (simp add: fa_frame_def)
  ultimately show ?thesis using fa_invI [OF inv] free by blast
qed

lemma mark_used_all_eq:
  assumes "fa_inv fa" "set is \<subseteq> free_set fa" "distinct is"
  shows "\<exists>fa'. mark_used_all fa is = Some fa' \<and> fa_inv fa' \<and> free_set fa' = free_set fa - set is \<and>
     fa_frame fa' = fa_frame fa"
  using assms
proof (induction "is" arbitrary: fa)
  case Nil
  then show ?case by simp
next
  case (Cons i "is")
  then obtain fa1 where fa1: "mark_used fa i = Some fa1" "fa_inv fa1" "free_set fa1 = free_set fa - {i}"
    "fa_frame fa1 = fa_frame fa"
    using mark_used_eq [of fa i] by auto
  moreover have "set is \<subseteq> free_set fa1" using Cons.prems fa1(3) by auto
  ultimately show ?case using Cons.IH [of fa1] Cons.prems by auto
qed

lemma alloc_contiguous_eq:
  assumes inv: "fa_inv fa" and c: "0 < c"
  shows "\<exists>fa' r. alloc_contiguous fa c = Some (fa', r) \<and> fa_inv fa' \<and> fa_frame fa' = fa_frame fa \<and>
    (case r of
       None \<Rightarrow> fa' = fa \<and> (\<forall>s. \<not> is_run (free_set fa) c s)
     | Some g \<Rightarrow> \<exists>s. first_run (free_set fa) c (Some s) \<and> g = \<lparr> range_start = frame_addr fa s, range_len = c * PAGE_SIZE \<rparr> \<and>
         free_set fa' = free_set fa - {s..<s + c})"
proof -
  have shape: "fa_shape fa" using inv by (simp add: fa_inv_def)
  obtain r where r: "find_free_run fa c = Some r" "first_run (free_set fa) c r"
    using find_free_run_eq [OF shape c] by blast
  show ?thesis
  proof (cases r)
    case None
    then show ?thesis using r inv c by (simp add: alloc_contiguous_def first_run_def)
  next
    case (Some s)
    then have run: "is_run (free_set fa) c s" using r by (simp add: first_run_def)
    then have "s + c \<le> fa_frames fa" "s < fa_frames fa" using run_within [OF run c] c by auto
    note b = shape_addr [OF shape this(2)] this
    obtain fa' where fa': "mark_used_all fa [s..<s + c] = Some fa'" "fa_inv fa'"
      "free_set fa' = free_set fa - {s..<s + c}" "fa_frame fa' = fa_frame fa"
      using mark_used_all_eq [OF inv, of "[s..<s + c]"] run by (auto simp: is_run_def)
    have "c * PAGE_SIZE \<le> (fa_first_frame fa + fa_frames fa) * PAGE_SIZE"
      using b(6) by (intro mult_le_mono1) simp
    then have "c * PAGE_SIZE \<le> U64_MAX" "s + c \<le> U64_MAX"
      using shape b unfolding fa_shape_def by linarith+
    then have "alloc_contiguous fa c = Some (fa', Some \<lparr> range_start = frame_addr fa s, range_len = c * PAGE_SIZE \<rparr>)"
      using r(1) Some c fa' b fa_frame_simps [OF fa'(4)]
      by (simp add: alloc_contiguous_def uadd_def umul_def frame_addr_def)
    then show ?thesis using fa' r(2) Some by auto
  qed
qed

lemma frame_alloc_eq:
  assumes inv: "fa_inv fa"
  shows "\<exists>fa' r. frame_alloc fa = Some (fa', r) \<and> fa_inv fa' \<and> fa_frame fa' = fa_frame fa \<and>
    (case r of
       None \<Rightarrow> fa' = fa \<and> free_set fa = {}
     | Some f \<Rightarrow> \<exists>i \<in> free_set fa. (\<forall>j \<in> free_set fa. i \<le> j) \<and> frame_address f = frame_addr fa i \<and>
         free_set fa' = free_set fa - {i})"
proof -
  have shape: "fa_shape fa" using inv by (simp add: fa_inv_def)
  obtain r where r: "find_free_run fa 1 = Some r" "first_run (free_set fa) 1 r"
    using find_free_run_eq [OF shape, of 1] by auto
  show ?thesis
  proof (cases r)
    case None
    then show ?thesis using r inv unfolding first_run_single by (simp add: frame_alloc_def)
  next
    case (Some i)
    then have i: "i \<in> free_set fa" "\<forall>j \<in> free_set fa. i \<le> j"
      using r(2) unfolding first_run_single by (auto simp: not_less [symmetric])
    then have "i < fa_frames fa" by (simp add: free_set_def)
    note b = shape_addr [OF shape this]
    obtain fa' where fa': "mark_used fa i = Some fa'" "fa_inv fa'" "free_set fa' = free_set fa - {i}"
      "fa_frame fa' = fa_frame fa"
      using mark_used_eq [OF inv i(1)] by blast
    then have "frame_alloc fa = Some (fa', Some \<lparr> frame_address = frame_addr fa i \<rparr>)"
      using r(1) Some b fa_frame_simps [OF fa'(4)] by (simp add: frame_alloc_def uadd_def umul_def frame_addr_def)
    then show ?thesis using fa' i by auto
  qed
qed

text \<open>The error a release reports, and the frame it frees otherwise.\<close>

definition free_error :: "FrameAllocator \<Rightarrow> nat \<Rightarrow> FreeError option" where
  "free_error fa a =
     (if \<nexists>i. i < fa_frames fa \<and> a = frame_addr fa i then Some (NotManaged a)
      else if reserved_at fa a then Some (FrameReserved a)
      else if \<not> bm (fa_allocatable fa) (a div PAGE_SIZE - fa_first_frame fa) then Some (NotManaged a)
      else if a div PAGE_SIZE - fa_first_frame fa \<in> free_set fa then Some (AlreadyFree a)
      else None)"

lemma addr_index: "frame_addr fa i div PAGE_SIZE - fa_first_frame fa = i"
  by (simp add: frame_addr_def PAGE_SIZE_def)

lemma frame_addr_inj: "frame_addr fa i = frame_addr fa j \<longleftrightarrow> i = j"
  by (simp add: frame_addr_def PAGE_SIZE_def)

lemma frame_free_eq:
  assumes inv: "fa_inv fa"
  shows "case free_error fa (frame_address f) of
      Some e \<Rightarrow> frame_free fa f = Some (fa, Inl e)
    | None \<Rightarrow> \<exists>fa' i. frame_free fa f = Some (fa', Inr ()) \<and> fa_inv fa' \<and> i < fa_frames fa \<and> i \<notin> free_set fa \<and>
        frame_address f = frame_addr fa i \<and> free_set fa' = insert i (free_set fa) \<and> fa_frame fa' = fa_frame fa"
proof -
  have shape: "fa_shape fa" using inv by (simp add: fa_inv_def)
  show ?thesis
  proof (cases "\<exists>i < fa_frames fa. frame_address f = frame_addr fa i")
    case False
    then have "free_error fa (frame_address f) = Some (NotManaged (frame_address f))"
      "frame_index fa (frame_address f) = Some None"
      using frame_index_eq [OF shape] by (auto simp: free_error_def)
    then show ?thesis by (simp add: frame_free_def)
  next
    case True
    then obtain i where i: "i < fa_frames fa" "frame_address f = frame_addr fa i" by blast
    have bits: "i < 8 * length (fa_allocatable fa)" "i < 8 * length (fa_used fa)"
      using i(1) shape by (auto simp: fa_shape_def)
    have err: "free_error fa (frame_address f) =
       (if reserved_at fa (frame_addr fa i) then Some (FrameReserved (frame_addr fa i))
        else if \<not> bm (fa_allocatable fa) i then Some (NotManaged (frame_addr fa i))
        else if \<not> bm (fa_used fa) i then Some (AlreadyFree (frame_addr fa i)) else None)"
      using True i addr_index [of fa i] by (auto simp: free_error_def free_set_def free_at_def)
    obtain us where us: "frame_set_bit (fa_used fa) i False = Some us" "length us = length (fa_used fa)"
      "\<forall>j. bm us j = (if j = i then False else bm (fa_used fa) j)"
      using frame_set_bit_eq [OF bits(2)] by blast
    let ?fa = "fa\<lparr>fa_used := us, fa_free_frames := fa_free_frames fa + 1\<rparr>"
    note steps = frame_index_addr [OF shape i(1)] is_reserved_eq [OF shape shape_addr(1) [OF shape i(1)]]
      frame_bit_eq [OF bits(1)] frame_bit_eq [OF bits(2)]
    show ?thesis
    proof (cases "free_error fa (frame_address f)")
      case (Some e)
      then show ?thesis
        using err i(2) steps
        by (auto simp: frame_free_def is_allocatable_def is_used_def split: if_splits)
    next
      case None
      then have ok: "\<not> reserved_at fa (frame_addr fa i)" "bm (fa_allocatable fa) i" "bm (fa_used fa) i"
        using err by (auto split: if_splits)
      have free: "free_set ?fa = insert i (free_set fa)" "i \<notin> free_set fa"
        using us(3) ok i(1) by (auto simp: free_set_def free_at_def)
      have "card (free_set ?fa) \<le> card {..<fa_frames fa}"
        by (intro card_mono) (auto simp: free_set_def)
      then have "fa_free_frames fa + 1 \<le> U64_MAX"
        using free inv shape_addr(5) [OF shape i(1)] by (simp add: fa_inv_def)
      then have "frame_free fa f = Some (?fa, Inr ())"
        using ok us(1) i(2) steps by (simp add: frame_free_def is_allocatable_def is_used_def uadd_def)
      moreover have "fa_frame ?fa = fa_frame fa" using us(2) by (simp add: fa_frame_def)
      moreover have "fa_inv ?fa"
        using fa_invI [OF inv, of ?fa] calculation(2) free inv by (simp add: fa_inv_def)
      ultimately show ?thesis using None free i by auto
    qed
  qed
qed

section \<open>Initialisation\<close>

text \<open>\<open>marked fa fa' N\<close>: \<open>fa'\<close> is \<open>fa\<close> with the frames of \<open>N\<close> made available and counted once each.\<close>

definition fa_geometry where
  "fa_geometry fa = (fa_first_frame fa, fa_frames fa, fa_reserved fa, fa_reserved_len fa,
     length (fa_allocatable fa), length (fa_used fa))"

definition marked :: "FrameAllocator \<Rightarrow> FrameAllocator \<Rightarrow> nat set \<Rightarrow> bool" where
  "marked fa fa' N \<longleftrightarrow> fa_geometry fa' = fa_geometry fa \<and> fa_free_frames fa' = fa_free_frames fa + card N \<and>
     (\<forall>j. bm (fa_allocatable fa') j \<longleftrightarrow> bm (fa_allocatable fa) j \<or> j \<in> N) \<and>
     (\<forall>j. bm (fa_used fa') j \<longleftrightarrow> bm (fa_used fa) j \<and> j \<notin> N)"

lemma geometry_simps:
  assumes "fa_geometry fa' = fa_geometry fa"
  shows "fa_shape fa' = fa_shape fa" "frame_addr fa' = frame_addr fa" "reserved_at fa' = reserved_at fa"
    "fa_frames fa' = fa_frames fa" "fa_first_frame fa' = fa_first_frame fa"
    "fa_reserved fa' = fa_reserved fa" "fa_reserved_len fa' = fa_reserved_len fa"
  using assms by (auto simp: fa_geometry_def fa_shape_def frame_addr_def reserved_at_def fun_eq_iff)

lemma marked_refl: "marked fa fa {}"
  by (simp add: marked_def)

lemma marked_trans:
  assumes "marked fa fa1 M" "marked fa1 fa2 N" "finite M" "finite N" "M \<inter> N = {}"
  shows "marked fa fa2 (M \<union> N)"
  using assms by (auto simp: marked_def card_Un_disjoint)

text \<open>The frames made available by a walk from \<open>a\<close> to \<open>b\<close> in steps of a page.\<close>

definition avail :: "FrameAllocator \<Rightarrow> nat \<Rightarrow> nat \<Rightarrow> nat set" where
  "avail fa a b = {i. i < fa_frames fa \<and> a \<le> frame_addr fa i \<and> frame_addr fa i < b \<and> a mod PAGE_SIZE = 0 \<and>
     \<not> reserved_at fa (frame_addr fa i)}"

lemma finite_avail [simp]: "finite (avail fa a b)"
  by (simp add: avail_def)

lemma avail_geometry: "fa_geometry fa' = fa_geometry fa \<Longrightarrow> avail fa' = avail fa"
  using geometry_simps [of fa' fa] by (simp add: avail_def fun_eq_iff)

lemma mark_available_eq:
  assumes shape: "fa_shape fa" 
    and room: "fa_free_frames fa + card {i. i < fa_frames fa \<and> frame_addr fa i = a} \<le> U64_MAX"
  shows "\<exists>fa'. mark_available fa a = Some fa' \<and> marked fa fa' {i. i < fa_frames fa \<and> frame_addr fa i = a}"
proof (cases "\<exists>i < fa_frames fa. a = frame_addr fa i")
  case False
  then have "frame_index fa a = Some None" "{i. i < fa_frames fa \<and> frame_addr fa i = a} = {}"
    using frame_index_eq [OF shape] by auto
  then show ?thesis by (simp only:) (simp add: mark_available_def marked_refl)
next
  case True
  then obtain i where i: "i < fa_frames fa" "a = frame_addr fa i" by blast
  have only: "{i. i < fa_frames fa \<and> frame_addr fa i = a} = {i}"
    using i by (auto simp: frame_addr_inj)
  have bits: "i < 8 * length (fa_allocatable fa)" "i < 8 * length (fa_used fa)"
    using i(1) shape by (auto simp: fa_shape_def)
  obtain al where al: "frame_set_bit (fa_allocatable fa) i True = Some al" "length al = length (fa_allocatable fa)"
    "\<forall>j. bm al j = (if j = i then True else bm (fa_allocatable fa) j)"
    using frame_set_bit_eq [OF bits(1)] by blast
  obtain us where us: "frame_set_bit (fa_used fa) i False = Some us" "length us = length (fa_used fa)"
    "\<forall>j. bm us j = (if j = i then False else bm (fa_used fa) j)"
    using frame_set_bit_eq [OF bits(2)] by blast
  have "mark_available fa a = Some (fa\<lparr>fa_allocatable := al, fa_used := us, fa_free_frames := fa_free_frames fa + 1\<rparr>)"
    using al(1) us(1) i frame_index_addr [OF shape i(1)] room [unfolded only]
    by (simp add: mark_available_def uadd_def)
  then show ?thesis
    using al us unfolding only by (auto simp: marked_def fa_geometry_def)
qed

lemma avail_step:
  assumes "a < b" "(fa_first_frame fa + fa_frames fa) * PAGE_SIZE \<le> U64_MAX"
  shows "avail fa a b = (if reserved_at fa a then {} else {i. i < fa_frames fa \<and> frame_addr fa i = a}) \<union>
      avail fa (a + PAGE_SIZE) b"
proof -
  have next_page: "frame_addr fa i = a \<or> a + PAGE_SIZE \<le> frame_addr fa i"
    if le: "a \<le> frame_addr fa i" and al: "a mod PAGE_SIZE = 0" for i
  proof -
    obtain k where k: "a = k * PAGE_SIZE" using al by (metis mod_0_imp_dvd dvd_div_mult_self)
    have "k = fa_first_frame fa + i \<or> Suc k \<le> fa_first_frame fa + i"
      using le by (auto simp: k frame_addr_def PAGE_SIZE_def)
    then show ?thesis
    proof
      assume "Suc k \<le> fa_first_frame fa + i"
      then have "Suc k * PAGE_SIZE \<le> (fa_first_frame fa + i) * PAGE_SIZE" by (rule mult_le_mono1)
      then show ?thesis by (simp add: k frame_addr_def)
    qed (simp add: k frame_addr_def)
  qed
  have aligned: "frame_addr fa i = a \<Longrightarrow> a mod PAGE_SIZE = 0" for i
    by (auto simp: frame_addr_def)
  show ?thesis
  proof (rule set_eqI)
    fix i
    show "i \<in> avail fa a b \<longleftrightarrow> i \<in> (if reserved_at fa a then {} else {i. i < fa_frames fa \<and> frame_addr fa i = a}) \<union>
        avail fa (a + PAGE_SIZE) b"
      using assms(1) next_page [of i] aligned [of i] by (auto simp: avail_def)
  qed
qed

lemma mark_region_eq:
  assumes "fa_shape fa" "b \<le> (fa_first_frame fa + fa_frames fa) * PAGE_SIZE"
    "b + PAGE_SIZE \<le> U64_MAX + 1" "fa_free_frames fa + card (avail fa a b) \<le> U64_MAX"
  shows "\<exists>fa'. mark_region fa a b = Some fa' \<and> marked fa fa' (avail fa a b)"
  using assms
proof (induction fa a b rule: mark_region.induct)
  case (1 fa a b)
  show ?case
  proof (cases "a < b")
    case False
    then have "avail fa a b = {}" by (auto simp: avail_def)
    then show ?thesis using False by (subst mark_region.simps) (simp add: marked_refl)
  next
    case True
    let ?N = "if reserved_at fa a then {} else {i. i < fa_frames fa \<and> frame_addr fa i = a}"
    have split: "avail fa a b = ?N \<union> avail fa (a + PAGE_SIZE) b"
      using avail_step [OF True] "1.prems"(1) by (simp add: fa_shape_def)
    have disj: "?N \<inter> avail fa (a + PAGE_SIZE) b = {}" by (auto simp: avail_def PAGE_SIZE_def)
    have fin: "finite ?N" by simp
    have card: "card (avail fa a b) = card ?N + card (avail fa (a + PAGE_SIZE) b)"
      unfolding split by (rule card_Un_disjoint [OF fin finite_avail disj])
    have top: "a + PAGE_SIZE \<le> U64_MAX" using True "1.prems"(3) by linarith
    have rsv: "is_reserved fa a = Some (reserved_at fa a)" by (rule is_reserved_eq [OF "1.prems"(1) top])
    obtain fa1 where fa1: "(if \<not> reserved_at fa a then mark_available fa a else Some fa) = Some fa1" "marked fa fa1 ?N"
    proof (cases "reserved_at fa a")
      case True
      then show thesis using that [of fa] by (simp add: marked_refl)
    next
      case False
      then show thesis
        using that mark_available_eq [OF "1.prems"(1), of a] "1.prems"(4) card by auto
    qed
    note geo = geometry_simps [of fa1 fa]
    have g: "fa_geometry fa1 = fa_geometry fa" using fa1(2) by (simp add: marked_def)
    have "\<exists>fa'. mark_region fa1 (a + PAGE_SIZE) b = Some fa' \<and> marked fa1 fa' (avail fa1 (a + PAGE_SIZE) b)"
    proof (rule "1.IH" [OF True rsv fa1(1)])
      show "uadd a PAGE_SIZE = Some (a + PAGE_SIZE)" using top by (simp add: uadd_def)
      show "fa_shape fa1" "b \<le> (fa_first_frame fa1 + fa_frames fa1) * PAGE_SIZE"
        using "1.prems" by (simp_all add: geo [OF g])
      show "b + PAGE_SIZE \<le> U64_MAX + 1" by (rule "1.prems"(3))
      show "fa_free_frames fa1 + card (avail fa1 (a + PAGE_SIZE) b) \<le> U64_MAX"
        using "1.prems"(4) fa1(2) card unfolding avail_geometry [OF g] marked_def by linarith
    qed
    then obtain fa' where fa': "mark_region fa1 (a + PAGE_SIZE) b = Some fa'"
      "marked fa1 fa' (avail fa (a + PAGE_SIZE) b)"
      unfolding avail_geometry [OF g] by blast
    have "mark_region fa a b = mark_region fa1 (a + PAGE_SIZE) b"
      by (subst mark_region.simps) (simp only: True rsv fa1(1) uadd_ok [OF top] if_True Option.bind.bind_lunit)
    then have "mark_region fa a b = Some fa'" using fa'(1) by (rule trans)
    moreover have "marked fa fa' (avail fa a b)"
      unfolding split by (rule marked_trans [OF fa1(2) fa'(2) fin finite_avail disj])
    ultimately show ?thesis by blast
  qed
qed

text \<open>The conventional regions of a map do not share memory.\<close>

fun disjoint_conventional :: "Region list \<Rightarrow> bool" where
  "disjoint_conventional [] = True"
| "disjoint_conventional (r # rs) \<longleftrightarrow>
     (region_kind r = Conventional \<longrightarrow>
        (\<forall>q \<in> set rs. region_kind q = Conventional \<longrightarrow>
           region_stop r \<le> region_base q \<or> region_stop q \<le> region_base r)) \<and>
     disjoint_conventional rs"

definition avail_all :: "FrameAllocator \<Rightarrow> nat \<Rightarrow> nat \<Rightarrow> Region list \<Rightarrow> nat set" where
  "avail_all fa lo hi rs =
     (\<Union>r \<in> {r \<in> set rs. region_kind r = Conventional}. avail fa (max (region_base r) lo) (min (region_stop r) hi))"

lemma avail_all_simps:
  "avail_all fa lo hi [] = {}"
  "avail_all fa lo hi (r # rs) =
     (if region_kind r = Conventional
      then avail fa (max (region_base r) lo) (min (region_stop r) hi) \<union> avail_all fa lo hi rs
      else avail_all fa lo hi rs)"
  by (auto simp: avail_all_def)

lemma avail_all_bound: "finite (avail_all fa lo hi rs)" "card (avail_all fa lo hi rs) \<le> fa_frames fa"
proof -
  have sub: "avail_all fa lo hi rs \<subseteq> {..<fa_frames fa}" by (auto simp: avail_all_def avail_def)
  then show "finite (avail_all fa lo hi rs)" by (rule finite_subset) simp
  show "card (avail_all fa lo hi rs) \<le> fa_frames fa" using card_mono [OF _ sub] by simp
qed

lemma mark_regions_eq:
  assumes "fa_shape fa" "hi = (fa_first_frame fa + fa_frames fa) * PAGE_SIZE" "hi + PAGE_SIZE \<le> U64_MAX + 1"
    "\<forall>r \<in> set rs. region_stop r \<le> U64_MAX" "disjoint_conventional rs"
    "fa_free_frames fa + card (avail_all fa lo hi rs) \<le> U64_MAX"
  shows "\<exists>fa'. mark_regions fa lo hi rs = Some fa' \<and> marked fa fa' (avail_all fa lo hi rs)"
  using assms
proof (induction rs arbitrary: fa)
  case Nil
  then show ?case by (simp add: avail_all_simps marked_refl)
next
  case (Cons r rs)
  show ?case
  proof (cases "region_kind r = Conventional")
    case False
    then show ?thesis using Cons by (simp add: avail_all_simps)
  next
    case True
    let ?a = "max (region_base r) lo" and ?b = "min (region_stop r) hi"
    have disj: "avail fa ?a ?b \<inter> avail_all fa lo hi rs = {}"
      using Cons.prems(5) True by (fastforce simp: avail_all_def avail_def)
    have all: "avail_all fa lo hi (r # rs) = avail fa ?a ?b \<union> avail_all fa lo hi rs"
      using True by (simp add: avail_all_simps)
    have card: "card (avail_all fa lo hi (r # rs)) = card (avail fa ?a ?b) + card (avail_all fa lo hi rs)"
      unfolding all by (rule card_Un_disjoint [OF finite_avail avail_all_bound(1) disj])
    have "?b \<le> (fa_first_frame fa + fa_frames fa) * PAGE_SIZE" "?b + PAGE_SIZE \<le> U64_MAX + 1"
      "fa_free_frames fa + card (avail fa ?a ?b) \<le> U64_MAX"
      using Cons.prems(2,3,6) card by auto
    then obtain fa1 where fa1: "mark_region fa ?a ?b = Some fa1" "marked fa fa1 (avail fa ?a ?b)"
      using mark_region_eq [OF Cons.prems(1)] by blast
    then have g: "fa_geometry fa1 = fa_geometry fa" by (simp add: marked_def)
    have same: "avail_all fa1 lo hi rs = avail_all fa lo hi rs"
      by (simp add: avail_all_def avail_geometry [OF g])
    have "fa_free_frames fa1 + card (avail_all fa1 lo hi rs) \<le> U64_MAX"
      using fa1(2) Cons.prems(6) card unfolding same marked_def by linarith
    then obtain fa' where fa': "mark_regions fa1 lo hi rs = Some fa'" "marked fa1 fa' (avail_all fa lo hi rs)"
      using Cons.IH [of fa1] Cons.prems geometry_simps [OF g] unfolding same by auto
    have "mark_regions fa lo hi (r # rs) = Some fa'"
      using True fa1(1) fa'(1) Cons.prems(4) by (simp add: region_end_eq)
    then show ?thesis
      using marked_trans [OF fa1(2) fa'(2) finite_avail avail_all_bound(1) disj] unfolding all by blast
  qed
qed

text \<open>The frames the allocator may hand out, in terms of the memory map and the reserved ranges.\<close>

definition usable_frame :: "MemoryMap \<Rightarrow> ReservedRange list \<Rightarrow> nat \<Rightarrow> nat \<Rightarrow> bool" where
  "usable_frame m rsv lo a \<longleftrightarrow>
     (\<exists>r \<in> set (regions_of m). region_kind r = Conventional \<and> max (region_base r) lo mod PAGE_SIZE = 0 \<and>
        region_base r \<le> a \<and> a < region_stop r) \<and>
     (\<forall>q \<in> set rsv. \<not> rsv_overlaps q a (a + PAGE_SIZE))"

definition init_start :: "bytes \<Rightarrow> ReservedRange list \<Rightarrow> Config \<Rightarrow> FrameAllocator" where
  "init_start bitmap rsv config =
     (let first = div_ceil (managed_start config) PAGE_SIZE;
          n = config_limit config div PAGE_SIZE - first;
          half = div_ceil n 8 in
      \<lparr> fa_allocatable = replicate half 0, fa_used = replicate half 255 @ drop (2 * half) bitmap,
        fa_first_frame = first, fa_frames = n, fa_free_frames = 0,
        fa_reserved = rsv @ replicate (8 - length rsv) \<lparr> rsv_start = 0, rsv_end = 0 \<rparr>,
        fa_reserved_len = length rsv \<rparr>)"

lemma frame_init_start:
  assumes "map_wf m" "length rsv \<le> 8" "config_limit config \<le> U64_MAX"
    "div_ceil (managed_start config) PAGE_SIZE < config_limit config div PAGE_SIZE"
    "2 * div_ceil (config_limit config div PAGE_SIZE - div_ceil (managed_start config) PAGE_SIZE) 8 \<le> length bitmap"
  shows "frame_init bitmap m rsv config = do {
      fa' \<leftarrow> mark_regions (init_start bitmap rsv config) (div_ceil (managed_start config) PAGE_SIZE * PAGE_SIZE)
        (config_limit config div PAGE_SIZE * PAGE_SIZE) (regions_of m);
      if fa_free_frames fa' = 0 then Some (Inl NoUsableMemory) else Some (Inr fa')
    }"
proof -
  let ?f = "div_ceil (managed_start config) PAGE_SIZE" and ?e = "config_limit config div PAGE_SIZE"
  have e: "?e * PAGE_SIZE \<le> U64_MAX" using assms(3) div_times_less_eq_dividend le_trans by blast
  have f: "?f * PAGE_SIZE \<le> U64_MAX"
    by (rule le_trans [OF mult_le_mono1 [OF less_imp_le [OF assms(4)]] e])
  have "div_ceil (?e - ?f) 8 * 8 < ?e - ?f + 8" by (rule div_ceil_bounds) simp
  moreover have "?e \<le> U64_MAX div 4096" using e by (simp add: PAGE_SIZE_def less_eq_div_iff_mult_less_eq)
  ultimately have h: "2 * div_ceil (?e - ?f) 8 \<le> U64_MAX" by (simp add: U64_MAX_def)
  show ?thesis
    using assms e f h mm.items_eq [OF assms(1)] add_le_imp_le_diff [OF assms(5) [unfolded mult_2]]
    by (simp add: frame_init_def Let_def init_start_def usub_def umul_def copy_into_def put_def min_def
        MAX_RESERVED_RANGES_def mult_2)
qed

lemma init_start_facts:
  assumes "length rsv \<le> 8" "config_limit config \<le> U64_MAX"
    "div_ceil (managed_start config) PAGE_SIZE < config_limit config div PAGE_SIZE"
    "2 * div_ceil (config_limit config div PAGE_SIZE - div_ceil (managed_start config) PAGE_SIZE) 8 \<le> length bitmap"
  defines "fa \<equiv> init_start bitmap rsv config"
  shows "fa_shape fa" "(fa_first_frame fa + fa_frames fa) * PAGE_SIZE = config_limit config div PAGE_SIZE * PAGE_SIZE"
    "j < fa_frames fa \<Longrightarrow> \<not> bm (fa_allocatable fa) j" "fa_free_frames fa = 0"
    "fa_first_frame fa = div_ceil (managed_start config) PAGE_SIZE"
    "reserved_at fa a \<longleftrightarrow> (\<exists>q \<in> set rsv. rsv_overlaps q a (a + PAGE_SIZE))"
    "fa_frames fa = config_limit config div PAGE_SIZE - div_ceil (managed_start config) PAGE_SIZE"
proof -
  let ?n = "config_limit config div PAGE_SIZE - div_ceil (managed_start config) PAGE_SIZE"
  have half: "?n \<le> 8 * div_ceil ?n 8" using div_ceil_bounds(1) [of 8 ?n] by (simp add: mult.commute)
  have e: "config_limit config div PAGE_SIZE * PAGE_SIZE \<le> U64_MAX"
    using assms(2) div_times_less_eq_dividend le_trans by blast
  show top: "(fa_first_frame fa + fa_frames fa) * PAGE_SIZE = config_limit config div PAGE_SIZE * PAGE_SIZE"
    using assms(3) by (simp add: fa_def init_start_def Let_def)
  show "fa_shape fa"
    unfolding fa_shape_def top using half e by (simp add: fa_def init_start_def Let_def)
  show "\<not> bm (fa_allocatable fa) j" if "j < fa_frames fa"
  proof -
    have "j < 8 * div_ceil ?n 8" using that half by (simp add: fa_def init_start_def Let_def)
    then have "j div 8 < div_ceil ?n 8" by (simp add: less_mult_imp_div_less mult.commute)
    then show ?thesis by (simp add: fa_def init_start_def Let_def bm_def)
  qed
  show "fa_free_frames fa = 0" "fa_first_frame fa = div_ceil (managed_start config) PAGE_SIZE"
    "reserved_at fa a \<longleftrightarrow> (\<exists>q \<in> set rsv. rsv_overlaps q a (a + PAGE_SIZE))" "fa_frames fa = ?n"
    by (simp_all add: fa_def init_start_def Let_def reserved_at_def list_ex_iff)
qed

lemma marked_inv:
  assumes "marked fa fa' (avail_all fa lo hi rs)" "fa_shape fa" "fa_free_frames fa = 0"
    "\<And>j. j < fa_frames fa \<Longrightarrow> \<not> bm (fa_allocatable fa) j"
  shows "fa_inv fa'" "free_set fa' = avail_all fa lo hi rs" "fa_free_frames fa' = card (free_set fa')"
proof -
  have g: "fa_geometry fa' = fa_geometry fa" using assms(1) by (simp add: marked_def)
  note geo = geometry_simps [OF g]
  have sub: "avail_all fa lo hi rs \<subseteq> {j. j < fa_frames fa \<and> \<not> reserved_at fa (frame_addr fa j)}"
    by (auto simp: avail_all_def avail_def)
  have al: "bm (fa_allocatable fa') j \<longleftrightarrow> j \<in> avail_all fa lo hi rs" if "j < fa_frames fa" for j
    using assms(1,4) that by (simp add: marked_def)
  show fs: "free_set fa' = avail_all fa lo hi rs"
    using sub al assms(1) by (auto simp: free_set_def free_at_def geo marked_def)
  then show "fa_free_frames fa' = card (free_set fa')" using assms(1,3) by (simp add: marked_def)
  then show "fa_inv fa'" using assms(2) al sub by (auto simp: fa_inv_def geo)
qed

lemma frame_init_eq:
  assumes "map_wf m" "disjoint_conventional (regions_of m)" "length rsv \<le> 8" "config_limit config \<le> U64_MAX"
    "div_ceil (managed_start config) PAGE_SIZE < config_limit config div PAGE_SIZE"
    "2 * div_ceil (config_limit config div PAGE_SIZE - div_ceil (managed_start config) PAGE_SIZE) 8 \<le> length bitmap"
  shows "\<exists>fa. frame_init bitmap m rsv config = Some (if free_set fa = {} then Inl NoUsableMemory else Inr fa) \<and> fa_inv fa \<and>
    fa_first_frame fa = div_ceil (managed_start config) PAGE_SIZE \<and>
    fa_frames fa = config_limit config div PAGE_SIZE - div_ceil (managed_start config) PAGE_SIZE \<and>
    free_set fa = {i. i < fa_frames fa \<and>
      usable_frame m rsv (div_ceil (managed_start config) PAGE_SIZE * PAGE_SIZE) (frame_addr fa i)} \<and>
    take (fa_reserved_len fa) (fa_reserved fa) = rsv"
proof -
  let ?lo = "div_ceil (managed_start config) PAGE_SIZE * PAGE_SIZE"
  let ?hi = "config_limit config div PAGE_SIZE * PAGE_SIZE"
  let ?s = "init_start bitmap rsv config"
  note start = init_start_facts [OF assms(3-6)]
  have hi: "?hi + PAGE_SIZE \<le> U64_MAX + 1"
    using assms(4) by (auto simp: PAGE_SIZE_def U64_MAX_def)
  have room: "fa_free_frames ?s + card (avail_all ?s ?lo ?hi (regions_of m)) \<le> U64_MAX"
    using avail_all_bound(2) [of ?s ?lo ?hi "regions_of m"] assms(4) unfolding start(4,7) PAGE_SIZE_def by linarith
  obtain fa where fa: "mark_regions ?s ?lo ?hi (regions_of m) = Some fa" "marked ?s fa (avail_all ?s ?lo ?hi (regions_of m))"
    using mark_regions_eq [OF start(1) start(2) [symmetric] hi _ assms(2) room] mm.stop_bound [OF assms(1)] by blast
  note inv = marked_inv [OF fa(2) start(1,4,3)]
  have g: "fa_geometry fa = fa_geometry ?s" using fa(2) by (simp add: marked_def)
  have "?lo \<le> frame_addr ?s i" "i < fa_frames ?s \<Longrightarrow> frame_addr ?s i < ?hi" for i
    unfolding start(2) [symmetric] by (simp_all add: frame_addr_def start(5) PAGE_SIZE_def)
  then have "avail_all ?s ?lo ?hi (regions_of m) = {i. i < fa_frames ?s \<and> usable_frame m rsv ?lo (frame_addr ?s i)}"
    by (auto simp: avail_all_def avail_def usable_frame_def start(6))
  moreover have "frame_init bitmap m rsv config = Some (if free_set fa = {} then Inl NoUsableMemory else Inr fa)"
    using frame_init_start [OF assms(1,3-6)] fa(1) inv(3) by simp
  moreover have "fa_first_frame fa = div_ceil (managed_start config) PAGE_SIZE"
    "fa_frames fa = config_limit config div PAGE_SIZE - div_ceil (managed_start config) PAGE_SIZE"
    "frame_addr fa = frame_addr ?s"
    using start(5,7) geometry_simps [OF g] by simp_all
  moreover have "take (fa_reserved_len fa) (fa_reserved fa) = rsv"
    using g by (simp add: fa_geometry_def init_start_def Let_def)
  ultimately show ?thesis
    using inv(1,2) start(7) by (intro exI [of _ fa]) simp
qed

section \<open>Properties\<close>


text \<open>A machine for the witnesses: 8 frames from 1 MiB, the second one reserved.\<close>

definition sample_config :: Config where
  "sample_config = \<lparr> managed_start = 1048576, config_limit = 1081344 \<rparr>"

definition sample_reserved :: "ReservedRange list" where
  "sample_reserved = [\<lparr> rsv_start = 1052672, rsv_end = 1056768 \<rparr>]"

definition sample_init :: "(FrameInitError + FrameAllocator) panics" where
  "sample_init = frame_init [7, 7] sample_map sample_reserved sample_config"

definition sample_fa :: FrameAllocator where
  "sample_fa = \<lparr> fa_allocatable = [253], fa_used = [2], fa_first_frame = 256, fa_frames = 8, fa_free_frames = 7,
     fa_reserved = sample_reserved @ replicate 7 \<lparr> rsv_start = 0, rsv_end = 0 \<rparr>, fa_reserved_len = 1 \<rparr>"

lemma sample_init_eq: "sample_init = Some (Inr sample_fa)"
  by code_simp

lemma sample_disjoint: "disjoint_conventional (regions_of sample_map)"
  by (simp add: sample_regions_of sample_regions_def)


lemma sample_fa_inv: "fa_inv sample_fa"
proof -
  have c: "div_ceil (managed_start sample_config) PAGE_SIZE < config_limit sample_config div PAGE_SIZE"
    "2 * div_ceil (config_limit sample_config div PAGE_SIZE - div_ceil (managed_start sample_config) PAGE_SIZE) 8
       \<le> length [7 :: u8, 7]"
    "length sample_reserved \<le> 8" "config_limit sample_config \<le> U64_MAX"
    by code_simp+
  show ?thesis
    using frame_init_eq [OF sample_map_wf sample_disjoint c(3,4,1,2)] sample_init_eq
    by (auto simp: sample_init_def split: if_splits)
qed

text \<open>
  C8. \<open>alloc_contiguous(n)\<close> never panics; it takes the lowest run of \<open>n\<close> free frames, page aligned
  and clear of every reserved range, and makes exactly these frames used; it answers \<open>None\<close>, and
  changes nothing, exactly when no such run exists.
\<close>

theorem alloc_contiguous_correct:
  assumes "fa_inv fa" "0 < n"
  shows "\<exists>fa' r. alloc_contiguous fa n = Some (fa', r) \<and> fa_inv fa' \<and>
    (case r of
       None \<Rightarrow> fa' = fa \<and> (\<forall>s. \<not> {s..<s + n} \<subseteq> free_set fa)
     | Some g \<Rightarrow> \<exists>s. {s..<s + n} \<subseteq> free_set fa \<and> (\<forall>t < s. \<not> {t..<t + n} \<subseteq> free_set fa) \<and>
         range_start g = frame_addr fa s \<and> range_len g = n * PAGE_SIZE \<and> range_start g mod PAGE_SIZE = 0 \<and>
         free_set fa' = free_set fa - {s..<s + n} \<and> fa_free_frames fa' + n = fa_free_frames fa \<and>
         (\<forall>i. s \<le> i \<and> i < s + n \<longrightarrow> \<not> reserved_at fa (frame_addr fa i)))"
proof -
  obtain fa' r where run: "alloc_contiguous fa n = Some (fa', r)" "fa_inv fa'" "fa_frame fa' = fa_frame fa"
    and spec: "case r of
       None \<Rightarrow> fa' = fa \<and> (\<forall>s. \<not> is_run (free_set fa) n s)
     | Some g \<Rightarrow> \<exists>s. first_run (free_set fa) n (Some s) \<and> g = \<lparr> range_start = frame_addr fa s, range_len = n * PAGE_SIZE \<rparr> \<and>
         free_set fa' = free_set fa - {s..<s + n}"
    using alloc_contiguous_eq [OF assms] by blast
  show ?thesis
  proof (cases r)
    case None
    then show ?thesis using run spec by (auto simp: is_run_def)
  next
    case (Some g)
    then obtain s where s: "is_run (free_set fa) n s" "\<forall>t < s. \<not> is_run (free_set fa) n t"
      "g = \<lparr> range_start = frame_addr fa s, range_len = n * PAGE_SIZE \<rparr>" "free_set fa' = free_set fa - {s..<s + n}"
      using spec by (auto simp: first_run_def)
    have sub: "{s..<s + n} \<subseteq> free_set fa" using s(1) by (simp add: is_run_def)
    have "card (free_set fa') + card {s..<s + n} = card (free_set fa)"
      unfolding s(4) using card_Diff_subset [OF _ sub] card_mono [OF _ sub] by simp
    then have "fa_free_frames fa' + n = fa_free_frames fa" using run(2) assms(1) by (simp add: fa_inv_def)
    moreover have "\<not> reserved_at fa (frame_addr fa i)" if "s \<le> i" "i < s + n" for i
      using that sub assms(1) by (auto simp: fa_inv_def free_set_def free_at_def)
    ultimately show ?thesis
      using run s sub Some by (auto simp: is_run_def frame_addr_def intro!: exI [of _ s])
  qed
qed

theorem alloc_contiguous_correct_witness:
  "fa_inv sample_fa \<and> (\<exists>fa' g. alloc_contiguous sample_fa 3 = Some (fa', Some g) \<and> range_start g = 1056768 \<and>
     range_len g = 12288 \<and> fa_free_frames fa' = 4)"
proof -
  have v: "map_option (\<lambda>(fa', r). (fa_free_frames fa', map_option range_start r)) (alloc_contiguous sample_fa 3)
      = Some (4, Some 1056768)"
    by code_simp
  then show ?thesis
    using alloc_contiguous_correct [OF sample_fa_inv, of 3] sample_fa_inv
    by (auto simp: PAGE_SIZE_def split: option.splits)
qed

text \<open>
  \<open>alloc()\<close> hands out the free frame with the lowest address, once: the frame leaves the free
  set and no other frame changes; \<open>None\<close> means that no frame is free.
\<close>

theorem frame_alloc_lowest:
  assumes "fa_inv fa"
  shows "\<exists>fa' r. frame_alloc fa = Some (fa', r) \<and> fa_inv fa' \<and>
    (case r of
       None \<Rightarrow> fa' = fa \<and> fa_free_frames fa = 0
     | Some f \<Rightarrow> \<exists>i. i \<in> free_set fa \<and> i = Min (free_set fa) \<and> frame_address f = frame_addr fa i \<and>
         \<not> reserved_at fa (frame_address f) \<and> free_set fa' = free_set fa - {i} \<and>
         fa_free_frames fa' = fa_free_frames fa - 1)"
proof -
  obtain fa' r where run: "frame_alloc fa = Some (fa', r)" "fa_inv fa'" "fa_frame fa' = fa_frame fa"
    and spec: "case r of
       None \<Rightarrow> fa' = fa \<and> free_set fa = {}
     | Some f \<Rightarrow> \<exists>i \<in> free_set fa. (\<forall>j \<in> free_set fa. i \<le> j) \<and> frame_address f = frame_addr fa i \<and>
         free_set fa' = free_set fa - {i}"
    using frame_alloc_eq [OF assms] by blast
  show ?thesis
  proof (cases r)
    case None
    then show ?thesis using run spec assms by (auto simp: fa_inv_def)
  next
    case (Some f)
    then obtain i where i: "i \<in> free_set fa" "\<forall>j \<in> free_set fa. i \<le> j" "frame_address f = frame_addr fa i"
      "free_set fa' = free_set fa - {i}" using spec by auto
    have "i = Min (free_set fa)" using i(1,2) by (intro Min_eqI [symmetric]) auto
    moreover have "\<not> reserved_at fa (frame_address f)"
      using assms i(1,3) by (auto simp: fa_inv_def free_set_def free_at_def)
    moreover have "fa_free_frames fa' = fa_free_frames fa - 1"
      using run(2) assms i(1,4) by (simp add: fa_inv_def)
    ultimately show ?thesis using run i Some by auto
  qed
qed

theorem frame_alloc_lowest_witness:
  "fa_inv sample_fa \<and> (\<exists>fa' f. frame_alloc sample_fa = Some (fa', Some f) \<and> frame_address f = 1048576)"
proof -
  have "map_option (\<lambda>(fa', r). map_option frame_address r) (frame_alloc sample_fa) = Some (Some 1048576)"
    by code_simp
  then show ?thesis using frame_alloc_lowest [OF sample_fa_inv] sample_fa_inv by auto
qed

text \<open>
  C9. \<open>free\<close> rejects, without changing the allocator, an address that is not a managed frame, a
  reserved frame, a frame that never was allocatable and a frame that is already free, each with
  its own error; any other frame is allocatable and in use, and it becomes free again.
\<close>

theorem frame_free_classifies:
  assumes "fa_inv fa"
  shows "\<exists>fa' r. frame_free fa \<lparr> frame_address = a \<rparr> = Some (fa', r) \<and> fa_inv fa' \<and>
    (case r of
       Inl (NotManaged x) \<Rightarrow> fa' = fa \<and> x = a \<and>
         (\<forall>i < fa_frames fa. a = frame_addr fa i \<longrightarrow> \<not> bm (fa_allocatable fa) i)
     | Inl (FrameReserved x) \<Rightarrow> fa' = fa \<and> x = a \<and> reserved_at fa a
     | Inl (AlreadyFree x) \<Rightarrow> fa' = fa \<and> x = a \<and> (\<exists>i \<in> free_set fa. a = frame_addr fa i)
     | Inr _ \<Rightarrow> (\<exists>i < fa_frames fa. a = frame_addr fa i \<and> bm (fa_allocatable fa) i \<and> i \<notin> free_set fa \<and>
         free_set fa' = insert i (free_set fa) \<and> fa_free_frames fa' = fa_free_frames fa + 1))"
proof (cases "free_error fa a")
  case None
  have rsv: "\<not> reserved_at fa a" and al: "bm (fa_allocatable fa) (a div PAGE_SIZE - fa_first_frame fa)"
    using None by (auto simp: free_error_def split: if_splits)
  obtain fa' i where run: "frame_free fa \<lparr> frame_address = a \<rparr> = Some (fa', Inr ())" "fa_inv fa'" "i < fa_frames fa"
    "i \<notin> free_set fa" "a = frame_addr fa i" "free_set fa' = insert i (free_set fa)"
    using frame_free_eq [OF assms, of "\<lparr> frame_address = a \<rparr>"] None by auto
  moreover have "fa_free_frames fa' = fa_free_frames fa + 1"
    using run assms by (simp add: fa_inv_def)
  moreover have "bm (fa_allocatable fa) i" using al run(5) addr_index [of fa i] by simp
  ultimately show ?thesis by auto
next
  case (Some e)
  have "frame_free fa \<lparr> frame_address = a \<rparr> = Some (fa, Inl e)"
    using frame_free_eq [OF assms, of "\<lparr> frame_address = a \<rparr>"] Some by simp
  moreover have "case e of
      NotManaged x \<Rightarrow> x = a \<and> (\<forall>i < fa_frames fa. a = frame_addr fa i \<longrightarrow> \<not> bm (fa_allocatable fa) i)
    | FrameReserved x \<Rightarrow> x = a \<and> reserved_at fa a
    | AlreadyFree x \<Rightarrow> x = a \<and> (\<exists>i \<in> free_set fa. a = frame_addr fa i)"
    using Some by (auto simp: free_error_def addr_index frame_addr_inj split: if_splits)
  ultimately show ?thesis
    using assms by (cases e) auto
qed

theorem frame_free_classifies_witness:
  "fa_inv sample_fa \<and> frame_free sample_fa \<lparr> frame_address = 1052672 \<rparr> = Some (sample_fa, Inl (FrameReserved 1052672)) \<and>
   reserved_at sample_fa 1052672"
proof -
  have "map_option snd (frame_free sample_fa \<lparr> frame_address = 1052672 \<rparr>) = Some (Inl (FrameReserved 1052672))"
    by code_simp
  then show ?thesis
    using frame_free_classifies [OF sample_fa_inv, of 1052672] sample_fa_inv by auto
qed

text \<open>Releasing the frames of a list one by one; an error stops it.\<close>

fun free_list_of :: "FrameAllocator \<Rightarrow> nat list \<Rightarrow> FrameAllocator panics" where
  "free_list_of fa [] = Some fa"
| "free_list_of fa (a # as) = do {
     (fa', r) \<leftarrow> frame_free fa \<lparr> frame_address = a \<rparr>;
     case r of Inl _ \<Rightarrow> None | Inr _ \<Rightarrow> free_list_of fa' as
   }"

lemma frame_free_used:
  assumes inv: "fa_inv fa" and i: "i < fa_frames fa" "bm (fa_allocatable fa) i" "i \<notin> free_set fa"
  shows "\<exists>fa'. frame_free fa \<lparr> frame_address = frame_addr fa i \<rparr> = Some (fa', Inr ()) \<and> fa_inv fa' \<and>
    free_set fa' = insert i (free_set fa) \<and> fa_frame fa' = fa_frame fa"
proof -
  have "free_error fa (frame_addr fa i) = None"
    using inv i by (auto simp: free_error_def addr_index fa_inv_def)
  then show ?thesis
    using frame_free_eq [OF inv, of "\<lparr> frame_address = frame_addr fa i \<rparr>"] by (auto simp: frame_addr_inj)
qed

lemma free_list_of_eq:
  assumes "fa_inv fa" "distinct is" "\<forall>i \<in> set is. i < fa_frames fa \<and> bm (fa_allocatable fa) i \<and> i \<notin> free_set fa"
  shows "\<exists>fa'. free_list_of fa (map (frame_addr fa) is) = Some fa' \<and> fa_inv fa' \<and>
    free_set fa' = free_set fa \<union> set is \<and> fa_frame fa' = fa_frame fa"
  using assms
proof (induction "is" arbitrary: fa)
  case Nil
  then show ?case by simp
next
  case (Cons i "is")
  obtain fa1 where fa1: "frame_free fa \<lparr> frame_address = frame_addr fa i \<rparr> = Some (fa1, Inr ())" "fa_inv fa1"
    "free_set fa1 = insert i (free_set fa)" "fa_frame fa1 = fa_frame fa"
    using frame_free_used [of fa i] Cons.prems by auto
  have "\<exists>fa'. free_list_of fa1 (map (frame_addr fa1) is) = Some fa' \<and> fa_inv fa' \<and>
      free_set fa' = free_set fa1 \<union> set is \<and> fa_frame fa' = fa_frame fa1"
    using Cons.prems fa1 fa_frame_simps [OF fa1(4)] by (intro Cons.IH) auto
  then show ?case using fa1 fa_frame_simps(2) [OF fa1(4)] by auto
qed

text \<open>
  Round trip: after a successful \<open>alloc_contiguous(n)\<close>, releasing the \<open>n\<close> frames of the range one
  by one succeeds and gives back the free set and the free counter from before; releasing one of
  them a second time reports \<open>AlreadyFree\<close>.
\<close>

theorem alloc_free_round_trip:
  assumes "fa_inv fa" "alloc_contiguous fa n = Some (fa1, Some g)"
  shows "\<exists>fa2. free_list_of fa1 (map (\<lambda>k. range_start g + k * PAGE_SIZE) [0..<n]) = Some fa2 \<and> fa_inv fa2 \<and>
     free_set fa2 = free_set fa \<and> fa_free_frames fa2 = fa_free_frames fa \<and>
     frame_free fa2 \<lparr> frame_address = range_start g \<rparr> = Some (fa2, Inl (AlreadyFree (range_start g)))"
proof -
  have n: "0 < n" using assms(2) by (auto simp: alloc_contiguous_def intro: ccontr)
  obtain s where s: "is_run (free_set fa) n s" "range_start g = frame_addr fa s"
    "free_set fa1 = free_set fa - {s..<s + n}" "fa_inv fa1" "fa_frame fa1 = fa_frame fa"
    using alloc_contiguous_eq [OF assms(1) n] assms(2) by (auto simp: first_run_def)
  note same = fa_frame_simps [OF s(5)]
  have sub: "{s..<s + n} \<subseteq> free_set fa" using s(1) by (simp add: is_run_def)
  then have fr: "\<forall>i \<in> set [s..<s + n]. i < fa_frames fa1 \<and> bm (fa_allocatable fa1) i \<and> i \<notin> free_set fa1"
    unfolding s(3) same by (auto simp: free_set_def free_at_def)
  obtain fa2 where fa2: "free_list_of fa1 (map (frame_addr fa1) [s..<s + n]) = Some fa2" "fa_inv fa2"
    "free_set fa2 = free_set fa1 \<union> {s..<s + n}" "fa_frame fa2 = fa_frame fa1"
    using free_list_of_eq [OF s(4) _ fr] by auto
  have set: "free_set fa2 = free_set fa" using fa2(3) s(3) sub by auto
  have addrs: "map (frame_addr fa1) [s..<s + n] = map (\<lambda>k. range_start g + k * PAGE_SIZE) [0..<n]"
    by (intro nth_equalityI) (simp_all add: s(2) frame_addr_def same algebra_simps)
  have "s \<in> free_set fa2" using set sub n by auto
  moreover have addr: "frame_addr fa2 = frame_addr fa" using fa_frame_simps(2) [OF fa2(4)] same by simp
  ultimately have "free_error fa2 (range_start g) = Some (AlreadyFree (range_start g))"
    using fa2(2) s(2) addr_index [of fa2 s] unfolding addr [symmetric]
    by (auto simp: free_error_def fa_inv_def free_set_def free_at_def)
  then have "frame_free fa2 \<lparr> frame_address = range_start g \<rparr> = Some (fa2, Inl (AlreadyFree (range_start g)))"
    using frame_free_eq [OF fa2(2), of "\<lparr> frame_address = range_start g \<rparr>"] by simp
  then show ?thesis
    using fa2 set assms(1) unfolding addrs by (auto simp: fa_inv_def)
qed

theorem alloc_free_round_trip_witness:
  "\<exists>fa1 g fa2. alloc_contiguous sample_fa 3 = Some (fa1, Some g) \<and>
     free_list_of fa1 (map (\<lambda>k. range_start g + k * PAGE_SIZE) [0..<3]) = Some fa2 \<and>
     fa_free_frames fa2 = fa_free_frames sample_fa"
proof -
  have "map_option (\<lambda>(fa', r). r \<noteq> None) (alloc_contiguous sample_fa 3) = Some True" by code_simp
  then obtain fa1 g where "alloc_contiguous sample_fa 3 = Some (fa1, Some g)" by auto
  then show ?thesis using alloc_free_round_trip [OF sample_fa_inv] by blast
qed

text \<open>
  A map that lists a conventional region twice is accepted by the parser; the counter then counts
  its frames twice and is no longer the number of free frames, against the comment on \<open>free_frames\<close>.
\<close>

lemma overlapping_regions_counted_twice:
  "do { m \<leftarrow> from_bytes (concat (map (encode_descriptor 40) (replicate 2 (hd sample_regions)))) 2 40 1;
        r \<leftarrow> frame_init [0, 0] (projr m) [] sample_config;
        Some (fa_free_frames (projr r), fa_frames (projr r)) } = Some (16, 8)"
  by code_simp

end
