(* ===== verification/Free_List.thy ===== *)
theory Free_List
  imports Prelude
begin

text \<open>
  The kernel heap's free list, \<^verbatim>\<open>src/crates/kernel-memory/src/heap.rs\<close>: a first-fit allocator whose
  block headers live inside the arena it manages.

  The model works on the arena's bytes, as the code does.  This theory holds the definitions; the
  proofs about them are in \<open>Heap_Tiling\<close> and \<open>Heap_Contract\<close>.
\<close>

section \<open>Data\<close>

definition HEADER_SIZE :: usize where [rust_consts]: "HEADER_SIZE = 24"
definition MIN_PAYLOAD :: usize where [rust_consts]: "MIN_PAYLOAD = 16"
definition MIN_BLOCK :: usize where [rust_consts]: "MIN_BLOCK = HEADER_SIZE + MIN_PAYLOAD"
definition HEADER_ALIGN :: usize where [rust_consts]: "HEADER_ALIGN = 8"
definition MAX_ALIGN :: usize where [rust_consts]: "MAX_ALIGN = 4096"
definition MAGIC_FREE :: u32 where [rust_consts]: "MAGIC_FREE = 1179796805"
definition MAGIC_ALLOC :: u32 where [rust_consts]: "MAGIC_ALLOC = 1095519311"
definition NIL :: usize where [rust_consts]: "NIL = USIZE_MAX"

datatype FreeListError = OutOfArena usize | BlockAlreadyFree usize | NotAllocated usize | Corrupted usize

record HeapStats =
  hs_free_blocks :: usize
  hs_free_bytes :: usize
  hs_largest_free :: usize

record FreeList =
  fl_head :: usize
  fl_arena_len :: usize
  fl_free_blocks :: usize
  fl_free_bytes :: usize
  fl_largest_free :: usize

section \<open>Headers\<close>

text \<open>Rounding up; every caller passes a power of two, so that \<open>align - 1\<close> does not underflow.\<close>

definition align_up :: "usize \<Rightarrow> usize \<Rightarrow> usize option" where
  "align_up v align = map_option (\<lambda>v. and_not v (align - 1)) (uadd v (align - 1))"

definition write_header :: "bytes \<Rightarrow> usize \<Rightarrow> u32 \<Rightarrow> usize \<Rightarrow> usize \<Rightarrow> bytes panics" where
  "write_header arena offset magic sz nxt = do {
     arena \<leftarrow> copy_into arena offset (to_le_bytes 4 magic);
     o4 \<leftarrow> uadd offset 4;
     arena \<leftarrow> copy_into arena o4 (to_le_bytes 4 0);
     o8 \<leftarrow> uadd offset 8;
     arena \<leftarrow> copy_into arena o8 (to_le_bytes 8 sz);
     o16 \<leftarrow> uadd offset 16;
     copy_into arena o16 (to_le_bytes 8 nxt)
   }"

definition read_header :: "bytes \<Rightarrow> usize \<Rightarrow> (u32 \<times> usize \<times> usize) option" where
  "read_header arena offset = do {
     stop \<leftarrow> uadd offset HEADER_SIZE;
     h \<leftarrow> slice arena offset stop;
     Some (from_le_bytes (sub h 0 4), from_le_bytes (sub h 8 8), from_le_bytes (sub h 16 8))
   }"

section \<open>Construction and queries\<close>

definition fl_empty :: FreeList where
  "fl_empty = \<lparr> fl_head = NIL, fl_arena_len = 0, fl_free_blocks = 0, fl_free_bytes = 0, fl_largest_free = 0 \<rparr>"

definition fl_init :: "bytes \<Rightarrow> (FreeList \<times> bytes) panics" where
  "fl_init arena = (let n = and_not (length arena) (HEADER_ALIGN - 1) in
     if n < MIN_BLOCK then Some (fl_empty, arena)
     else do {
       arena' \<leftarrow> write_header arena 0 MAGIC_FREE n NIL;
       free \<leftarrow> usub n HEADER_SIZE;
       Some (\<lparr> fl_head = 0, fl_arena_len = n, fl_free_blocks = 1, fl_free_bytes = free,
               fl_largest_free = free \<rparr>, arena')
     })"

definition fl_stats :: "FreeList \<Rightarrow> HeapStats" where
  "fl_stats fl = \<lparr> hs_free_blocks = fl_free_blocks fl, hs_free_bytes = fl_free_bytes fl,
     hs_largest_free = fl_largest_free fl \<rparr>"

definition fl_is_empty :: "FreeList \<Rightarrow> bool" where
  "fl_is_empty fl = (fl_head fl = NIL)"

definition arena_matches :: "FreeList \<Rightarrow> bytes \<Rightarrow> bool" where
  "arena_matches fl arena = (and_not (length arena) (HEADER_ALIGN - 1) = fl_arena_len fl)"

definition max_blocks :: "FreeList \<Rightarrow> usize panics" where
  "max_blocks fl = uadd (fl_arena_len fl div HEADER_ALIGN) 2"

text \<open>The three walks over the list count their steps and give up beyond \<open>max_blocks\<close>.\<close>

function previous_free_loop :: "FreeList \<Rightarrow> bytes \<Rightarrow> usize \<Rightarrow> usize \<Rightarrow> usize \<Rightarrow> usize \<Rightarrow> usize option panics" where
  "previous_free_loop fl arena target previous cur guard =
     (if cur = NIL then Some None
      else do {
        guard' \<leftarrow> uadd guard 1;
        mb \<leftarrow> max_blocks fl;
        if guard' > mb then Some None
        else if cur = target then Some (Some previous)
        else case read_header arena cur of
          None \<Rightarrow> Some None
        | Some (_, _, nxt) \<Rightarrow> previous_free_loop fl arena target cur nxt guard'
      })"
  by pat_completeness auto

termination
  by (relation "measure (\<lambda>(fl, arena, target, previous, cur, guard). Suc (the (max_blocks fl)) - guard)")
    (auto simp: panic_simps)

definition previous_free :: "FreeList \<Rightarrow> bytes \<Rightarrow> usize \<Rightarrow> usize option panics" where
  "previous_free fl arena target = previous_free_loop fl arena target NIL (fl_head fl) 0"

function recompute_loop :: "FreeList \<Rightarrow> bytes \<Rightarrow> usize \<Rightarrow> usize \<Rightarrow> usize \<Rightarrow> usize \<Rightarrow> usize \<Rightarrow> (usize \<times> usize \<times> usize) panics" where
  "recompute_loop fl arena blocks total_free largest cur guard =
     (if cur = NIL then Some (blocks, total_free, largest)
      else do {
        guard' \<leftarrow> uadd guard 1;
        mb \<leftarrow> max_blocks fl;
        if guard' > mb then Some (blocks, total_free, largest)
        else case read_header arena cur of
          None \<Rightarrow> Some (blocks, total_free, largest)
        | Some (magic, sz, nxt) \<Rightarrow>
            if magic \<noteq> MAGIC_FREE \<or> sz < HEADER_SIZE then Some (blocks, total_free, largest)
            else do {
              stop \<leftarrow> uadd cur sz;
              if stop > fl_arena_len fl then Some (blocks, total_free, largest)
              else do {
                blocks' \<leftarrow> uadd blocks 1;
                payload \<leftarrow> usub sz HEADER_SIZE;
                total' \<leftarrow> uadd total_free payload;
                recompute_loop fl arena blocks' total' (max largest payload) nxt guard'
              }
            }
      })"
  by pat_completeness auto

termination
  by (relation "measure (\<lambda>(fl, arena, blocks, total_free, largest, cur, guard). Suc (the (max_blocks fl)) - guard)")
    (auto simp: panic_simps)

definition recompute :: "FreeList \<Rightarrow> bytes \<Rightarrow> FreeList panics" where
  "recompute fl arena = do {
     (blocks, total_free, largest) \<leftarrow> recompute_loop fl arena 0 0 0 (fl_head fl) 0;
     Some (fl\<lparr>fl_free_blocks := blocks, fl_free_bytes := total_free, fl_largest_free := largest\<rparr>)
   }"

declare previous_free_loop.simps [simp del] recompute_loop.simps [simp del]

section \<open>Allocation\<close>

text \<open>
  Where the payload goes in a free block: right after the header, or far enough behind it for the
  gap in front to be a free block of its own.
\<close>

definition place :: "usize \<Rightarrow> usize \<Rightarrow> (usize \<times> usize) option panics" where
  "place payload_min align =
     (case align_up payload_min align of
        None \<Rightarrow> Some None
      | Some payload \<Rightarrow> do {
          front_gap \<leftarrow> usub payload payload_min;
          if front_gap > 0 \<and> front_gap < MIN_BLOCK then
            (case uadd payload_min MIN_BLOCK of
               None \<Rightarrow> Some None
             | Some v \<Rightarrow>
                 (case align_up v align of
                    None \<Rightarrow> Some None
                  | Some payload \<Rightarrow> do { front_gap \<leftarrow> usub payload payload_min; Some (Some (payload, front_gap)) }))
          else Some (Some (payload, front_gap))
        })"

text \<open>Carving the allocation out of the free block at \<open>cur\<close>, once it fits.\<close>

definition carve :: "FreeList \<Rightarrow> bytes \<Rightarrow> usize \<Rightarrow> usize \<Rightarrow> usize \<Rightarrow> usize \<Rightarrow> usize \<Rightarrow> usize \<Rightarrow> usize \<Rightarrow>
    (FreeList \<times> bytes \<times> usize option) panics" where
  "carve fl arena previous cur nxt block_end payload front_gap payload_end = do {
     header_offset \<leftarrow> usub payload HEADER_SIZE;
     case align_up payload_end HEADER_ALIGN of
       None \<Rightarrow> Some (fl, arena, None)
     | Some tail_start \<Rightarrow>
         (case usub block_end tail_start of
            None \<Rightarrow> Some (fl, arena, None)
          | Some tail \<Rightarrow> do {
              let tail_block = (if tail \<ge> MIN_BLOCK then Some tail else None);
              alloc_size \<leftarrow> (if tail_block \<noteq> None then usub tail_start header_offset else usub block_end header_offset);
              case (if previous = NIL then Some 0 else map_option (\<lambda>(_, n, _). n) (read_header arena previous)) of
                None \<Rightarrow> Some (fl, arena, None)
              | Some previous_size \<Rightarrow> do {
                  arena \<leftarrow> write_header arena header_offset MAGIC_ALLOC alloc_size NIL;
                  (arena, new_next) \<leftarrow>
                    (case tail_block of
                       None \<Rightarrow> Some (arena, nxt)
                     | Some tail_size \<Rightarrow> do {
                         arena \<leftarrow> write_header arena tail_start MAGIC_FREE tail_size nxt;
                         Some (arena, tail_start)
                       });
                  (arena, new_next) \<leftarrow>
                    (if front_gap > 0 then do {
                       arena \<leftarrow> write_header arena cur MAGIC_FREE front_gap new_next;
                       Some (arena, cur)
                     }
                     else Some (arena, new_next));
                  (fl, arena) \<leftarrow>
                    (if previous = NIL then Some (fl\<lparr>fl_head := new_next\<rparr>, arena)
                     else do {
                       arena \<leftarrow> write_header arena previous MAGIC_FREE previous_size new_next;
                       Some (fl, arena)
                     });
                  fl \<leftarrow> recompute fl arena;
                  Some (fl, arena, Some payload)
                }
            })
   }"

function alloc_loop :: "FreeList \<Rightarrow> bytes \<Rightarrow> usize \<Rightarrow> usize \<Rightarrow> usize \<Rightarrow> usize \<Rightarrow> usize \<Rightarrow>
    (FreeList \<times> bytes \<times> usize option) panics" where
  "alloc_loop fl arena sz align previous cur guard =
     (if cur = NIL then Some (fl, arena, None)
      else do {
        guard' \<leftarrow> uadd guard 1;
        mb \<leftarrow> max_blocks fl;
        if guard' > mb then Some (fl, arena, None)
        else case read_header arena cur of
          None \<Rightarrow> Some (fl, arena, None)
        | Some (magic, block_size, nxt) \<Rightarrow>
            if magic \<noteq> MAGIC_FREE \<or> block_size < HEADER_SIZE then Some (fl, arena, None)
            else (case uadd cur block_size of
              None \<Rightarrow> Some (fl, arena, None)
            | Some block_end \<Rightarrow>
                if block_end > fl_arena_len fl then Some (fl, arena, None)
                else do {
                  payload_min \<leftarrow> uadd cur HEADER_SIZE;
                  placed \<leftarrow> place payload_min align;
                  case placed of
                    None \<Rightarrow> Some (fl, arena, None)
                  | Some (payload, front_gap) \<Rightarrow>
                      (case uadd payload sz of
                         None \<Rightarrow> Some (fl, arena, None)
                       | Some payload_end \<Rightarrow>
                           if payload_end > block_end then alloc_loop fl arena sz align cur nxt guard'
                           else carve fl arena previous cur nxt block_end payload front_gap payload_end)
                })
      })"
  by pat_completeness auto

termination
  by (relation "measure (\<lambda>(fl, arena, sz, align, previous, cur, guard). Suc (the (max_blocks fl)) - guard)")
    (auto simp: panic_simps)

definition fl_alloc :: "FreeList \<Rightarrow> bytes \<Rightarrow> usize \<Rightarrow> usize \<Rightarrow> (FreeList \<times> bytes \<times> usize option) panics" where
  "fl_alloc fl arena sz align =
     (if sz = 0 \<or> \<not> is_power_of_two align \<or> align > MAX_ALIGN \<or> fl_head fl = NIL \<or> \<not> arena_matches fl arena
      then Some (fl, arena, None)
      else alloc_loop fl arena sz align NIL (fl_head fl) 0)"

section \<open>Release\<close>

text \<open>The search for the insertion point: the free blocks before and behind the released one.\<close>

function find_place :: "FreeList \<Rightarrow> bytes \<Rightarrow> usize \<Rightarrow> usize \<Rightarrow> usize \<Rightarrow> usize \<Rightarrow> usize \<Rightarrow> usize \<Rightarrow>
    (FreeListError + usize \<times> usize) panics" where
  "find_place fl arena offset header block_end previous cur guard =
     (if cur = NIL then Some (Inr (previous, cur))
      else do {
        guard' \<leftarrow> uadd guard 1;
        mb \<leftarrow> max_blocks fl;
        if guard' > mb then Some (Inl (Corrupted cur))
        else case read_header arena cur of
          None \<Rightarrow> Some (Inl (Corrupted cur))
        | Some (magic, sz, nxt) \<Rightarrow>
            if magic \<noteq> MAGIC_FREE \<or> sz < HEADER_SIZE then Some (Inl (Corrupted cur))
            else do {
              stop \<leftarrow> uadd cur sz;
              if stop > fl_arena_len fl then Some (Inl (Corrupted cur))
              else if cur \<ge> header then
                (if cur < block_end then Some (Inl (BlockAlreadyFree offset)) else Some (Inr (previous, cur)))
              else if stop > header then Some (Inl (BlockAlreadyFree offset))
              else find_place fl arena offset header block_end cur nxt guard'
            }
      })"
  by pat_completeness auto

termination
  by (relation "measure (\<lambda>(fl, arena, offset, header, block_end, previous, cur, guard). Suc (the (max_blocks fl)) - guard)")
    (auto simp: panic_simps)

text \<open>Swallowing the free block right behind, and extending the free block right before.\<close>

definition merge_next :: "bytes \<Rightarrow> usize \<Rightarrow> usize \<Rightarrow> usize \<Rightarrow> (FreeListError + usize \<times> usize) panics" where
  "merge_next arena block_size block_end cur =
     (if cur \<noteq> NIL \<and> block_end = cur then
        (case read_header arena cur of
           None \<Rightarrow> Some (Inl (Corrupted cur))
         | Some (_, next_size, next_next) \<Rightarrow> do {
             sz \<leftarrow> uadd block_size next_size;
             Some (Inr (sz, next_next))
           })
      else Some (Inr (block_size, cur)))"

definition merge_previous :: "FreeList \<Rightarrow> bytes \<Rightarrow> usize \<Rightarrow> usize \<Rightarrow> usize \<Rightarrow>
    (FreeListError + usize \<times> usize \<times> usize) panics" where
  "merge_previous fl arena start sz previous =
     (if previous \<noteq> NIL then
        (case read_header arena previous of
           None \<Rightarrow> Some (Inl (Corrupted previous))
         | Some (_, previous_size, _) \<Rightarrow> do {
             e \<leftarrow> uadd previous previous_size;
             if e = start then do {
               sz \<leftarrow> uadd sz previous_size;
               pp \<leftarrow> previous_free fl arena previous;
               case pp of
                 None \<Rightarrow> Some (Inl (Corrupted previous))
               | Some pp \<Rightarrow> Some (Inr (previous, sz, pp))
             }
             else Some (Inr (start, sz, previous))
           })
      else Some (Inr (start, sz, previous)))"

text \<open>Linking the released block in, merged with its free neighbours.\<close>

definition insert_block :: "FreeList \<Rightarrow> bytes \<Rightarrow> usize \<Rightarrow> usize \<Rightarrow> usize \<Rightarrow> usize \<Rightarrow> usize \<Rightarrow>
    (FreeList \<times> bytes \<times> (FreeListError + unit)) panics" where
  "insert_block fl arena header block_size block_end previous cur = do {
     r \<leftarrow> merge_next arena block_size block_end cur;
     case r of
       Inl e \<Rightarrow> Some (fl, arena, Inl e)
     | Inr (sz, cur) \<Rightarrow> do {
         r \<leftarrow> merge_previous fl arena header sz previous;
         case r of
           Inl e \<Rightarrow> Some (fl, arena, Inl e)
         | Inr (start, sz, previous) \<Rightarrow> do {
             arena \<leftarrow> write_header arena start MAGIC_FREE sz cur;
             if previous = NIL then do {
               fl \<leftarrow> recompute (fl\<lparr>fl_head := start\<rparr>) arena;
               Some (fl, arena, Inr ())
             }
             else case read_header arena previous of
               None \<Rightarrow> Some (fl, arena, Inl (Corrupted previous))
             | Some (_, previous_size, _) \<Rightarrow> do {
                 arena \<leftarrow> write_header arena previous MAGIC_FREE previous_size start;
                 fl \<leftarrow> recompute fl arena;
                 Some (fl, arena, Inr ())
               }
           }
       }
   }"

definition fl_dealloc :: "FreeList \<Rightarrow> bytes \<Rightarrow> usize \<Rightarrow> (FreeList \<times> bytes \<times> (FreeListError + unit)) panics" where
  "fl_dealloc fl arena offset =
     (if \<not> arena_matches fl arena \<or> offset < HEADER_SIZE \<or> offset \<ge> fl_arena_len fl \<or>
         \<not> is_multiple_of offset HEADER_ALIGN
      then Some (fl, arena, Inl (OutOfArena offset))
      else do {
        header \<leftarrow> usub offset HEADER_SIZE;
        case read_header arena header of
          None \<Rightarrow> Some (fl, arena, Inl (Corrupted header))
        | Some (magic, block_size, _) \<Rightarrow>
            if magic = MAGIC_FREE then Some (fl, arena, Inl (BlockAlreadyFree offset))
            else if magic \<noteq> MAGIC_ALLOC then Some (fl, arena, Inl (NotAllocated offset))
            else (case uadd header block_size of
              None \<Rightarrow> Some (fl, arena, Inl (Corrupted header))
            | Some block_end \<Rightarrow>
                if block_size < HEADER_SIZE \<or> block_end > fl_arena_len fl
                then Some (fl, arena, Inl (Corrupted header))
                else do {
                  found \<leftarrow> find_place fl arena offset header block_end NIL (fl_head fl) 0;
                  case found of
                    Inl e \<Rightarrow> Some (fl, arena, Inl e)
                  | Inr (previous, cur) \<Rightarrow> insert_block fl arena header block_size block_end previous cur
                })
      })"

declare alloc_loop.simps [simp del] find_place.simps [simp del]

end
