(* ===== verification/Heap_Tiling.thy ===== *)
theory Heap_Tiling
  imports Free_List
begin

text \<open>
  The abstraction of the heap: a tiling of the arena by blocks, each free or live.  \<open>tiles\<close> relates
  the headers in memory to it and \<open>heap_inv\<close> adds that the tiling covers the arena, that no two
  neighbours are free and that the statistics are right.  \<open>alloc_abs\<close> and \<open>free_abs\<close> say what
  allocation and release do to the tiling, and the lemmas show that the code does it.
\<close>

section \<open>Reading and writing headers\<close>

definition hdr :: "nat \<Rightarrow> nat \<Rightarrow> nat \<Rightarrow> bytes" where
  "hdr m n x = to_le_bytes 4 m @ to_le_bytes 4 0 @ to_le_bytes 8 n @ to_le_bytes 8 x"

lemma length_hdr [simp]: "length (hdr m n x) = 24"
  by (simp add: hdr_def)

lemma write_header_eq:
  assumes "off + 24 \<le> length a" "length a \<le> U64_MAX"
  shows "write_header a off m n x = Some (put a off (hdr m n x))"
proof -
  have "put (put (put (put a off (to_le_bytes 4 m)) (off + 4) (to_le_bytes 4 0)) (off + 8) (to_le_bytes 8 n)) (off + 16)
      (to_le_bytes 8 x) = put a off (hdr m n x)"
    using assms(1) by (simp add: put_append hdr_def)
  then show ?thesis
    using assms by (simp add: write_header_def copy_into_def uadd_ok)
qed

lemma write_header_panics: "length a < off + 24 \<Longrightarrow> write_header a off m n x = None"
  by (cases "write_header a off m n x") (auto simp: write_header_def run_simps)

lemma read_header_eq:
  assumes "length a \<le> U64_MAX"
  shows "read_header a off = (if off + 24 \<le> length a
     then Some (from_le_bytes (sub a off 4), from_le_bytes (sub a (off + 8) 8), from_le_bytes (sub a (off + 16) 8)) else None)"
  using assms by (simp add: read_header_def uadd_def slice_def HEADER_SIZE_def sub_sub)

lemma read_header_put:
  assumes "off + 24 \<le> length a" "length a \<le> U64_MAX" "m \<le> U32_MAX" "n \<le> U64_MAX" "x \<le> U64_MAX"
  shows "read_header (put a off (hdr m n x)) off = Some (m, n, x)"
proof -
  have "sub (hdr m n x) 0 4 = to_le_bytes 4 m" "sub (hdr m n x) 8 8 = to_le_bytes 8 n" "sub (hdr m n x) 16 8 = to_le_bytes 8 x"
    by (simp_all add: hdr_def sub_def)
  then show ?thesis
    using assms by (simp add: read_header_eq sub_put_inside byte_simps)
qed

lemma read_header_put_other:
  assumes "off + 24 \<le> length a" "length a \<le> U64_MAX" "o' + 24 \<le> off \<or> off + 24 \<le> o'"
  shows "read_header (put a off (hdr m n x)) o' = read_header a o'"
  using assms by (auto simp: read_header_eq sub_put_disjoint)

section \<open>Tilings\<close>

datatype block = FreeB nat | LiveB nat

fun bsize :: "block \<Rightarrow> nat" where
  "bsize (FreeB n) = n"
| "bsize (LiveB n) = n"

fun is_FreeB :: "block \<Rightarrow> bool" where
  "is_FreeB (FreeB n) = True"
| "is_FreeB (LiveB n) = False"

definition span :: "block list \<Rightarrow> nat" where
  "span bs = sum_list (map bsize bs)"

lemma span_simps [simp]:
  "span [] = 0" "span (b # bs) = bsize b + span bs" "span (xs @ ys) = span xs + span ys"
  by (simp_all add: span_def)

text \<open>The first free block of a tiling that starts at \<open>off\<close>, or else what follows it; the last one, or else what precedes it.\<close>

fun first_free :: "nat \<Rightarrow> block list \<Rightarrow> nat \<Rightarrow> nat" where
  "first_free off [] after = after"
| "first_free off (FreeB n # bs) after = off"
| "first_free off (LiveB n # bs) after = first_free (off + n) bs after"

fun last_free :: "nat \<Rightarrow> nat \<Rightarrow> block list \<Rightarrow> nat" where
  "last_free before off [] = before"
| "last_free before off (FreeB n # bs) = last_free off (off + n) bs"
| "last_free before off (LiveB n # bs) = last_free before (off + n) bs"

text \<open>\<open>tiles a off bs after\<close>: the headers in memory describe \<open>bs\<close> from \<open>off\<close> on; the last free block links to \<open>after\<close>.\<close>

fun tiles :: "bytes \<Rightarrow> nat \<Rightarrow> block list \<Rightarrow> nat \<Rightarrow> bool" where
  "tiles a off [] after = True"
| "tiles a off (FreeB n # bs) after \<longleftrightarrow>
     read_header a off = Some (MAGIC_FREE, n, first_free (off + n) bs after) \<and> tiles a (off + n) bs after"
| "tiles a off (LiveB n # bs) after \<longleftrightarrow>
     read_header a off = Some (MAGIC_ALLOC, n, NIL) \<and> tiles a (off + n) bs after"

fun separated :: "block list \<Rightarrow> bool" where
  "separated (FreeB m # FreeB n # bs) = False"
| "separated (b # bs) = separated bs"
| "separated [] = True"

definition blocks_ok :: "block list \<Rightarrow> bool" where
  "blocks_ok bs \<longleftrightarrow> (\<forall>b \<in> set bs. 32 \<le> bsize b \<and> 8 dvd bsize b)"

lemma first_free_append: "first_free off (xs @ ys) after = first_free off xs (first_free (off + span xs) ys after)"
  by (induction off xs after rule: first_free.induct) (simp_all add: add.assoc)

lemma last_free_append: "last_free before off (xs @ ys) = last_free (last_free before off xs) (off + span xs) ys"
  by (induction before off xs rule: last_free.induct) (simp_all add: add.assoc)

lemma tiles_append:
  "tiles a off (xs @ ys) after \<longleftrightarrow> tiles a off xs (first_free (off + span xs) ys after) \<and> tiles a (off + span xs) ys after"
  by (induction a off xs after rule: tiles.induct) (auto simp: first_free_append add.assoc)

lemma blocks_ok_simps [simp]:
  "blocks_ok []" "blocks_ok (b # bs) \<longleftrightarrow> 32 \<le> bsize b \<and> 8 dvd bsize b \<and> blocks_ok bs"
  "blocks_ok (xs @ ys) \<longleftrightarrow> blocks_ok xs \<and> blocks_ok ys"
  by (auto simp: blocks_ok_def)

text \<open>A header written outside the range of a tiling leaves the tiling as it is.\<close>

lemma tiles_put_outside:
  assumes "off' + 24 \<le> length a" "length a \<le> U64_MAX" "blocks_ok bs" "off' + 24 \<le> off \<or> off + span bs \<le> off'"
  shows "tiles (put a off' (hdr m n x)) off bs after = tiles a off bs after"
  using assms(3,4)
proof (induction bs arbitrary: off)
  case Nil
  then show ?case by simp
next
  case (Cons b bs)
  then show ?case
    using Cons.IH [of "off + bsize b"] read_header_put_other [OF assms(1,2), of off]
    by (cases b) auto
qed

text \<open>Rewriting the header of the last free block relinks the list.\<close>

lemma last_free_in:
  assumes "blocks_ok bs" "last_free NIL off bs \<noteq> NIL"
  shows "\<exists>xs n ls. bs = xs @ FreeB n # ls \<and> last_free NIL off bs = off + span xs \<and> (\<forall>b \<in> set ls. \<not> is_FreeB b)"
  using assms
proof (induction bs arbitrary: rule: rev_induct)
  case Nil
  then show ?case by simp
next
  case (snoc b bs)
  show ?case
  proof (cases b)
    case (FreeB n)
    then show ?thesis by (intro exI [of _ bs] exI [of _ n] exI [of _ "[]"]) (simp add: last_free_append)
  next
    case (LiveB n)
    with snoc obtain xs k ls where "bs = xs @ FreeB k # ls" "last_free NIL off bs = off + span xs"
      "\<forall>b \<in> set ls. \<not> is_FreeB b"
      by (auto simp: last_free_append)
    with LiveB show ?thesis
      by (intro exI [of _ xs] exI [of _ k] exI [of _ "ls @ [b]"]) (auto simp: last_free_append)
  qed
qed

lemma last_free_none: "last_free NIL off bs = NIL \<Longrightarrow> off + span bs < NIL \<Longrightarrow> \<forall>b \<in> set bs. \<not> is_FreeB b"
proof (induction bs rule: rev_induct)
  case Nil
  then show ?case by simp
next
  case (snoc b bs)
  then show ?case by (cases b) (auto simp: last_free_append)
qed

lemma lives_first_free: "\<forall>b \<in> set ls. \<not> is_FreeB b \<Longrightarrow> first_free off ls after = after"
proof (induction ls arbitrary: off)
  case (Cons b ls)
  then show ?case by (cases b) auto
qed simp

lemma lives_last_free: "\<forall>b \<in> set ls. \<not> is_FreeB b \<Longrightarrow> last_free p off ls = p"
proof (induction ls arbitrary: off)
  case (Cons b ls)
  then show ?case by (cases b) auto
qed simp

lemma lives_tiles: "\<forall>b \<in> set ls. \<not> is_FreeB b \<Longrightarrow> tiles a off ls after = tiles a off ls after'"
proof (induction ls arbitrary: off)
  case (Cons b ls)
  then show ?case by (cases b) auto
qed simp

lemma tiles_relink:
  assumes t: "tiles a off (xs @ FreeB n # ls) after" and ls: "\<forall>b \<in> set ls. \<not> is_FreeB b"
    and ok: "blocks_ok (xs @ FreeB n # ls)" and len: "off + span xs + 24 \<le> length a" "length a \<le> U64_MAX"
    and vals: "n \<le> U64_MAX" "after' \<le> U64_MAX"
  shows "tiles (put a (off + span xs) (hdr MAGIC_FREE n after')) off (xs @ FreeB n # ls) after'"
proof -
  let ?p = "off + span xs"
  let ?a = "put a ?p (hdr MAGIC_FREE n after')"
  have "tiles a off xs ?p" "tiles a (?p + n) ls after" using t by (auto simp: tiles_append)
  then have "tiles ?a off xs ?p" "tiles ?a (?p + n) ls after'"
    using ok tiles_put_outside [OF len] lives_tiles [OF ls, of a "?p + n" after after'] by (auto simp: add.assoc)
  moreover have "read_header ?a ?p = Some (MAGIC_FREE, n, after')"
    using len vals by (intro read_header_put) (auto simp: rust_consts)
  ultimately show ?thesis
    using ls by (simp add: tiles_append lives_first_free)
qed

section \<open>The invariant\<close>

fun free_sizes :: "block list \<Rightarrow> nat list" where
  "free_sizes [] = []"
| "free_sizes (FreeB n # bs) = n # free_sizes bs"
| "free_sizes (LiveB n # bs) = free_sizes bs"

text \<open>The shape of the heap, and the statistics the list keeps about it.\<close>

definition heap_shape :: "FreeList \<Rightarrow> bytes \<Rightarrow> block list \<Rightarrow> bool" where
  "heap_shape fl a bs \<longleftrightarrow> length a \<le> ISIZE_MAX \<and> fl_arena_len fl = length a div 8 * 8 \<and> span bs = fl_arena_len fl \<and>
     blocks_ok bs \<and> separated bs \<and> tiles a 0 bs NIL \<and> fl_head fl = first_free 0 bs NIL"

definition stats_ok :: "FreeList \<Rightarrow> block list \<Rightarrow> bool" where
  "stats_ok fl bs \<longleftrightarrow> fl_free_blocks fl = length (free_sizes bs) \<and>
     fl_free_bytes fl = sum_list (map (\<lambda>n. n - 24) (free_sizes bs)) \<and>
     fl_largest_free fl = foldr max (map (\<lambda>n. n - 24) (free_sizes bs)) 0"

definition heap_inv :: "FreeList \<Rightarrow> bytes \<Rightarrow> block list \<Rightarrow> bool" where
  "heap_inv fl a bs \<longleftrightarrow> heap_shape fl a bs \<and> stats_ok fl bs"

lemma free_sizes_append [simp]: "free_sizes (xs @ ys) = free_sizes xs @ free_sizes ys"
  by (induction xs rule: free_sizes.induct) auto

lemma free_sizes_bound: "blocks_ok bs \<Longrightarrow> 24 * length (free_sizes bs) \<le> span bs"
  by (induction bs rule: free_sizes.induct) auto

lemma shape_bounds:
  assumes "heap_shape fl a bs"
  shows "length a \<le> U64_MAX" "span bs \<le> length a" "span bs \<le> ISIZE_MAX" "span bs < NIL"
    "max_blocks fl = Some (span bs div 8 + 2)" "length (free_sizes bs) + 2 \<le> span bs div 8 + 2"
proof -
  have l: "length a \<le> ISIZE_MAX" "span bs = length a div 8 * 8" "fl_arena_len fl = span bs" "blocks_ok bs"
    using assms by (simp_all add: heap_shape_def)
  show le: "span bs \<le> length a" unfolding l(2) by (rule div_times_less_eq_dividend)
  show "length a \<le> U64_MAX" "span bs \<le> ISIZE_MAX" "span bs < NIL"
    using l(1) le by (auto simp: rust_consts)
  then show "max_blocks fl = Some (span bs div 8 + 2)"
    using l(3) by (simp add: max_blocks_def HEADER_ALIGN_def uadd_def rust_consts)
  show "length (free_sizes bs) + 2 \<le> span bs div 8 + 2"
    using free_sizes_bound [OF l(4)] by linarith
qed

lemma arena_matches_shape: "heap_shape fl a bs \<Longrightarrow> arena_matches fl a"
  using and_not_mask [of "length a" 3]
  by (simp add: arena_matches_def heap_shape_def HEADER_ALIGN_def rust_consts)

lemma recompute_loop_eq:
  assumes "length a \<le> U64_MAX" "fl_arena_len fl \<le> ISIZE_MAX" "max_blocks fl = Some mb" "mb \<le> U64_MAX"
    "tiles a off bs NIL" "blocks_ok bs" "off + span bs \<le> fl_arena_len fl"
    "guard + length (free_sizes bs) \<le> mb" "b + length (free_sizes bs) \<le> U64_MAX" "t + span bs \<le> U64_MAX"
  shows "recompute_loop fl a b t l (first_free off bs NIL) guard =
    Some (b + length (free_sizes bs), t + sum_list (map (\<lambda>n. n - 24) (free_sizes bs)),
      max l (foldr max (map (\<lambda>n. n - 24) (free_sizes bs)) 0))"
  using assms(5-)
proof (induction bs arbitrary: off b t l guard)
  case Nil
  then show ?case by (subst recompute_loop.simps) simp
next
  case (Cons blk bs)
  show ?case
  proof (cases blk)
    case (LiveB n)
    then show ?thesis using Cons by (auto simp: add.assoc)
  next
    case (FreeB n)
    have "off \<noteq> NIL" "off + n \<le> U64_MAX"
      using Cons.prems(3) assms(2) FreeB by (auto simp: rust_consts)
    then show ?thesis
      using Cons.prems assms(3,4) FreeB Cons.IH [of "off + n" "guard + 1" "b + 1" "t + (n - 24)" "max l (n - 24)"]
      by (subst recompute_loop.simps) (simp add: uadd_ok usub_ok HEADER_SIZE_def max.assoc)
  qed
qed

lemma recompute_eq:
  assumes "heap_shape fl a bs"
  shows "\<exists>fl'. recompute fl a = Some fl' \<and> heap_inv fl' a bs \<and> fl_arena_len fl' = fl_arena_len fl"
proof -
  note b = shape_bounds [OF assms]
  have "recompute_loop fl a 0 0 0 (first_free 0 bs NIL) 0 = Some (0 + length (free_sizes bs),
      0 + sum_list (map (\<lambda>n. n - 24) (free_sizes bs)), max 0 (foldr max (map (\<lambda>n. n - 24) (free_sizes bs)) 0))"
    using assms b by (intro recompute_loop_eq [OF b(1) _ b(5)]) (auto simp: heap_shape_def rust_consts)
  moreover have "fl_head fl = first_free 0 bs NIL" using assms by (simp add: heap_shape_def)
  ultimately show ?thesis
    using assms by (simp add: recompute_def heap_inv_def heap_shape_def stats_ok_def)
qed

section \<open>Rounding and placing\<close>

definition round_up :: "nat \<Rightarrow> nat \<Rightarrow> nat" where
  "round_up v al = (v + (al - 1)) div al * al"

definition alignment :: "nat \<Rightarrow> bool" where
  "alignment al \<longleftrightarrow> (\<exists>k \<le> 12. al = 2 ^ k)"

lemma alignment_8 [simp]: "alignment 8"
  unfolding alignment_def by (rule exI [of _ 3]) simp

lemma alignment_pos: "alignment al \<Longrightarrow> 0 < al" "alignment al \<Longrightarrow> al \<le> 4096"
proof -
  assume "alignment al"
  then obtain k where k: "k \<le> 12" "al = 2 ^ k" by (auto simp: alignment_def)
  then show "0 < al" by simp
  have "(2 :: nat) ^ k \<le> 2 ^ 12" using k(1) by (intro power_increasing) auto
  then show "al \<le> 4096" using k(2) by simp
qed

lemma alignment_iff: "is_power_of_two al \<and> al \<le> MAX_ALIGN \<longleftrightarrow> alignment al"
proof
  assume "is_power_of_two al \<and> al \<le> MAX_ALIGN"
  then obtain k where k: "al = 2 ^ k" "2 ^ k \<le> (2 :: nat) ^ 12"
    by (auto simp: is_power_of_two_iff MAX_ALIGN_def)
  then have "k \<le> 12" by (simp only: power_increasing_iff)
  then show "alignment al" using k(1) by (auto simp: alignment_def)
next
  assume al: "alignment al"
  then obtain k where "k \<le> 12" "al = 2 ^ k" by (auto simp: alignment_def)
  then show "is_power_of_two al \<and> al \<le> MAX_ALIGN"
    using alignment_pos(2) [OF al] unfolding is_power_of_two_iff MAX_ALIGN_def by (auto intro!: exI [of _ k])
qed

lemma align_up_eq:
  assumes "alignment al" "v + 4096 \<le> U64_MAX"
  shows "align_up v al = Some (round_up v al)"
proof -
  obtain k where k: "k \<le> 12" "al = 2 ^ k" using assms(1) by (auto simp: alignment_def)
  have le: "v + (al - 1) \<le> U64_MAX" using assms(2) alignment_pos [OF assms(1)] by linarith
  then have "and_not (v + (al - 1)) (al - 1) = (v + (al - 1)) div al * al"
    using and_not_mask [of "v + (al - 1)" k] k by simp
  then show ?thesis using le by (simp add: align_up_def uadd_ok round_up_def)
qed

lemma round_up_bounds:
  assumes "0 < al"
  shows "v \<le> round_up v al" "round_up v al < v + al" "al dvd round_up v al"
proof -
  have "(v + (al - 1)) mod al + round_up v al = v + (al - 1)" by (simp add: round_up_def)
  moreover have "(v + (al - 1)) mod al < al" using assms by simp
  ultimately show "v \<le> round_up v al" "round_up v al < v + al" using assms by linarith+
  show "al dvd round_up v al" by (simp add: round_up_def)
qed

lemma round_up_least: "0 < al \<Longrightarrow> al dvd w \<Longrightarrow> v \<le> w \<Longrightarrow> round_up v al \<le> w"
proof -
  assume a: "0 < al" "al dvd w" "v \<le> w"
  then obtain k where k: "w = al * k" by (auto elim: dvdE)
  have "(v + (al - 1)) div al \<le> (al * k + (al - 1)) div al" using a(3) k by (intro div_le_mono) simp
  also have "\<dots> = k" using a(1) div_mult_self4 [of al k "al - 1"] by simp
  finally have q: "(v + (al - 1)) div al \<le> k" .
  show ?thesis unfolding round_up_def k mult.commute [of al k] by (rule mult_le_mono1 [OF q])
qed

lemma round_up_same: "0 < al \<Longrightarrow> al dvd v \<Longrightarrow> round_up v al = v"
  using round_up_least [of al v v] round_up_bounds(1) [of al v] by simp

lemma alignment_cases: "alignment al \<Longrightarrow> al dvd 8 \<or> 8 dvd al"
proof -
  assume "alignment al"
  then obtain k where k: "al = 2 ^ k" by (auto simp: alignment_def)
  have "(2 :: nat) ^ k dvd 2 ^ 3 \<or> (2 :: nat) ^ 3 dvd 2 ^ k"
    using le_imp_power_dvd [of k 3 "2 :: nat"] le_imp_power_dvd [of 3 k "2 :: nat"] linear [of k 3] by blast
  then show ?thesis using k by simp
qed

lemma round_up_8: "alignment al \<Longrightarrow> 8 dvd v \<Longrightarrow> 8 dvd round_up v al"
  using alignment_cases [of al] alignment_pos(1) [of al] round_up_bounds(3) [of al v] round_up_same [of al v]
  by (metis dvd_trans)

text \<open>The offset of the payload in a free block whose payload area starts at \<open>pm\<close>.\<close>

definition payload_at :: "nat \<Rightarrow> nat \<Rightarrow> nat" where
  "payload_at pm al = (let p = round_up pm al in if pm < p \<and> p < pm + 40 then round_up (pm + 40) al else p)"

lemma place_eq:
  assumes "alignment al" "pm + 5000 \<le> U64_MAX"
  shows "place pm al = Some (Some (payload_at pm al, payload_at pm al - pm))"
proof -
  have pos: "0 < al" by (rule alignment_pos [OF assms(1)])
  have "round_up (pm + 40) al \<ge> pm" using round_up_bounds(1) [OF pos, of "pm + 40"] by linarith
  then show ?thesis
    using align_up_eq [OF assms(1), of pm] align_up_eq [OF assms(1), of "pm + 40"] assms(2)
      round_up_bounds(1) [OF pos, of pm]
    by (auto simp: place_def payload_at_def Let_def usub_ok uadd_ok MIN_BLOCK_def HEADER_SIZE_def MIN_PAYLOAD_def)
qed

lemma payload_at_bounds:
  assumes "alignment al" "8 dvd pm"
  shows "al dvd payload_at pm al" "pm \<le> payload_at pm al" "payload_at pm al = pm \<or> pm + 40 \<le> payload_at pm al"
    "8 dvd payload_at pm al" "payload_at pm al \<le> pm + 40 + 4096"
proof -
  have pos: "0 < al" "al \<le> 4096" by (rule alignment_pos [OF assms(1)])+
  note r = round_up_bounds [OF pos(1), of pm] round_up_bounds [OF pos(1), of "pm + 40"]
  show "al dvd payload_at pm al" "pm \<le> payload_at pm al" "payload_at pm al = pm \<or> pm + 40 \<le> payload_at pm al"
    "payload_at pm al \<le> pm + 40 + 4096"
    using r pos by (auto simp: payload_at_def Let_def)
  have "8 dvd pm + 40" using assms(2) by simp
  then show "8 dvd payload_at pm al"
    using round_up_8 [OF assms(1)] assms(2) by (simp add: payload_at_def Let_def)
qed

section \<open>Carving a block\<close>

text \<open>Memories of the same length that differ at most in \<open>lo..<hi\<close>.\<close>

definition agree :: "bytes \<Rightarrow> bytes \<Rightarrow> nat \<Rightarrow> nat \<Rightarrow> bool" where
  "agree a a' lo hi \<longleftrightarrow> length a' = length a \<and> (\<forall>i < length a. i < lo \<or> hi \<le> i \<longrightarrow> a' ! i = a ! i)"

lemma agree_refl [simp]: "agree a a lo hi"
  by (simp add: agree_def)

lemma agree_put: "agree a b lo hi \<Longrightarrow> lo \<le> off \<Longrightarrow> off + 24 \<le> hi \<Longrightarrow> off + 24 \<le> length a \<Longrightarrow>
    agree a (put b off (hdr m n x)) lo hi"
  by (auto simp: agree_def nth_put)

lemma agree_sub: "agree a a' lo hi \<Longrightarrow> off + n \<le> lo \<or> hi \<le> off \<Longrightarrow> sub a' off n = sub a off n"
  by (rule sub_eqI) (auto simp: agree_def)

lemma agree_read: "agree a a' lo hi \<Longrightarrow> length a \<le> U64_MAX \<Longrightarrow> off + 24 \<le> lo \<or> hi \<le> off \<Longrightarrow>
    read_header a' off = read_header a off"
  using agree_sub [of a a' lo hi off 4] agree_sub [of a a' lo hi "off + 8" 8] agree_sub [of a a' lo hi "off + 16" 8]
  by (auto simp: read_header_eq agree_def)

lemma tiles_agree:
  assumes "agree a a' lo hi" "length a \<le> U64_MAX" "blocks_ok bs" "off + span bs \<le> lo \<or> hi \<le> off"
  shows "tiles a' off bs after = tiles a off bs after"
  using assms(3,4)
proof (induction bs arbitrary: off)
  case Nil
  then show ?case by simp
next
  case (Cons b bs)
  then show ?case
    using Cons.IH [of "off + bsize b"] agree_read [OF assms(1,2), of off] by (cases b) auto
qed

definition carve_blocks :: "nat \<Rightarrow> nat \<Rightarrow> nat \<Rightarrow> block list" where
  "carve_blocks g l t = (if 0 < g then [FreeB g] else []) @ LiveB l # (if 0 < t then [FreeB t] else [])"

definition carve_mem :: "bytes \<Rightarrow> nat \<Rightarrow> nat \<Rightarrow> nat \<Rightarrow> nat \<Rightarrow> nat \<Rightarrow> bytes" where
  "carve_mem a c g l t nxt =
     (let a1 = put a (c + g) (hdr MAGIC_ALLOC l NIL);
          a2 = (if 0 < t then put a1 (c + g + l) (hdr MAGIC_FREE t nxt) else a1) in
      if 0 < g then put a2 c (hdr MAGIC_FREE g (if 0 < t then c + g + l else nxt)) else a2)"

lemma carve_mem_facts:
  assumes len: "length a \<le> U64_MAX" "c + (g + l + t) \<le> length a" and parts: "g = 0 \<or> 40 \<le> g" "24 \<le> l" "t = 0 \<or> 40 \<le> t"
    and nxt: "nxt \<le> U64_MAX"
  shows "agree a (carve_mem a c g l t nxt) c (c + (g + l + t))"
    and "tiles (carve_mem a c g l t nxt) c (carve_blocks g l t) nxt"
    and "first_free c (carve_blocks g l t) nxt = (if 0 < g then c else if 0 < t then c + g + l else nxt)"
proof -
  let ?a1 = "put a (c + g) (hdr MAGIC_ALLOC l NIL)"
  let ?a2 = "if 0 < t then put ?a1 (c + g + l) (hdr MAGIC_FREE t nxt) else ?a1"
  let ?n2 = "if 0 < t then c + g + l else nxt"
  have a1: "agree a ?a1 c (c + (g + l + t))" "length ?a1 = length a"
    using len parts by (auto intro!: agree_put)
  have a2: "agree a ?a2 c (c + (g + l + t))" "length ?a2 = length a"
    using len parts a1 by (auto intro!: agree_put)
  show "agree a (carve_mem a c g l t nxt) c (c + (g + l + t))"
    using len parts a2(1) unfolding carve_mem_def Let_def by (auto intro!: agree_put)
  have live: "read_header ?a2 (c + g) = Some (MAGIC_ALLOC, l, NIL)"
    using len parts a1(2) read_header_put [of "c + g" a MAGIC_ALLOC l NIL]
      read_header_put_other [of "c + g + l" ?a1 "c + g"] by (auto simp: rust_consts)
  have tail: "0 < t \<Longrightarrow> read_header ?a2 (c + g + l) = Some (MAGIC_FREE, t, nxt)"
    using len parts nxt a1(2) read_header_put [of "c + g + l" ?a1 MAGIC_FREE t nxt] by (auto simp: rust_consts)
  let ?a3 = "put ?a2 c (hdr MAGIC_FREE g ?n2)"
  have gap: "0 < g \<Longrightarrow> read_header ?a3 c = Some (MAGIC_FREE, g, ?n2)"
    using len parts nxt a2(2) read_header_put [of c ?a2 MAGIC_FREE g ?n2] by (auto simp: rust_consts)
  have keep: "0 < g \<Longrightarrow> c + g \<le> off \<Longrightarrow> read_header ?a3 off = read_header ?a2 off" for off
    using len parts a2(2) read_header_put_other [of c ?a2 off MAGIC_FREE g ?n2] by auto
  show "tiles (carve_mem a c g l t nxt) c (carve_blocks g l t) nxt"
  proof (cases "0 < g")
    case True
    then show ?thesis
      using gap keep [of "c + g"] keep [of "c + g + l"] live tail unfolding carve_mem_def carve_blocks_def Let_def
      by (auto simp: add.assoc)
  next
    case False
    then show ?thesis
      using live tail unfolding carve_mem_def carve_blocks_def Let_def by auto
  qed
  show "first_free c (carve_blocks g l t) nxt = (if 0 < g then c else if 0 < t then c + g + l else nxt)"
    by (simp add: carve_blocks_def)
qed

section \<open>Relinking after a change of the tiling\<close>

text \<open>
  Both operations end by making the free block before the changed part point to its first free
  block, or by moving the head there when there is no such block.
\<close>

definition link :: "FreeList \<Rightarrow> bytes \<Rightarrow> usize \<Rightarrow> usize \<Rightarrow> (FreeList \<times> bytes) panics" where
  "link fl a previous nn =
     (if previous = NIL then Some (fl\<lparr>fl_head := nn\<rparr>, a)
      else do {
        (_, n, _) \<leftarrow> read_header a previous;
        a \<leftarrow> write_header a previous MAGIC_FREE n nn;
        Some (fl, a)
      })"

text \<open>The payload areas of the live blocks, as pairs of offset and length.\<close>

fun payloads :: "nat \<Rightarrow> block list \<Rightarrow> (nat \<times> nat) list" where
  "payloads off [] = []"
| "payloads off (FreeB n # bs) = payloads (off + n) bs"
| "payloads off (LiveB n # bs) = (off + 24, n - 24) # payloads (off + n) bs"

definition keeps :: "(nat \<times> nat) list \<Rightarrow> bytes \<Rightarrow> bytes \<Rightarrow> bool" where
  "keeps ps a a' \<longleftrightarrow> (\<forall>(p, n) \<in> set ps. sub a' p n = sub a p n)"

lemma keeps_append [simp]: "keeps (ps @ qs) a a' \<longleftrightarrow> keeps ps a a' \<and> keeps qs a a'"
  by (auto simp: keeps_def)

lemma keeps_refl [simp]: "keeps ps a a"
  by (simp add: keeps_def)

lemma keeps_trans: "keeps ps a b \<Longrightarrow> keeps ps b c \<Longrightarrow> keeps ps a c"
  by (fastforce simp: keeps_def)

lemma payloads_append: "payloads off (xs @ ys) = payloads off xs @ payloads (off + span xs) ys"
  by (induction off xs rule: payloads.induct) (simp_all add: add.assoc)

lemma payloads_inside: "(p, n) \<in> set (payloads off bs) \<Longrightarrow> blocks_ok bs \<Longrightarrow> off \<le> p \<and> p + n \<le> off + span bs"
  by (induction off bs rule: payloads.induct) auto

lemma keeps_agree:
  assumes "agree a a' lo hi" "blocks_ok bs" "off + span bs \<le> lo \<or> hi \<le> off"
  shows "keeps (payloads off bs) a a'"
  unfolding keeps_def
proof (clarify)
  fix p n assume "(p, n) \<in> set (payloads off bs)"
  then have "off \<le> p" "p + n \<le> off + span bs" using payloads_inside assms(2) by blast+
  then show "sub a' p n = sub a p n" using assms(3) by (intro agree_sub [OF assms(1)]) auto
qed

lemma first_free_bound: "first_free off bs after = after \<or> off \<le> first_free off bs after \<and> first_free off bs after < off + span bs"
  if "blocks_ok bs"
  using that by (induction off bs after rule: first_free.induct) auto

lemma agree_put_only: "off + 24 \<le> length a \<Longrightarrow> agree a (put a off (hdr m n x)) off (off + 24)"
  by (rule agree_put) simp_all

lemma link_pre:
  assumes t: "tiles a 0 pre after" and ok: "blocks_ok pre" and len: "span pre \<le> length a" "length a \<le> ISIZE_MAX"
    and nn: "nn \<le> U64_MAX"
  shows "\<exists>fl' a'. link fl a (last_free NIL 0 pre) nn = Some (fl', a') \<and> tiles a' 0 pre nn \<and>
    fl' = (if last_free NIL 0 pre = NIL then fl\<lparr>fl_head := nn\<rparr> else fl) \<and> agree a a' 0 (span pre) \<and>
    keeps (payloads 0 pre) a a' \<and> (if last_free NIL 0 pre = NIL then nn else first_free 0 pre NIL) = first_free 0 pre nn"
proof (cases "last_free NIL 0 pre = NIL")
  case True
  have "span pre < NIL" using len by (simp add: rust_consts)
  then have lv: "\<forall>b \<in> set pre. \<not> is_FreeB b" using last_free_none [of 0 pre] True by simp
  then show ?thesis
    using True t lives_tiles [OF lv, of a 0 after nn] lives_first_free [OF lv] by (simp add: link_def)
next
  case False
  obtain xs n ls where pre: "pre = xs @ FreeB n # ls" "last_free NIL 0 pre = span xs" "\<forall>b \<in> set ls. \<not> is_FreeB b"
    using last_free_in [OF ok False] by auto
  have b: "span xs + 24 \<le> length a" "length a \<le> U64_MAX" "n \<le> U64_MAX" "24 \<le> n"
    using len ok unfolding pre(1) by (auto simp: rust_consts)
  let ?a = "put a (span xs) (hdr MAGIC_FREE n nn)"
  have rd: "read_header a (span xs) = Some (MAGIC_FREE, n, first_free (span xs + n) ls after)"
    using t unfolding pre(1) by (simp add: tiles_append)
  have "tiles ?a 0 pre nn"
    using tiles_relink [of a 0 xs n ls after nn] t ok pre(3) b nn unfolding pre(1) by simp
  moreover have "agree a ?a 0 (span pre)" using b ok by (intro agree_put) (auto simp: pre(1))
  moreover have "keeps (payloads 0 pre) a ?a"
    using keeps_agree [OF agree_put_only [OF b(1)], of xs 0] keeps_agree [OF agree_put_only [OF b(1)], of ls "span xs + n"]
      b ok unfolding pre(1) by (simp add: payloads_append)
  moreover have "first_free 0 pre NIL = first_free 0 pre nn"
    unfolding pre(1) by (simp add: first_free_append)
  moreover have "link fl a (last_free NIL 0 pre) nn = Some (fl, ?a)"
    using False rd write_header_eq [OF b(1,2)] unfolding pre(2) by (simp add: link_def)
  ultimately show ?thesis using False by (intro exI [of _ fl] exI [of _ ?a]) simp
qed

lemma link_eq:
  assumes shape: "heap_shape fl a (pre @ mid @ post)" and ag: "agree a a3 (span pre) (span pre + span mid)"
    and t: "tiles a3 (span pre) mid' (first_free (span pre + span mid) post NIL)"
    and mid': "span mid' = span mid" "blocks_ok mid'" "separated (pre @ mid' @ post)"
    and nn: "nn = first_free (span pre) mid' (first_free (span pre + span mid) post NIL)"
  shows "\<exists>fl' a4. link fl a3 (last_free NIL 0 pre) nn = Some (fl', a4) \<and> heap_shape fl' a4 (pre @ mid' @ post) \<and>
    keeps (payloads 0 pre) a a4 \<and> keeps (payloads (span pre + span mid) post) a a4"
proof -
  let ?c = "span pre" and ?e = "span pre + span mid"
  note b = shape_bounds [OF shape]
  have ok: "blocks_ok pre" "blocks_ok mid" "blocks_ok post" and tl: "tiles a 0 pre (first_free ?c (mid @ post) NIL)"
    "tiles a ?e post NIL" and hd: "fl_head fl = first_free 0 (pre @ mid @ post) NIL"
    and al: "fl_arena_len fl = length a div 8 * 8" "span (pre @ mid @ post) = fl_arena_len fl" "length a \<le> ISIZE_MAX"
    using shape by (auto simp: heap_shape_def tiles_append)
  have len3: "length a3 = length a" using ag by (simp add: agree_def)
  have t3: "tiles a3 0 pre (first_free ?c (mid @ post) NIL)" "tiles a3 ?e post NIL"
    using tl tiles_agree [OF ag b(1)] ok by auto
  have fin: "first_free ?e post NIL \<le> U64_MAX" "nn \<le> U64_MAX"
    using first_free_bound [OF ok(3), of ?e NIL] first_free_bound [OF mid'(2), of ?c "first_free ?e post NIL"] b
    unfolding nn mid'(1) by (auto simp: rust_consts)
  obtain fl' a4 where l: "link fl a3 (last_free NIL 0 pre) nn = Some (fl', a4)" "tiles a4 0 pre nn"
    "fl' = (if last_free NIL 0 pre = NIL then fl\<lparr>fl_head := nn\<rparr> else fl)" "agree a3 a4 0 ?c"
    "keeps (payloads 0 pre) a3 a4" "(if last_free NIL 0 pre = NIL then nn else first_free 0 pre NIL) = first_free 0 pre nn"
    using link_pre [OF t3(1) ok(1) _ _ fin(2), of fl] b al(3) unfolding len3 by auto
  have len4: "length a4 = length a" using l(4) len3 by (simp add: agree_def)
  have t4: "tiles a4 ?c mid' (first_free ?e post NIL)" "tiles a4 ?e post NIL"
    using t t3(2) tiles_agree [OF l(4)] b(1) ok mid' unfolding len3 by auto
  have tiles: "tiles a4 0 (pre @ mid' @ post) NIL"
    using l(2) t4 mid'(1) nn by (simp add: tiles_append first_free_append)
  have head: "fl_head fl' = first_free 0 (pre @ mid' @ post) NIL"
  proof (cases "last_free NIL 0 pre = NIL")
    case True
    then show ?thesis using l(3,6) nn mid'(1) by (simp add: first_free_append)
  next
    case False
    obtain xs n ls where "pre = xs @ FreeB n # ls" using last_free_in [OF ok(1) False] by auto
    then show ?thesis using l(3) hd False by (simp add: first_free_append)
  qed
  have "heap_shape fl' a4 (pre @ mid' @ post)"
    using tiles head mid' ok al len4 l(3) by (auto simp: heap_shape_def)
  moreover have "keeps (payloads 0 pre) a a4"
    using keeps_trans [OF keeps_agree [OF ag ok(1)] l(5)] by simp
  moreover have "keeps (payloads ?e post) a a4"
    using keeps_trans [OF keeps_agree [OF ag ok(3)] keeps_agree [OF l(4) ok(3)]] by simp
  ultimately show ?thesis using l(1) by blast
qed

section \<open>Allocation implements its abstract counterpart\<close>

definition gap_of :: "nat \<Rightarrow> nat \<Rightarrow> nat" where
  "gap_of c al = payload_at (c + 24) al - (c + 24)"

definition tail_of :: "nat \<Rightarrow> nat \<Rightarrow> nat \<Rightarrow> nat \<Rightarrow> nat" where
  "tail_of c n sz al = (let t = c + n - round_up (payload_at (c + 24) al + sz) 8 in if 40 \<le> t then t else 0)"

definition carved :: "nat \<Rightarrow> nat \<Rightarrow> nat \<Rightarrow> nat \<Rightarrow> block list" where
  "carved c n sz al = carve_blocks (gap_of c al) (n - gap_of c al - tail_of c n sz al) (tail_of c n sz al)"

fun alloc_abs :: "nat \<Rightarrow> nat \<Rightarrow> nat \<Rightarrow> block list \<Rightarrow> (nat \<times> block list) option" where
  "alloc_abs off sz al [] = None"
| "alloc_abs off sz al (LiveB n # bs) = map_option (apsnd (Cons (LiveB n))) (alloc_abs (off + n) sz al bs)"
| "alloc_abs off sz al (FreeB n # bs) =
     (if payload_at (off + 24) al + sz \<le> off + n then Some (payload_at (off + 24) al, carved off n sz al @ bs)
      else map_option (apsnd (Cons (FreeB n))) (alloc_abs (off + n) sz al bs))"

lemma blocks_ok_8: "blocks_ok bs \<Longrightarrow> 8 dvd span bs"
  by (induction bs) auto

lemma carve_arith:
  assumes c: "8 dvd c" "8 dvd n" and al: "alignment al" and sz: "0 < sz" and fit: "payload_at (c + 24) al + sz \<le> c + n"
  defines "p \<equiv> payload_at (c + 24) al" and "g \<equiv> gap_of c al" and "t \<equiv> tail_of c n sz al" and "ts \<equiv> round_up (payload_at (c + 24) al + sz) 8"
  defines "l \<equiv> n - g - t"
  shows "p = c + g + 24" "g = 0 \<or> 40 \<le> g" "t = 0 \<or> 40 \<le> t" "g + l + t = n" "24 + sz \<le> l" "8 dvd g" "8 dvd l" "8 dvd t"
    "ts \<le> c + n" "t = (if 40 \<le> c + n - ts then c + n - ts else 0)" "0 < t \<Longrightarrow> ts = c + g + l"
proof -
  have c24: "8 dvd c + 24" using c(1) by simp
  note pb = payload_at_bounds [OF al c24, folded p_def]
  show p: "p = c + g + 24" using pb(2) by (simp add: g_def gap_of_def p_def)
  show g: "g = 0 \<or> 40 \<le> g" using pb(3) p by linarith
  show t: "t = (if 40 \<le> c + n - ts then c + n - ts else 0)" by (simp add: t_def tail_of_def ts_def Let_def)
  then show "t = 0 \<or> 40 \<le> t" by simp
  have cn: "8 dvd c + n" using c by simp
  have "p + sz \<le> ts" "8 dvd ts" using round_up_bounds [of 8 "p + sz"] by (simp_all add: ts_def p_def)
  moreover show ts: "ts \<le> c + n" unfolding ts_def using fit cn by (intro round_up_least) auto
  ultimately have b: "t \<le> c + n - ts" "g + 24 + sz + t \<le> n" "8 dvd c + n - ts"
    using t p cn by (auto intro: dvd_diff_nat)
  then show gl: "g + l + t = n" "24 + sz \<le> l" by (simp_all add: l_def)
  show "8 dvd g" "8 dvd t"
    using pb(4) c24 p b(3) t by (auto simp: dvd_add_left_iff dvd_add_right_iff add.assoc [symmetric])
  then show "8 dvd l" using c(2) by (simp add: l_def dvd_diff_nat)
  show "ts = c + g + l" if "0 < t" using t that gl(1) ts by (auto split: if_splits)
qed

lemma separated_Cons: "separated (b # bs) \<longleftrightarrow> separated bs \<and> \<not> (bs \<noteq> [] \<and> is_FreeB b \<and> is_FreeB (hd bs))"
proof (cases bs)
  case (Cons c cs)
  then show ?thesis by (cases b; cases c) auto
qed (cases b; simp)

lemma separated_append:
  "separated (xs @ ys) \<longleftrightarrow> separated xs \<and> separated ys \<and> \<not> (xs \<noteq> [] \<and> ys \<noteq> [] \<and> is_FreeB (last xs) \<and> is_FreeB (hd ys))"
proof (induction xs)
  case (Cons x xs)
  then show ?case by (cases xs) (auto simp: separated_Cons)
qed simp

lemma carved_separated:
  assumes "separated (pre @ FreeB n # post)"
  shows "separated (pre @ carve_blocks g l t @ post)"
  using assms by (auto simp: separated_append separated_Cons carve_blocks_def)

lemma last_free_bound: "blocks_ok bs \<Longrightarrow> last_free NIL 0 bs \<noteq> NIL \<Longrightarrow> last_free NIL 0 bs + 24 \<le> span bs"
  using last_free_in [of bs 0] by auto

lemma carve_link:
  assumes shape: "heap_shape fl a (pre @ FreeB n # post)" and al: "alignment al" and sz: "0 < sz"
    and fit: "payload_at (span pre + 24) al + sz \<le> span pre + n"
  defines "c \<equiv> span pre" and "p \<equiv> payload_at (span pre + 24) al" and "g \<equiv> gap_of (span pre) al"
    and "t \<equiv> tail_of (span pre) n sz al" and "nxt \<equiv> first_free (span pre + n) post NIL"
  shows "carve fl a (last_free NIL 0 pre) c nxt (c + n) p g (p + sz) = do {
      (fl, a) \<leftarrow> link fl (carve_mem a c g (n - g - t) t nxt) (last_free NIL 0 pre) (first_free c (carve_blocks g (n - g - t) t) nxt);
      fl \<leftarrow> recompute fl a;
      Some (fl, a, Some p)
    }"
proof -
  let ?l = "n - g - t" and ?prev = "last_free NIL 0 pre" and ?ts = "round_up (p + sz) 8"
  note b = shape_bounds [OF shape]
  have ok: "blocks_ok pre" "8 dvd n" "24 \<le> n" "blocks_ok post" using shape by (auto simp: heap_shape_def)
  note ar = carve_arith [OF blocks_ok_8 [OF ok(1)] ok(2) al sz fit, folded c_def p_def g_def t_def]
  have len: "c + n \<le> length a" "length a \<le> U64_MAX" "c + n \<le> ISIZE_MAX" using b by (simp_all add: c_def)
  have fr: "nxt \<le> U64_MAX"
    using first_free_bound [OF ok(4), of "c + n" NIL] b by (auto simp: nxt_def c_def rust_consts)
  note mem = carve_mem_facts [of a c g ?l t nxt, OF len(2)]
  have ag: "agree a (carve_mem a c g ?l t nxt) c (c + n)"
    and ff: "first_free c (carve_blocks g ?l t) nxt = (if 0 < g then c else if 0 < t then c + g + ?l else nxt)"
    using mem(1,3) ar(2-5) len(1) fr by auto
  have prev: "read_header (carve_mem a c g ?l t nxt) ?prev = read_header a ?prev" if "?prev \<noteq> NIL"
    using agree_read [OF ag len(2)] last_free_bound [OF ok(1) that] by (simp add: c_def)
  have "p + sz + 4096 \<le> U64_MAX" using len(3) fit by (simp add: c_def p_def rust_consts)
  then have ts: "align_up (p + sz) HEADER_ALIGN = Some ?ts"
    unfolding HEADER_ALIGN_def by (rule align_up_eq [OF alignment_8])
  have tail: "usub (c + n) ?ts = Some (c + n - ?ts)" using ar(9) by (simp add: usub_ok p_def)
  have blk: "(if MIN_BLOCK \<le> c + n - ?ts then Some (c + n - ?ts) else None) = (if 0 < t then Some t else None)"
    using ar(10) by (auto simp: MIN_BLOCK_def HEADER_SIZE_def MIN_PAYLOAD_def p_def)
  have asz: "(if (if 0 < t then Some t else None) \<noteq> None then usub ?ts (c + g) else usub (c + n) (c + g)) = Some ?l"
    using ar(4,5,11) by (auto simp: usub_def p_def)
  have w: "write_header b off m k x = Some (put b off (hdr m k x))" if "length b = length a" "off + 24 \<le> c + n" for b off m k x
    using write_header_eq [of off b] that len by simp
  have w1: "write_header a (c + g) MAGIC_ALLOC ?l NIL = Some (put a (c + g) (hdr MAGIC_ALLOC ?l NIL))"
    using ar(4,5) by (intro w) auto
  let ?a1 = "put a (c + g) (hdr MAGIC_ALLOC ?l NIL)"
  have l1: "length ?a1 = length a" using len ar(4,5) by simp
  let ?a2 = "if 0 < t then put ?a1 (c + g + ?l) (hdr MAGIC_FREE t nxt) else ?a1"
  have w2: "(case if 0 < t then Some t else None of None \<Rightarrow> Some (?a1, nxt)
      | Some k \<Rightarrow> do { b \<leftarrow> write_header ?a1 ?ts MAGIC_FREE k nxt; Some (b, ?ts) }) =
      Some (?a2, if 0 < t then c + g + ?l else nxt)"
    using w [OF l1, of "c + g + ?l"] ar(3,4,11) by (auto simp: p_def)
  have l2: "length ?a2 = length a" using len l1 ar(3,4) by auto
  have w3: "(if 0 < g then do { b \<leftarrow> write_header ?a2 c MAGIC_FREE g (if 0 < t then c + g + ?l else nxt); Some (b, c) }
      else Some (?a2, if 0 < t then c + g + ?l else nxt)) =
      Some (carve_mem a c g ?l t nxt, first_free c (carve_blocks g ?l t) nxt)"
    using w [OF l2, of c] ar(2,4) ff by (auto simp: carve_mem_def Let_def)
  have hd: "usub p HEADER_SIZE = Some (c + g)" using ar(1) by (simp add: usub_def HEADER_SIZE_def)
  show ?thesis
  proof (cases "?prev = NIL")
    case True
    then show ?thesis
      unfolding carve_def hd ts bind.bind_lunit option.case Let_def tail blk asz w1 link_def
      using w2 w3 by simp
  next
    case False
    obtain xs k ls where pre: "pre = xs @ FreeB k # ls" "?prev = span xs"
      using last_free_in [OF ok(1) False] by auto
    have "tiles a 0 (pre @ FreeB n # post) NIL" using shape by (simp add: heap_shape_def)
    then obtain x where "read_header a ?prev = Some (MAGIC_FREE, k, x)"
      unfolding pre(2) unfolding pre(1) by (auto simp: tiles_append)
    then show ?thesis
      using False prev unfolding carve_def hd ts bind.bind_lunit option.case Let_def tail blk asz w1 link_def
      using w2 w3 by simp
  qed
qed

lemma carve_eq:
  assumes shape: "heap_shape fl a (pre @ FreeB n # post)" and al: "alignment al" and sz: "0 < sz"
    and fit: "payload_at (span pre + 24) al + sz \<le> span pre + n"
  shows "\<exists>fl' a'. carve fl a (last_free NIL 0 pre) (span pre) (first_free (span pre + n) post NIL) (span pre + n)
      (payload_at (span pre + 24) al) (gap_of (span pre) al) (payload_at (span pre + 24) al + sz)
      = Some (fl', a', Some (payload_at (span pre + 24) al)) \<and>
    heap_inv fl' a' (pre @ carved (span pre) n sz al @ post) \<and> keeps (payloads 0 (pre @ FreeB n # post)) a a'"
proof -
  let ?c = "span pre" and ?g = "gap_of (span pre) al" and ?t = "tail_of (span pre) n sz al"
  let ?l = "n - ?g - ?t" and ?nxt = "first_free (span pre + n) post NIL"
  note b = shape_bounds [OF shape]
  have ok: "blocks_ok pre" "8 dvd n" "24 \<le> n" "blocks_ok post" using shape by (auto simp: heap_shape_def)
  note ar = carve_arith [OF blocks_ok_8 [OF ok(1)] ok(2) al sz fit]
  have fr: "?nxt \<le> U64_MAX" using first_free_bound [OF ok(4), of "?c + n" NIL] b by (auto simp: rust_consts)
  have "24 \<le> ?l" "?c + (?g + ?l + ?t) \<le> length a" using ar(4,5) b(2) by auto
  note mem = carve_mem_facts [OF b(1) this(2) ar(2) this(1) ar(3) fr, unfolded ar(4)]
  have "32 \<le> ?l" using ar(5,7) sz by (auto elim!: dvdE)
  then have "blocks_ok (carve_blocks ?g ?l ?t)" using ar(2-8) by (auto simp: carve_blocks_def)
  moreover have "span (carve_blocks ?g ?l ?t) = span [FreeB n]" using ar(4) by (simp add: carve_blocks_def)
  moreover have "separated (pre @ carve_blocks ?g ?l ?t @ post)"
    using shape by (intro carved_separated [of pre n]) (simp add: heap_shape_def)
  ultimately obtain fl1 a1 where l: "link fl (carve_mem a ?c ?g ?l ?t ?nxt) (last_free NIL 0 pre)
      (first_free ?c (carve_blocks ?g ?l ?t) ?nxt) = Some (fl1, a1)" "heap_shape fl1 a1 (pre @ carve_blocks ?g ?l ?t @ post)"
      "keeps (payloads 0 pre) a a1" "keeps (payloads (?c + n) post) a a1"
    using link_eq [of fl a pre "[FreeB n]" post "carve_mem a ?c ?g ?l ?t ?nxt" "carve_blocks ?g ?l ?t"] shape mem by auto
  obtain fl' where "recompute fl1 a1 = Some fl'" "heap_inv fl' a1 (pre @ carve_blocks ?g ?l ?t @ post)"
    using recompute_eq [OF l(2)] by blast
  then show ?thesis
    using carve_link [OF shape al sz fit] l by (auto simp: carved_def payloads_append)
qed

lemma payload_at_ge: "0 < al \<Longrightarrow> pm \<le> payload_at pm al"
  using round_up_bounds(1) [of al pm] round_up_bounds(1) [of al "pm + 40"] by (simp add: payload_at_def Let_def)

lemma alloc_abs_small: "0 < al \<Longrightarrow> alloc_abs off sz al bs = Some r \<Longrightarrow> sz \<le> span bs"
proof (induction off sz al bs arbitrary: r rule: alloc_abs.induct)
  case (3 off sz al n bs)
  then show ?case using payload_at_ge [of al "off + 24"] by (fastforce split: if_splits)
qed (auto simp: trans_le_add2)

lemma alloc_loop_eq:
  assumes inv: "heap_inv fl a bs" and al: "alignment al" and sz: "0 < sz"
    and split: "bs = pre @ post" and guard: "guard \<le> length (free_sizes pre)"
  shows "\<exists>fl' a'. case alloc_abs (span pre) sz al post of
      None \<Rightarrow> alloc_loop fl a sz al (last_free NIL 0 pre) (first_free (span pre) post NIL) guard = Some (fl, a, None)
    | Some (p, post') \<Rightarrow> alloc_loop fl a sz al (last_free NIL 0 pre) (first_free (span pre) post NIL) guard = Some (fl', a', Some p) \<and>
        heap_inv fl' a' (pre @ post') \<and> keeps (payloads 0 bs) a a'"
  using split guard
proof (induction post arbitrary: pre guard)
  case Nil
  then show ?case by (subst alloc_loop.simps) simp
next
  case (Cons blk post)
  have IH: "\<exists>fl' a'. case alloc_abs (span (pre @ [blk])) sz al post of
      None \<Rightarrow> alloc_loop fl a sz al (last_free NIL 0 (pre @ [blk])) (first_free (span (pre @ [blk])) post NIL) guard' = Some (fl, a, None)
    | Some (p, post') \<Rightarrow> alloc_loop fl a sz al (last_free NIL 0 (pre @ [blk])) (first_free (span (pre @ [blk])) post NIL) guard' = Some (fl', a', Some p) \<and>
        heap_inv fl' a' ((pre @ [blk]) @ post') \<and> keeps (payloads 0 bs) a a'"
    if "guard' \<le> length (free_sizes (pre @ [blk]))" for guard'
    using Cons.IH [of "pre @ [blk]" guard'] Cons.prems(1) that by simp
  show ?case
  proof (cases blk)
    case (LiveB n)
    then show ?thesis
      using IH [of guard] Cons.prems(2) by (auto simp: last_free_append split: option.splits)
  next
    case (FreeB n)
    have shape: "heap_shape fl a (pre @ FreeB n # post)" using inv Cons.prems(1) FreeB by (simp add: heap_inv_def)
    note b = shape_bounds [OF shape]
    let ?c = "span pre" and ?p = "payload_at (span pre + 24) al" and ?nxt = "first_free (span pre + n) post NIL"
    have ok: "24 \<le> n" "8 dvd ?c + 24" "fl_arena_len fl = ?c + n + span post"
      and rd: "read_header a ?c = Some (MAGIC_FREE, n, ?nxt)"
      using shape blocks_ok_8 [of pre] by (auto simp: heap_shape_def tiles_append)
    note pb = payload_at_bounds [OF al ok(2)]
    have bnd: "?c \<noteq> NIL" "?c + n \<le> U64_MAX" "?c + 24 + 5000 \<le> U64_MAX" "guard + 1 \<le> span (pre @ FreeB n # post) div 8 + 2"
      "span (pre @ FreeB n # post) div 8 + 2 \<le> U64_MAX"
      using b(3,4,6) Cons.prems(2) by (auto simp: rust_consts)
    have gap: "?p - (?c + 24) = gap_of ?c al" by (simp add: gap_of_def)
    have step: "alloc_loop fl a sz al (last_free NIL 0 pre) ?c guard =
       (case uadd ?p sz of
          None \<Rightarrow> Some (fl, a, None)
        | Some e \<Rightarrow> if e > ?c + n then alloc_loop fl a sz al ?c ?nxt (Suc guard)
                   else carve fl a (last_free NIL 0 pre) ?c ?nxt (?c + n) ?p (gap_of ?c al) e)"
      using bnd ok rd b(5) place_eq [OF al bnd(3)] gap
      by (subst alloc_loop.simps) (simp add: uadd_ok HEADER_SIZE_def)
    have bsn: "bs = pre @ FreeB n # post" using Cons.prems(1) FreeB by simp
    show ?thesis
    proof (cases "?p + sz \<le> ?c + n")
      case True
      then show ?thesis
        using step carve_eq [OF shape al sz True] bnd(2) FreeB bsn by (auto simp: uadd_ok)
    next
      case False
      have tr: "alloc_loop fl a sz al (last_free NIL 0 pre) ?c guard = alloc_loop fl a sz al ?c ?nxt (Suc guard)"
        if "?p + sz \<le> U64_MAX"
        using step that False by (simp add: uadd_ok)
      show ?thesis
      proof (cases "?p + sz \<le> U64_MAX")
        case small: True
        then show ?thesis
          using tr IH [of "Suc guard"] Cons.prems(2) False FreeB
          by (auto simp: last_free_append split: option.splits)
      next
        case big: False
        then have "\<not> sz \<le> span post" using pb(5) b(3) by (simp add: rust_consts)
        then have "alloc_abs (?c + n) sz al post = None"
          using alloc_abs_small [OF alignment_pos(1) [OF al], of "?c + n" sz post] by (meson not_None_eq)
        then show ?thesis
          using step big False FreeB by (simp add: uadd_def)
      qed
    qed
  qed
qed

lemma fl_alloc_eq:
  assumes inv: "heap_inv fl a bs" and al: "is_power_of_two al" "al \<le> MAX_ALIGN" and sz: "0 < sz"
  shows "\<exists>fl' a'. case alloc_abs 0 sz al bs of
      None \<Rightarrow> fl_alloc fl a sz al = Some (fl, a, None)
    | Some (p, bs') \<Rightarrow> fl_alloc fl a sz al = Some (fl', a', Some p) \<and> heap_inv fl' a' bs' \<and> keeps (payloads 0 bs) a a'"
proof -
  have shape: "heap_shape fl a bs" using inv by (simp add: heap_inv_def)
  have head: "fl_head fl = first_free 0 bs NIL" using shape by (simp add: heap_shape_def)
  have run: "fl_alloc fl a sz al = alloc_loop fl a sz al NIL (first_free 0 bs NIL) 0"
  proof (cases "fl_head fl = NIL")
    case True
    then show ?thesis using head by (subst alloc_loop.simps) (simp add: fl_alloc_def)
  next
    case False
    then show ?thesis
      using sz al arena_matches_shape [OF shape] unfolding fl_alloc_def head by (simp add: not_less [symmetric])
  qed
  have "alignment al" using alignment_iff al by blast
  then show ?thesis
    using alloc_loop_eq [OF inv _ sz, of al "[]" bs 0] unfolding run last_free.simps span_simps append_Nil by simp
qed

section \<open>Release implements its abstract counterpart\<close>

lemma first_free_header:
  assumes "tiles a off bs after" "blocks_ok bs" "first_free off bs after \<noteq> after"
  shows "\<exists>n x. read_header a (first_free off bs after) = Some (MAGIC_FREE, n, x) \<and> 24 \<le> n \<and>
    off \<le> first_free off bs after \<and> first_free off bs after + n \<le> off + span bs"
  using assms by (induction off bs after rule: first_free.induct) auto

lemma last_free_header:
  assumes t: "tiles a 0 (pre @ rest) after" and ok: "blocks_ok pre" and p: "last_free NIL 0 pre \<noteq> NIL"
  shows "\<exists>n x. read_header a (last_free NIL 0 pre) = Some (MAGIC_FREE, n, x) \<and> last_free NIL 0 pre + n \<le> span pre \<and>
    24 \<le> n \<and> (last_free NIL 0 pre + n = span pre \<longleftrightarrow> is_FreeB (last pre)) \<and> pre \<noteq> []"
proof -
  obtain xs n ls where pre: "pre = xs @ FreeB n # ls" "last_free NIL 0 pre = 0 + span xs" "\<forall>b \<in> set ls. \<not> is_FreeB b"
    using last_free_in [OF ok p] by blast
  have "span ls = 0 \<longleftrightarrow> ls = []" using ok unfolding pre(1) by (cases ls) auto
  moreover have "ls \<noteq> [] \<Longrightarrow> \<not> is_FreeB (last ls)" using pre(3) by simp
  ultimately have "is_FreeB (last pre) \<longleftrightarrow> span ls = 0" unfolding pre(1) by auto
  moreover have "\<exists>x. read_header a (span xs) = Some (MAGIC_FREE, n, x)"
    using t unfolding pre(1) by (auto simp: tiles_append)
  ultimately show ?thesis using ok pre(2) unfolding pre(1) by auto
qed

lemma shape_step:
  assumes shape: "heap_shape fl a (xs @ FreeB n # zs)" and guard: "guard \<le> length (free_sizes xs)"
  shows "span xs \<noteq> NIL" "uadd guard 1 = Some (Suc guard)" "Suc guard \<le> span (xs @ FreeB n # zs) div 8 + 2"
    "read_header a (span xs) = Some (MAGIC_FREE, n, first_free (span xs + n) zs NIL)" "24 \<le> n"
    "uadd (span xs) n = Some (span xs + n)" "span xs + n \<le> fl_arena_len fl"
proof -
  note b = shape_bounds [OF shape]
  show "span xs \<noteq> NIL" using b(4) by auto
  show "Suc guard \<le> span (xs @ FreeB n # zs) div 8 + 2" using b(6) guard by auto
  then show "uadd guard 1 = Some (Suc guard)" using b(3) by (simp add: uadd_def rust_consts)
  show "read_header a (span xs) = Some (MAGIC_FREE, n, first_free (span xs + n) zs NIL)" "24 \<le> n"
    "span xs + n \<le> fl_arena_len fl"
    using shape by (auto simp: heap_shape_def tiles_append)
  then show "uadd (span xs) n = Some (span xs + n)" using b(3) by (simp add: uadd_def rust_consts)
qed

lemma find_place_eq:
  assumes shape: "heap_shape fl a (xs @ ys @ LiveB s # post)" and guard: "guard \<le> length (free_sizes xs)"
  shows "find_place fl a off (span (xs @ ys)) (span (xs @ ys) + s) (last_free NIL 0 xs)
      (first_free (span xs) (ys @ LiveB s # post) NIL) guard
    = Some (Inr (last_free NIL 0 (xs @ ys), first_free (span (xs @ ys) + s) post NIL))"
  using shape guard
proof (induction ys arbitrary: xs guard)
  case Nil
  let ?f = "first_free (span xs + s) post NIL"
  note b = shape_bounds [OF Nil.prems(1)]
  have ok: "blocks_ok post" "tiles a (span xs + s) post NIL" "fl_arena_len fl = span xs + s + span post"
    using Nil.prems(1) by (auto simp: heap_shape_def tiles_append)
  show ?case
  proof (cases "?f = NIL")
    case True
    then show ?thesis by (subst find_place.simps) simp
  next
    case False
    obtain n x where f: "read_header a ?f = Some (MAGIC_FREE, n, x)" "24 \<le> n" "span xs + s \<le> ?f"
      "?f + n \<le> span xs + s + span post"
      using first_free_header [OF ok(2,1) False] by auto
    have g: "uadd guard 1 = Some (Suc guard)" "Suc guard \<le> span (xs @ [] @ LiveB s # post) div 8 + 2"
      using Nil.prems(2) b(3,6) by (auto simp: uadd_def rust_consts)
    have "uadd ?f n = Some (?f + n)" using f(4) b(3) by (simp add: uadd_def rust_consts)
    then show ?thesis
      using False f g ok(3) b(5) by (subst find_place.simps) (auto simp: HEADER_SIZE_def)
  qed
next
  case (Cons blk ys)
  have IH: "guard' \<le> length (free_sizes (xs @ [blk])) \<Longrightarrow>
      find_place fl a off (span (xs @ blk # ys)) (span (xs @ blk # ys) + s) (last_free NIL 0 (xs @ [blk]))
      (first_free (span (xs @ [blk])) (ys @ LiveB s # post) NIL) guard'
    = Some (Inr (last_free NIL 0 (xs @ blk # ys), first_free (span (xs @ blk # ys) + s) post NIL))" for guard'
    using Cons.IH [of "xs @ [blk]" guard'] Cons.prems(1) by simp
  show ?case
  proof (cases blk)
    case (LiveB n)
    then show ?thesis using IH [of guard] Cons.prems(2) by (simp add: last_free_append)
  next
    case (FreeB n)
    have sh: "heap_shape fl a (xs @ FreeB n # (ys @ LiveB s # post))" using Cons.prems(1) FreeB by simp
    note st = shape_step [OF sh Cons.prems(2)] shape_bounds(5) [OF sh]
    show ?thesis
      using IH [of "Suc guard"] Cons.prems(2) st FreeB
      by (subst find_place.simps) (simp add: last_free_append HEADER_SIZE_def)
  qed
qed

lemma previous_free_loop_eq:
  assumes shape: "heap_shape fl a (xs @ ys @ FreeB k # zs)" and guard: "guard \<le> length (free_sizes xs)"
  shows "previous_free_loop fl a (span (xs @ ys)) (last_free NIL 0 xs) (first_free (span xs) (ys @ FreeB k # zs) NIL) guard
    = Some (Some (last_free NIL 0 (xs @ ys)))"
  using shape guard
proof (induction ys arbitrary: xs guard)
  case Nil
  then have sh: "heap_shape fl a (xs @ FreeB k # zs)" by simp
  note st = shape_step [OF sh Nil.prems(2)] shape_bounds(5) [OF sh]
  show ?case using st by (subst previous_free_loop.simps) simp
next
  case (Cons blk ys)
  have IH: "guard' \<le> length (free_sizes (xs @ [blk])) \<Longrightarrow>
      previous_free_loop fl a (span (xs @ blk # ys)) (last_free NIL 0 (xs @ [blk]))
        (first_free (span (xs @ [blk])) (ys @ FreeB k # zs) NIL) guard'
      = Some (Some (last_free NIL 0 (xs @ blk # ys)))" for guard'
    using Cons.IH [of "xs @ [blk]" guard'] Cons.prems(1) by simp
  show ?case
  proof (cases blk)
    case (LiveB n)
    then show ?thesis using IH [of guard] Cons.prems(2) by (simp add: last_free_append)
  next
    case (FreeB n)
    have sh: "heap_shape fl a (xs @ FreeB n # (ys @ FreeB k # zs))" using Cons.prems(1) FreeB by simp
    note st = shape_step [OF sh Cons.prems(2)] shape_bounds(5) [OF sh]
    show ?thesis
      using IH [of "Suc guard"] Cons.prems(2) st FreeB
      by (subst previous_free_loop.simps) (simp add: last_free_append)
  qed
qed

lemma previous_free_eq:
  assumes "heap_shape fl a (pre @ FreeB k # zs)"
  shows "previous_free fl a (span pre) = Some (Some (last_free NIL 0 pre))"
  using previous_free_loop_eq [of fl a "[]" pre k zs 0] assms by (simp add: previous_free_def heap_shape_def)

text \<open>
  The free neighbours of a block: the tiling before it splits into a rest and a last free block (or
  nothing), the one behind it into a first free block (or nothing) and a rest.
\<close>

fun split_next :: "block list \<Rightarrow> block list \<times> block list" where
  "split_next (FreeB n # bs) = ([FreeB n], bs)"
| "split_next bs = ([], bs)"

definition split_prev :: "block list \<Rightarrow> block list \<times> block list" where
  "split_prev bs = (if bs \<noteq> [] \<and> is_FreeB (last bs) then (butlast bs, [last bs]) else (bs, []))"

definition free_abs :: "block list \<Rightarrow> nat \<Rightarrow> block list \<Rightarrow> block list" where
  "free_abs pre s post =
     fst (split_prev pre) @ FreeB (span (snd (split_prev pre)) + s + span (fst (split_next post))) # snd (split_next post)"

lemma split_next_cases:
  "(\<exists>n ps. post = FreeB n # ps \<and> split_next post = ([FreeB n], ps)) \<or>
   split_next post = ([], post) \<and> (post = [] \<or> \<not> is_FreeB (hd post))"
  by (cases post rule: split_next.cases) auto

lemma split_prev_cases:
  "(\<exists>k ps. pre = ps @ [FreeB k] \<and> split_prev pre = (ps, [FreeB k])) \<or>
   split_prev pre = (pre, []) \<and> (pre = [] \<or> \<not> is_FreeB (last pre))"
proof (cases "pre \<noteq> [] \<and> is_FreeB (last pre)")
  case True
  then obtain k where "last pre = FreeB k" by (cases "last pre") auto
  then show ?thesis using True append_butlast_last_id [of pre] by (auto simp: split_prev_def)
qed (auto simp: split_prev_def)

lemma first_free_here:
  assumes "blocks_ok bs" "off < NIL"
  shows "first_free off bs NIL = off \<longleftrightarrow> bs \<noteq> [] \<and> is_FreeB (hd bs)"
proof (cases bs)
  case (Cons b cs)
  then show ?thesis
    using assms first_free_bound [of cs "off + bsize b" NIL] by (cases b) auto
qed (use assms in simp)

lemma merge_next_eq:
  assumes shape: "heap_shape fl a (pre @ LiveB s # post)"
  defines "e \<equiv> span pre + s"
  shows "merge_next a s e (first_free e post NIL) =
    Some (Inr (s + span (fst (split_next post)), first_free (e + span (fst (split_next post))) (snd (split_next post)) NIL))"
proof -
  note b = shape_bounds [OF shape]
  have ok: "blocks_ok post" "tiles a e post NIL" "e < NIL" "e + span post \<le> ISIZE_MAX"
    using shape b(3,4) by (auto simp: heap_shape_def tiles_append e_def)
  show ?thesis
  proof (cases "post \<noteq> [] \<and> is_FreeB (hd post)")
    case True
    then obtain n ps where post: "post = FreeB n # ps" using split_next_cases [of post] by auto
    moreover have "uadd s n = Some (s + n)" using ok(4) by (simp add: uadd_def post e_def rust_consts)
    ultimately show ?thesis using ok(2,3) by (auto simp: merge_next_def)
  next
    case False
    then have "split_next post = ([], post)" using split_next_cases [of post] by auto
    moreover have "first_free e post NIL \<noteq> e" using first_free_here [OF ok(1,3)] False by auto
    ultimately show ?thesis by (auto simp: merge_next_def)
  qed
qed

lemma merge_previous_eq:
  assumes shape: "heap_shape fl a (pre @ LiveB s # post)" and sz: "span pre + sz \<le> ISIZE_MAX"
  shows "merge_previous fl a (span pre) sz (last_free NIL 0 pre) =
    Some (Inr (span (fst (split_prev pre)), sz + span (snd (split_prev pre)), last_free NIL 0 (fst (split_prev pre))))"
proof -
  note b = shape_bounds [OF shape]
  have ok: "blocks_ok pre" "tiles a 0 (pre @ LiveB s # post) NIL" using shape by (auto simp: heap_shape_def)
  show ?thesis
  proof (cases "last_free NIL 0 pre = NIL")
    case True
    then have "\<forall>b \<in> set pre. \<not> is_FreeB b" using last_free_none [of 0 pre] b(4) by simp
    then have "split_prev pre = (pre, [])" by (auto simp: split_prev_def)
    then show ?thesis using True by (simp add: merge_previous_def)
  next
    case False
    obtain n x where h: "read_header a (last_free NIL 0 pre) = Some (MAGIC_FREE, n, x)" "last_free NIL 0 pre + n \<le> span pre"
      "last_free NIL 0 pre + n = span pre \<longleftrightarrow> is_FreeB (last pre)" "pre \<noteq> []"
      using last_free_header [OF ok(2,1) False] by auto
    have e: "uadd (last_free NIL 0 pre) n = Some (last_free NIL 0 pre + n)"
      using h(2) sz by (simp add: uadd_def rust_consts)
    show ?thesis
    proof (cases "is_FreeB (last pre)")
      case True
      then obtain k ps where pre: "pre = ps @ [FreeB k]" "split_prev pre = (ps, [FreeB k])"
        using split_prev_cases [of pre] h(4) by auto
      have last: "last_free NIL 0 pre = span ps" by (simp add: pre(1) last_free_append)
      then have "n = k" using True h(3) by (simp add: pre(1))
      moreover have "previous_free fl a (span ps) = Some (Some (last_free NIL 0 ps))"
        using previous_free_eq [of fl a ps k] shape by (simp add: pre(1))
      moreover have "uadd sz k = Some (sz + k)" using sz by (simp add: uadd_def pre(1) rust_consts)
      ultimately show ?thesis using False True h e last pre by (simp add: merge_previous_def)
    next
      case notf: False
      then have "split_prev pre = (pre, [])" by (simp add: split_prev_def)
      then show ?thesis using False notf h e by (simp add: merge_previous_def)
    qed
  qed
qed

lemma free_abs_facts:
  assumes "blocks_ok (pre @ LiveB s # post)" "separated (pre @ LiveB s # post)"
  shows "pre = fst (split_prev pre) @ snd (split_prev pre)" "post = fst (split_next post) @ snd (split_next post)"
    "separated (free_abs pre s post)" "blocks_ok (free_abs pre s post)" "span (free_abs pre s post) = span (pre @ LiveB s # post)"
    "payloads 0 (free_abs pre s post) = payloads 0 pre @ payloads (span pre + s) post"
proof -
  from split_prev_cases [of pre] split_next_cases [of post] show
    "pre = fst (split_prev pre) @ snd (split_prev pre)" "post = fst (split_next post) @ snd (split_next post)"
    "separated (free_abs pre s post)" "blocks_ok (free_abs pre s post)" "span (free_abs pre s post) = span (pre @ LiveB s # post)"
    "payloads 0 (free_abs pre s post) = payloads 0 pre @ payloads (span pre + s) post"
    using assms
    by (auto simp: free_abs_def separated_append separated_Cons payloads_append ac_simps)
qed

lemma insert_block_eq:
  assumes shape: "heap_shape fl a (pre @ LiveB s # post)"
  shows "\<exists>fl' a'. insert_block fl a (span pre) s (span pre + s) (last_free NIL 0 pre) (first_free (span pre + s) post NIL)
      = Some (fl', a', Inr ()) \<and> heap_inv fl' a' (free_abs pre s post) \<and> keeps (payloads 0 (free_abs pre s post)) a a'"
proof -
  define pre' pm nm post' where "pre' = fst (split_prev pre)" and "pm = snd (split_prev pre)"
    and "nm = fst (split_next post)" and "post' = snd (split_next post)"
  let ?start = "span pre'" and ?sz = "span pm + s + span nm" and ?cur = "first_free (span pre + s + span nm) post' NIL"
  note b = shape_bounds [OF shape]
  have ok: "blocks_ok (pre @ LiveB s # post)" "separated (pre @ LiveB s # post)" using shape by (auto simp: heap_shape_def)
  note fa = free_abs_facts [OF ok, folded pre'_def pm_def nm_def post'_def]
  have abs: "free_abs pre s post = pre' @ FreeB ?sz # post'" by (simp add: free_abs_def pre'_def pm_def nm_def post'_def)
  have sp: "span pre = ?start + span pm" "span post = span nm + span post'" using fa(1,2) span_simps(3) by metis+
  have whole: "pre @ LiveB s # post = pre' @ (pm @ LiveB s # nm) @ post'" using fa(1,2) by simp
  have "24 \<le> ?sz" using ok(1) by simp
  then have len: "?start + 24 \<le> length a" "?start + ?sz \<le> ISIZE_MAX" "?start + ?sz \<le> length a" using b(2,3) sp by auto
  have post'_ok: "blocks_ok post'" using fa(4) unfolding abs by simp
  have cur: "?cur \<le> U64_MAX"
    using first_free_bound [OF post'_ok, of "span pre + s + span nm" NIL] b(3) sp by (auto simp: rust_consts)
  let ?a3 = "put a ?start (hdr MAGIC_FREE ?sz ?cur)"
  have ag: "agree a ?a3 (span pre') (span pre' + span (pm @ LiveB s # nm))"
    using len \<open>24 \<le> ?sz\<close> by (intro agree_put) (auto simp: add.assoc)
  have rd: "read_header ?a3 ?start = Some (MAGIC_FREE, ?sz, ?cur)"
    using len b(1) cur by (intro read_header_put) (auto simp: rust_consts)
  have eqs: "span pre' + span (pm @ LiveB s # nm) = span pre + s + span nm" using sp by simp
  obtain fl1 a1 where l: "link fl ?a3 (last_free NIL 0 pre') ?start = Some (fl1, a1)" "heap_shape fl1 a1 (pre' @ [FreeB ?sz] @ post')"
    "keeps (payloads 0 pre') a a1" "keeps (payloads (span pre + s + span nm) post') a a1"
    using link_eq [of fl a pre' "pm @ LiveB s # nm" post' ?a3 "[FreeB ?sz]" ?start] shape ag rd fa(3,4)
    unfolding whole abs eqs by (auto simp: add.assoc)
  obtain fl' where r: "recompute fl1 a1 = Some fl'" "heap_inv fl' a1 (free_abs pre s post)"
    using recompute_eq [OF l(2)] unfolding abs by auto
  have mn: "merge_next a s (span pre + s) (first_free (span pre + s) post NIL) = Some (Inr (s + span nm, ?cur))"
    using merge_next_eq [OF shape] by (simp add: nm_def post'_def)
  have mp: "merge_previous fl a (span pre) (s + span nm) (last_free NIL 0 pre) = Some (Inr (?start, ?sz, last_free NIL 0 pre'))"
    using merge_previous_eq [OF shape, of "s + span nm"] b(3) sp by (simp add: pre'_def pm_def ac_simps)
  have "insert_block fl a (span pre) s (span pre + s) (last_free NIL 0 pre) (first_free (span pre + s) post NIL) =
      do { (fl, a) \<leftarrow> link fl ?a3 (last_free NIL 0 pre') ?start; fl \<leftarrow> recompute fl a; Some (fl, a, Inr ()) }"
  proof (cases "last_free NIL 0 pre' = NIL")
    case True
    then show ?thesis using mn mp write_header_eq [OF len(1) b(1)] by (simp add: insert_block_def link_def)
  next
    case False
    then obtain n x where "read_header ?a3 (last_free NIL 0 pre') = Some (n, x)"
      using l(1) by (auto simp: link_def run_simps)
    then show ?thesis
      using False mn mp write_header_eq [OF len(1) b(1)] by (cases x) (simp add: insert_block_def link_def)
  qed
  moreover have "keeps (payloads 0 (free_abs pre s post)) a a1"
    using l(3,4) sp unfolding abs by (simp add: payloads_append ac_simps)
  ultimately show ?thesis using l(1) r by auto
qed

lemma fl_dealloc_live:
  assumes inv: "heap_inv fl a (pre @ LiveB s # post)"
  shows "\<exists>fl' a'. fl_dealloc fl a (span pre + 24) = Some (fl', a', Inr ()) \<and> heap_inv fl' a' (free_abs pre s post) \<and>
    keeps (payloads 0 (free_abs pre s post)) a a'"
proof -
  have shape: "heap_shape fl a (pre @ LiveB s # post)" using inv by (simp add: heap_inv_def)
  note b = shape_bounds [OF shape]
  have ok: "blocks_ok pre" "32 \<le> s" "read_header a (span pre) = Some (MAGIC_ALLOC, s, NIL)" "fl_arena_len fl = span pre + s + span post"
    using shape by (auto simp: heap_shape_def tiles_append)
  have f: "find_place fl a (span pre + 24) (span pre) (span pre + s) NIL (fl_head fl) 0 =
      Some (Inr (last_free NIL 0 pre, first_free (span pre + s) post NIL))"
    using find_place_eq [of fl a "[]" pre s post 0] shape by (simp add: heap_shape_def)
  have "8 dvd span pre + 24" using blocks_ok_8 [OF ok(1)] by simp
  moreover have "fl_dealloc fl a (span pre + 24) =
      insert_block fl a (span pre) s (span pre + s) (last_free NIL 0 pre) (first_free (span pre + s) post NIL)"
    using calculation ok f b(3) arena_matches_shape [OF shape]
    by (simp add: fl_dealloc_def HEADER_SIZE_def HEADER_ALIGN_def is_multiple_of_def mod_eq_0_iff_dvd usub_def
        uadd_def MAGIC_ALLOC_def MAGIC_FREE_def ISIZE_MAX_def U64_MAX_def)
  ultimately show ?thesis using insert_block_eq [OF shape] by simp
qed

lemma find_place_inside:
  assumes shape: "heap_shape fl a (xs @ ys @ FreeB n # zs)" and guard: "guard \<le> length (free_sizes xs)"
    and h: "span (xs @ ys) < h" "h < span (xs @ ys) + n"
  shows "find_place fl a off h e (last_free NIL 0 xs) (first_free (span xs) (ys @ FreeB n # zs) NIL) guard
    = Some (Inl (BlockAlreadyFree off))"
  using shape guard h
proof (induction ys arbitrary: xs guard)
  case Nil
  then have sh: "heap_shape fl a (xs @ FreeB n # zs)" by simp
  note st = shape_step [OF sh Nil.prems(2)] shape_bounds(5) [OF sh]
  show ?case using st Nil.prems(3,4) by (subst find_place.simps) (simp add: HEADER_SIZE_def)
next
  case (Cons blk ys)
  have IH: "guard' \<le> length (free_sizes (xs @ [blk])) \<Longrightarrow>
      find_place fl a off h e (last_free NIL 0 (xs @ [blk])) (first_free (span (xs @ [blk])) (ys @ FreeB n # zs) NIL) guard'
      = Some (Inl (BlockAlreadyFree off))" for guard'
    using Cons.IH [of "xs @ [blk]" guard'] Cons.prems by simp
  show ?case
  proof (cases blk)
    case (LiveB m)
    then show ?thesis using IH [of guard] Cons.prems(2) by (simp add: last_free_append)
  next
    case (FreeB m)
    have sh: "heap_shape fl a (xs @ FreeB m # (ys @ FreeB n # zs))" using Cons.prems(1) FreeB by simp
    note st = shape_step [OF sh Cons.prems(2)] shape_bounds(5) [OF sh]
    show ?thesis
      using IH [of "Suc guard"] Cons.prems st FreeB
      by (subst find_place.simps) (simp add: last_free_append HEADER_SIZE_def)
  qed
qed

lemma fl_dealloc_free_memory:
  assumes inv: "heap_inv fl a (pre @ FreeB n # post)" and off: "span pre + 24 \<le> off" "off < span pre + n + 24"
  shows "\<exists>e. fl_dealloc fl a off = Some (fl, a, Inl e)"
proof -
  have shape: "heap_shape fl a (pre @ FreeB n # post)" using inv by (simp add: heap_inv_def)
  have rd: "read_header a (span pre) = Some (MAGIC_FREE, n, first_free (span pre + n) post NIL)"
    and hd: "fl_head fl = first_free 0 (pre @ FreeB n # post) NIL"
    using shape by (auto simp: heap_shape_def tiles_append)
  have h: "usub off HEADER_SIZE = Some (off - 24)" using off by (simp add: usub_def HEADER_SIZE_def)
  have f: "find_place fl a off (off - 24) e NIL (fl_head fl) 0 = Some (Inl (BlockAlreadyFree off))"
    if "off - 24 \<noteq> span pre" for e
    using find_place_inside [of fl a "[]" pre n post 0 "off - 24" off e] shape off that hd by simp
  show ?thesis
  proof (cases "off - 24 = span pre")
    case True
    then show ?thesis using rd h by (auto simp: fl_dealloc_def)
  next
    case False
    show ?thesis
      using h f [OF False] unfolding fl_dealloc_def
      by (auto split: option.split prod.split)
  qed
qed

section \<open>Consequences for the tiling\<close>

lemma payloads_after: "(p, n) \<in> set (payloads off bs) \<Longrightarrow> off + 24 \<le> p"
  by (induction off bs rule: payloads.induct) auto

lemma alloc_abs_SomeD:
  assumes "alloc_abs off sz al bs = Some (p, bs')"
  shows "\<exists>pre n post. bs = pre @ FreeB n # post \<and> p = payload_at (off + span pre + 24) al \<and>
    p + sz \<le> off + span pre + n \<and> bs' = pre @ carved (off + span pre) n sz al @ post"
  using assms
proof (induction off sz al bs arbitrary: p bs' rule: alloc_abs.induct)
  case (1 off sz al)
  then show ?case by simp
next
  case (2 off sz al m bs)
  then obtain bs1 where r: "alloc_abs (off + m) sz al bs = Some (p, bs1)" "bs' = LiveB m # bs1" by auto
  obtain pre n post where "bs = pre @ FreeB n # post" "p = payload_at (off + m + span pre + 24) al"
    "p + sz \<le> off + m + span pre + n" "bs1 = pre @ carved (off + m + span pre) n sz al @ post"
    using "2.IH" [OF r(1)] by blast
  then show ?case
    using r(2) by (intro exI [of _ "LiveB m # pre"] exI [of _ n] exI [of _ post]) (simp add: add.assoc)
next
  case (3 off sz al m bs)
  show ?case
  proof (cases "payload_at (off + 24) al + sz \<le> off + m")
    case True
    then show ?thesis using "3.prems" by (intro exI [of _ "[]"] exI [of _ m] exI [of _ bs]) simp
  next
    case False
    then obtain bs1 where r: "alloc_abs (off + m) sz al bs = Some (p, bs1)" "bs' = FreeB m # bs1" using "3.prems" by auto
    obtain pre n post where "bs = pre @ FreeB n # post" "p = payload_at (off + m + span pre + 24) al"
      "p + sz \<le> off + m + span pre + n" "bs1 = pre @ carved (off + m + span pre) n sz al @ post"
      using "3.IH" [OF False r(1)] by blast
    then show ?thesis
      using r(2) by (intro exI [of _ "FreeB m # pre"] exI [of _ n] exI [of _ post]) (simp add: add.assoc)
  qed
qed

lemma alloc_abs_None_iff:
  "alloc_abs off sz al bs = None \<longleftrightarrow>
     (\<forall>pre n post. bs = pre @ FreeB n # post \<longrightarrow> off + span pre + n < payload_at (off + span pre + 24) al + sz)"
proof (induction bs arbitrary: off)
  case Nil
  then show ?case by simp
next
  case (Cons b bs)
  have split: "(\<forall>pre n post. b # bs = pre @ FreeB n # post \<longrightarrow> P pre n) \<longleftrightarrow>
      (\<forall>n. b = FreeB n \<longrightarrow> P [] n) \<and> (\<forall>pre n post. bs = pre @ FreeB n # post \<longrightarrow> P (b # pre) n)" for P
    by (auto simp: Cons_eq_append_conv)
  show ?case
    unfolding split by (cases b) (auto simp: Cons.IH add.assoc not_le)
qed

lemma payloads_disjoint:
  assumes "blocks_ok bs" "(p, k) \<in> set (payloads off bs)" "(q, m) \<in> set (payloads off bs)" "(p, k) \<noteq> (q, m)"
  shows "p + k + 24 \<le> q \<or> q + m + 24 \<le> p"
  using assms
proof (induction off bs rule: payloads.induct)
  case (3 off n bs)
  have "off + n + 24 \<le> r" if "(r, j) \<in> set (payloads (off + n) bs)" for r j
    using that "3.prems"(1) payloads_after [of r j "off + n" bs] by simp
  then show ?case using 3 by auto
qed auto

lemma payloads_carved:
  assumes "8 dvd c" "8 dvd n" "alignment al" "0 < sz" "payload_at (c + 24) al + sz \<le> c + n"
  shows "\<exists>k \<ge> sz. k \<le> sz + 46 \<and> payloads c (carved c n sz al) = [(payload_at (c + 24) al, k)] \<and> payload_at (c + 24) al + k \<le> c + n"
proof -
  define p g t ts where "p = payload_at (c + 24) al" and "g = gap_of c al" and "t = tail_of c n sz al"
    and "ts = round_up (payload_at (c + 24) al + sz) 8"
  note ar = carve_arith [OF assms, folded p_def g_def t_def ts_def]
  have up: "ts < p + sz + 8" unfolding ts_def p_def by (rule round_up_bounds(2)) simp
  have "c + n - ts < 40 + t" using ar(10) by (cases "40 \<le> c + n - ts") simp_all
  then have k: "n - g - t - 24 \<le> sz + 46" using ar(1,4,9) up by linarith
  have "payloads c (carved c n sz al) = [(p, n - g - t - 24)]" "sz \<le> n - g - t - 24" "p + (n - g - t - 24) \<le> c + n"
    using ar(1,3,4,5) by (auto simp: carved_def carve_blocks_def g_def [symmetric] t_def [symmetric])
  then show ?thesis using k unfolding p_def by blast
qed

lemma tiling_unique_free:
  assumes "separated bs" "payloads off bs = []" "bs \<noteq> []"
  shows "bs = [FreeB (span bs)]"
proof (cases bs)
  case (Cons b cs)
  then obtain n where b: "b = FreeB n" using assms(2) by (cases b) auto
  have "cs = []"
  proof (cases cs)
    case (Cons c ds)
    then show ?thesis using assms(1,2) \<open>bs = b # cs\<close> b by (cases c) auto
  qed simp
  then show ?thesis using \<open>bs = b # cs\<close> b by simp
qed (use assms in simp)

lemma fl_init_eq:
  assumes "length arena \<le> ISIZE_MAX"
  shows "length arena div 8 * 8 < 40 \<Longrightarrow> fl_init arena = Some (fl_empty, arena)"
    and "40 \<le> length arena div 8 * 8 \<Longrightarrow> \<exists>fl a. fl_init arena = Some (fl, a) \<and>
      heap_inv fl a [FreeB (length arena div 8 * 8)] \<and> length a = length arena"
proof -
  have n: "and_not (length arena) (HEADER_ALIGN - 1) = length arena div 8 * 8"
    using and_not_mask [of "length arena" 3] assms by (simp add: HEADER_ALIGN_def rust_consts)
  show "length arena div 8 * 8 < 40 \<Longrightarrow> fl_init arena = Some (fl_empty, arena)"
    unfolding fl_init_def n by (simp add: MIN_BLOCK_def HEADER_SIZE_def MIN_PAYLOAD_def)
  assume big: "40 \<le> length arena div 8 * 8"
  have len: "0 + 24 \<le> length arena" "length arena \<le> U64_MAX" "length arena div 8 * 8 \<le> U64_MAX"
    using big assms div_times_less_eq_dividend [of "length arena" 8] by (auto simp: rust_consts)
  let ?a = "put arena 0 (hdr MAGIC_FREE (length arena div 8 * 8) NIL)"
  have "read_header ?a 0 = Some (MAGIC_FREE, length arena div 8 * 8, NIL)"
    using len by (intro read_header_put) (auto simp: rust_consts)
  then show "\<exists>fl a. fl_init arena = Some (fl, a) \<and> heap_inv fl a [FreeB (length arena div 8 * 8)] \<and> length a = length arena"
    using big len assms write_header_eq [OF len(1,2)] unfolding fl_init_def n
    by (simp add: Let_def usub_def MIN_BLOCK_def HEADER_SIZE_def MIN_PAYLOAD_def heap_inv_def heap_shape_def stats_ok_def)
qed

text \<open>A client writing into its own payload does not disturb the heap.\<close>

lemma agree_put_bytes: "off + length ys \<le> length a \<Longrightarrow> agree a (put a off ys) off (off + length ys)"
  by (auto simp: agree_def nth_put)

lemma tiles_put_payload:
  assumes "tiles a off bs after" "blocks_ok bs" "(p, k) \<in> set (payloads off bs)" "i + length ys \<le> k"
    "off + span bs \<le> length a" "length a \<le> U64_MAX"
  shows "tiles (put a (p + i) ys) off bs after"
  using assms(1-5)
proof (induction bs arbitrary: off)
  case Nil
  then show ?case by simp
next
  case (Cons b bs)
  have pk: "off + 24 \<le> p" "p + k \<le> off + span (b # bs)"
    using payloads_after payloads_inside Cons.prems(2,3) by blast+
  have ag: "agree a (put a (p + i) ys) (p + i) (p + i + length ys)"
    using pk Cons.prems(4,5) by (intro agree_put_bytes) auto
  have hd: "read_header (put a (p + i) ys) off = read_header a off"
    using agree_read [OF ag assms(6)] pk by auto
  show ?case
  proof (cases "(p, k) \<in> set (payloads (off + bsize b) bs)")
    case True
    then have "tiles (put a (p + i) ys) (off + bsize b) bs after"
      using Cons.IH [of "off + bsize b"] Cons.prems by (cases b) auto
    then show ?thesis using Cons.prems(1) hd by (cases b) auto
  next
    case False
    then obtain n where b: "b = LiveB n" "p = off + 24" "k = n - 24"
      using Cons.prems(3) by (cases b) auto
    have "tiles (put a (p + i) ys) (off + n) bs after = tiles a (off + n) bs after"
      using Cons.prems(2,4) b by (intro tiles_agree [OF ag assms(6)]) auto
    then show ?thesis using Cons.prems(1) hd b(1) by simp
  qed
qed

lemma heap_inv_write:
  assumes inv: "heap_inv fl a bs" and p: "(p, k) \<in> set (payloads 0 bs)" "i + length ys \<le> k"
  shows "heap_inv fl (put a (p + i) ys) bs"
proof -
  have shape: "heap_shape fl a bs" using inv by (simp add: heap_inv_def)
  note b = shape_bounds [OF shape]
  have "p + k \<le> 0 + span bs" using payloads_inside [OF p(1)] shape by (auto simp: heap_shape_def)
  then have "p + i + length ys \<le> length a" using p(2) b(2) by auto
  then show ?thesis
    using inv tiles_put_payload [of a 0 bs NIL p k i ys] p b by (simp add: heap_inv_def heap_shape_def)
qed

end
