(* ===== verification/Heap_Contract.thy ===== *)
theory Heap_Contract
  imports Heap_Tiling
begin

text \<open>
  The contract of the heap: the interface its clients rely on, interpreted on the free list, the
  histories of allocations, releases and client writes, and the properties of the heap.
\<close>

section \<open>The allocator as an interface\<close>

text \<open>
  What a client of the heap relies on, with the set of live areas (offset and length) as the
  abstraction: areas never overlap, an allocation adds an area of at least the requested length and
  alignment, a release removes one, and neither changes the bytes of the other areas.
\<close>

locale byte_allocator =
  fixes ok :: "'s \<Rightarrow> (nat \<times> nat) set \<Rightarrow> bool"
    and mem :: "'s \<Rightarrow> bytes"
    and alloc :: "'s \<Rightarrow> nat \<Rightarrow> nat \<Rightarrow> ('s \<times> nat option) panics"
    and release :: "'s \<Rightarrow> nat \<Rightarrow> ('s \<times> ('e + unit)) panics"
  assumes areas_finite: "ok s A \<Longrightarrow> finite A"
    and areas_inside: "ok s A \<Longrightarrow> (p, k) \<in> A \<Longrightarrow> p + k \<le> length (mem s)"
    and areas_disjoint: "ok s A \<Longrightarrow> (p, k) \<in> A \<Longrightarrow> (q, m) \<in> A \<Longrightarrow> (p, k) \<noteq> (q, m) \<Longrightarrow> p + k < q \<or> q + m < p"
    and alloc_total: "ok s A \<Longrightarrow> alloc s n al \<noteq> None"
    and alloc_some: "ok s A \<Longrightarrow> alloc s n al = Some (s', Some p) \<Longrightarrow>
      \<exists>k \<ge> n. (p, k) \<notin> A \<and> ok s' (insert (p, k) A) \<and> al dvd p \<and> (\<forall>(q, m) \<in> A. sub (mem s') q m = sub (mem s) q m)"
    and alloc_none: "ok s A \<Longrightarrow> alloc s n al = Some (s', None) \<Longrightarrow> s' = s"
    and release_live: "ok s A \<Longrightarrow> (p, k) \<in> A \<Longrightarrow>
      \<exists>s'. release s p = Some (s', Inr ()) \<and> ok s' (A - {(p, k)}) \<and>
        (\<forall>(q, m) \<in> A - {(p, k)}. sub (mem s') q m = sub (mem s) q m)"
begin

text \<open>An allocation that is released again leaves the other areas and their contents as they were.\<close>

lemma alloc_release:
  assumes "ok s A" "alloc s n al = Some (s1, Some p)"
  shows "\<exists>s2. release s1 p = Some (s2, Inr ()) \<and> ok s2 A \<and> (\<forall>(q, m) \<in> A. sub (mem s2) q m = sub (mem s) q m)"
proof -
  obtain k where k: "(p, k) \<notin> A" "ok s1 (insert (p, k) A)" "\<forall>(q, m) \<in> A. sub (mem s1) q m = sub (mem s) q m"
    using alloc_some [OF assms] by blast
  then show ?thesis using release_live [OF k(2), of p k] by fastforce
qed

lemma release_twice_areas:
  assumes "ok s A" "(p, k) \<in> A" "release s p = Some (s', r)"
  shows "r = Inr ()" "ok s' (A - {(p, k)})"
  using release_live [OF assms(1,2)] assms(3) by auto

end

definition heap_mem :: "FreeList \<times> bytes \<Rightarrow> bytes" where
  "heap_mem h = snd h"

definition heap_alloc :: "FreeList \<times> bytes \<Rightarrow> nat \<Rightarrow> nat \<Rightarrow> ((FreeList \<times> bytes) \<times> nat option) panics" where
  "heap_alloc h n al = map_option (\<lambda>(fl, a, r). ((fl, a), r)) (fl_alloc (fst h) (snd h) n al)"

definition heap_release :: "FreeList \<times> bytes \<Rightarrow> nat \<Rightarrow> ((FreeList \<times> bytes) \<times> (FreeListError + unit)) panics" where
  "heap_release h p = map_option (\<lambda>(fl, a, r). ((fl, a), r)) (fl_dealloc (fst h) (snd h) p)"

definition heap_ok :: "FreeList \<times> bytes \<Rightarrow> (nat \<times> nat) set \<Rightarrow> bool" where
  "heap_ok h A \<longleftrightarrow> (\<exists>bs. heap_inv (fst h) (snd h) bs \<and> A = set (payloads 0 bs))"

lemma payloads_distinct: "blocks_ok bs \<Longrightarrow> distinct (payloads off bs)"
proof (induction off bs rule: payloads.induct)
  case (3 off n bs)
  then show ?case using payloads_after [of "off + 24" "n - 24" "off + n" bs] by auto
qed auto

lemma fl_alloc_cases:
  assumes inv: "heap_inv fl a bs"
  shows "fl_alloc fl a n al = Some (fl, a, None) \<or>
    (\<exists>fl' a' p k bs'. fl_alloc fl a n al = Some (fl', a', Some p) \<and> heap_inv fl' a' bs' \<and> n \<le> k \<and> k \<le> n + 46 \<and> al dvd p \<and>
      (p, k) \<notin> set (payloads 0 bs) \<and> set (payloads 0 bs') = insert (p, k) (set (payloads 0 bs)) \<and> keeps (payloads 0 bs) a a' \<and>
      span bs' = span bs)"
proof (cases "n = 0 \<or> \<not> is_power_of_two al \<or> MAX_ALIGN < al")
  case True
  then show ?thesis by (auto simp: fl_alloc_def)
next
  case False
  then have al: "is_power_of_two al" "al \<le> MAX_ALIGN" "alignment al" "0 < n" using alignment_iff [of al] by auto
  obtain fl' a' where spec: "case alloc_abs 0 n al bs of
      None \<Rightarrow> fl_alloc fl a n al = Some (fl, a, None)
    | Some (p, bs') \<Rightarrow> fl_alloc fl a n al = Some (fl', a', Some p) \<and> heap_inv fl' a' bs' \<and> keeps (payloads 0 bs) a a'"
    using fl_alloc_eq [OF inv al(1,2,4)] by blast
  show ?thesis
  proof (cases "alloc_abs 0 n al bs")
    case None
    then show ?thesis using spec by simp
  next
    case (Some r)
    obtain p bs' where r: "r = (p, bs')" by (cases r)
    obtain pre m post where ab: "bs = pre @ FreeB m # post" "p = payload_at (span pre + 24) al"
      "p + n \<le> span pre + m" "bs' = pre @ carved (span pre) m n al @ post"
      using alloc_abs_SomeD [of 0 n al bs p bs'] Some r by auto
    have ok: "blocks_ok pre" "8 dvd m" "blocks_ok post" "blocks_ok bs'" and inv': "heap_inv fl' a' bs'"
      using inv spec Some r ab(1) by (auto simp: heap_inv_def heap_shape_def)
    have ar: "8 dvd span pre" "p + n \<le> span pre + m" using blocks_ok_8 [OF ok(1)] ab by auto
    obtain k where k: "n \<le> k" "payloads (span pre) (carved (span pre) m n al) = [(p, k)]" "k \<le> n + 46"
      using payloads_carved [OF ar(1) ok(2) al(3,4)] ar(2) ab(2) by auto
    have sp: "span (carved (span pre) m n al) = m"
      using carve_arith(4) [OF ar(1) ok(2) al(3,4)] ar(2) ab(2) by (simp add: carved_def carve_blocks_def)
    then have ps: "payloads 0 bs' = payloads 0 pre @ (p, k) # payloads (span pre + m) post"
      using k(2) by (simp add: ab(4) payloads_append)
    have "payloads 0 bs = payloads 0 pre @ payloads (span pre + m) post" by (simp add: ab(1) payloads_append)
    moreover have "distinct (payloads 0 bs')" by (rule payloads_distinct [OF ok(4)])
    moreover have "al dvd p" using payload_at_bounds(1) [OF al(3), of "span pre + 24"] ar(1) ab(2) by simp
    moreover have "span bs' = span bs" by (simp add: ab(1,4) sp)
    ultimately show ?thesis
      using spec Some r k(1,3) ps by (intro disjI2 exI [of _ fl'] exI [of _ a'] exI [of _ p] exI [of _ k] exI [of _ bs']) auto
  qed
qed

lemma payloads_split:
  "(p, k) \<in> set (payloads off bs) \<Longrightarrow> \<exists>pre n post. bs = pre @ LiveB n # post \<and> p = off + span pre + 24 \<and> k = n - 24"
proof (induction off bs rule: payloads.induct)
  case (2 off m bs)
  then obtain pre n post where "bs = pre @ LiveB n # post" "p = off + m + span pre + 24" "k = n - 24" by auto
  then show ?case by (intro exI [of _ "FreeB m # pre"] exI [of _ n] exI [of _ post]) simp
next
  case (3 off m bs)
  show ?case
  proof (cases "(p, k) \<in> set (payloads (off + m) bs)")
    case True
    then obtain pre n post where "bs = pre @ LiveB n # post" "p = off + m + span pre + 24" "k = n - 24" using "3.IH" by blast
    then show ?thesis by (intro exI [of _ "LiveB m # pre"] exI [of _ n] exI [of _ post]) simp
  next
    case False
    then show ?thesis using "3.prems" by (intro exI [of _ "[]"] exI [of _ m] exI [of _ bs]) simp
  qed
qed simp

lemma fl_dealloc_area:
  assumes inv: "heap_inv fl a bs" and area: "(p, k) \<in> set (payloads 0 bs)"
  shows "\<exists>fl' a' bs'. fl_dealloc fl a p = Some (fl', a', Inr ()) \<and> heap_inv fl' a' bs' \<and>
    set (payloads 0 bs') = set (payloads 0 bs) - {(p, k)} \<and> keeps (payloads 0 bs') a a' \<and> span bs' = span bs"
proof -
  obtain pre n post where bs: "bs = pre @ LiveB n # post" "p = span pre + 24" "k = n - 24"
    using payloads_split [OF area] by auto
  have ok: "blocks_ok (pre @ LiveB n # post)" "separated (pre @ LiveB n # post)"
    using inv bs(1) by (auto simp: heap_inv_def heap_shape_def)
  have "payloads 0 bs = payloads 0 pre @ (p, k) # payloads (span pre + n) post" by (simp add: bs payloads_append)
  moreover have "distinct (payloads 0 bs)" using payloads_distinct ok(1) bs(1) by blast
  ultimately have "set (payloads 0 (free_abs pre n post)) = set (payloads 0 bs) - {(p, k)}"
    using free_abs_facts(6) [OF ok] by auto
  then show ?thesis
    using fl_dealloc_live [of fl a pre n post] inv bs free_abs_facts(5) [OF ok] by blast
qed

interpretation heap: byte_allocator heap_ok heap_mem heap_alloc heap_release
proof unfold_locales
  fix s :: "FreeList \<times> bytes" and A
  assume ok: "heap_ok s A"
  then obtain bs where inv: "heap_inv (fst s) (snd s) bs" and A: "A = set (payloads 0 bs)" by (auto simp: heap_ok_def)
  have shape: "heap_shape (fst s) (snd s) bs" and bok: "blocks_ok bs" using inv by (auto simp: heap_inv_def heap_shape_def)
  show "finite A" by (simp add: A)
  show "p + k \<le> length (heap_mem s)" if "(p, k) \<in> A" for p k
    using payloads_inside [of p k 0 bs] that bok shape_bounds(2) [OF shape] by (auto simp: A heap_mem_def)
  show "p + k < q \<or> q + m < p" if "(p, k) \<in> A" "(q, m) \<in> A" "(p, k) \<noteq> (q, m)" for p k q m
    using payloads_disjoint [OF bok] that unfolding A by fastforce
  show "heap_alloc s n al \<noteq> None" for n al
    using fl_alloc_cases [OF inv, of n al] by (auto simp: heap_alloc_def)
  show "\<exists>k \<ge> n. (p, k) \<notin> A \<and> heap_ok s' (insert (p, k) A) \<and> al dvd p \<and>
      (\<forall>(q, m) \<in> A. sub (heap_mem s') q m = sub (heap_mem s) q m)"
    if "heap_alloc s n al = Some (s', Some p)" for n al s' p
    using fl_alloc_cases [OF inv, of n al] that
    by (auto simp: heap_alloc_def heap_ok_def heap_mem_def keeps_def A) (metis (no_types))
  show "s' = s" if "heap_alloc s n al = Some (s', None)" for n al s'
    using fl_alloc_cases [OF inv, of n al] that by (auto simp: heap_alloc_def)
  show "\<exists>s'. heap_release s p = Some (s', Inr ()) \<and> heap_ok s' (A - {(p, k)}) \<and>
      (\<forall>(q, m) \<in> A - {(p, k)}. sub (heap_mem s') q m = sub (heap_mem s) q m)" if pk: "(p, k) \<in> A" for p k
  proof -
    obtain fl' a' bs' where "fl_dealloc (fst s) (snd s) p = Some (fl', a', Inr ())" "heap_inv fl' a' bs'"
      "set (payloads 0 bs') = A - {(p, k)}" "keeps (payloads 0 bs') (snd s) a'"
      using fl_dealloc_area [OF inv] pk unfolding A by meson
    then show ?thesis
      by (intro exI [of _ "(fl', a')"]) (auto simp: heap_release_def heap_ok_def heap_mem_def keeps_def)
  qed
qed

section \<open>Every history of the heap\<close>

text \<open>
  The states a heap reaches when its client allocates, releases what it holds and writes into the
  areas it asked for.  \<open>A\<close> is the set of areas the client holds: offset and requested length.
\<close>

inductive heap_reach :: "FreeList \<Rightarrow> bytes \<Rightarrow> (nat \<times> nat) set \<Rightarrow> bool" where
  init: "length arena \<le> ISIZE_MAX \<Longrightarrow> 40 \<le> length arena div 8 * 8 \<Longrightarrow> fl_init arena = Some (fl, a) \<Longrightarrow> heap_reach fl a {}"
| alloc: "heap_reach fl a A \<Longrightarrow> fl_alloc fl a n al = Some (fl', a', Some p) \<Longrightarrow> heap_reach fl' a' (insert (p, n) A)"
| fail: "heap_reach fl a A \<Longrightarrow> fl_alloc fl a n al = Some (fl', a', None) \<Longrightarrow> heap_reach fl' a' A"
| free: "heap_reach fl a A \<Longrightarrow> (p, n) \<in> A \<Longrightarrow> fl_dealloc fl a p = Some (fl', a', r) \<Longrightarrow> heap_reach fl' a' (A - {(p, n)})"
| store: "heap_reach fl a A \<Longrightarrow> (p, n) \<in> A \<Longrightarrow> i + length ys \<le> n \<Longrightarrow> heap_reach fl (put a (p + i) ys) A"

definition tracks :: "block list \<Rightarrow> (nat \<times> nat) set \<Rightarrow> bool" where
  "tracks bs A \<longleftrightarrow> (\<forall>p n. (p, n) \<in> A \<longrightarrow> (\<exists>k \<ge> n. (p, k) \<in> set (payloads 0 bs))) \<and>
     (\<forall>p k. (p, k) \<in> set (payloads 0 bs) \<longrightarrow> (\<exists>n. (p, n) \<in> A)) \<and> (\<forall>p n m. (p, n) \<in> A \<longrightarrow> (p, m) \<in> A \<longrightarrow> n = m) \<and>
     (\<forall>p n k. (p, n) \<in> A \<longrightarrow> (p, k) \<in> set (payloads 0 bs) \<longrightarrow> k \<le> n + 46)"

lemma tracksD:
  assumes "tracks bs A"
  shows "(p, n) \<in> A \<Longrightarrow> \<exists>k \<ge> n. (p, k) \<in> set (payloads 0 bs)" "(p, k) \<in> set (payloads 0 bs) \<Longrightarrow> \<exists>n. (p, n) \<in> A"
    "(p, n) \<in> A \<Longrightarrow> (p, m) \<in> A \<Longrightarrow> n = m" "(p, n) \<in> A \<Longrightarrow> (p, k) \<in> set (payloads 0 bs) \<Longrightarrow> k \<le> n + 46"
  using assms unfolding tracks_def by blast+

lemma payloads_start_unique:
  "blocks_ok bs \<Longrightarrow> (p, k) \<in> set (payloads off bs) \<Longrightarrow> (p, m) \<in> set (payloads off bs) \<Longrightarrow> k = m"
  using payloads_disjoint [of bs p k off p m] by fastforce

lemma tracks_alloc:
  assumes t: "tracks bs A" and ps: "set (payloads 0 bs') = insert (p, k) (set (payloads 0 bs))" "(p, k) \<notin> set (payloads 0 bs)"
    and k: "n \<le> k" "blocks_ok bs'" "k \<le> n + 46"
  shows "tracks bs' (insert (p, n) A)"
proof -
  have fresh: "(p, m) \<notin> A" for m
  proof
    assume "(p, m) \<in> A"
    then obtain j where "(p, j) \<in> set (payloads 0 bs)" using tracksD(1) [OF t] by blast
    then show False using payloads_start_unique [OF k(2), of p j 0 k] ps by auto
  qed
  have other: "q \<noteq> p" if "(q, j) \<in> set (payloads 0 bs)" for q j
    using that payloads_start_unique [OF k(2), of q j 0 k] ps by auto
  show ?thesis
    unfolding tracks_def ps(1) using fresh other k(1,3) tracksD [OF t] by (intro conjI allI impI) (auto, blast+)
qed

lemma tracks_free:
  assumes t: "tracks bs A" and p: "(p, n) \<in> A" "(p, k) \<in> set (payloads 0 bs)"
    and ps: "set (payloads 0 bs') = set (payloads 0 bs) - {(p, k)}" and ok: "blocks_ok bs"
  shows "tracks bs' (A - {(p, n)})"
proof -
  have A: "q \<noteq> p" if "(q, m) \<in> A" "(q, m) \<noteq> (p, n)" for q m
    using tracksD(3) [OF t] p(1) that by blast
  have P: "q \<noteq> p" if "(q, j) \<in> set (payloads 0 bs)" "(q, j) \<noteq> (p, k)" for q j
    using payloads_start_unique [OF ok] p(2) that by blast
  show ?thesis
    unfolding tracks_def ps using A P tracksD [OF t] by (intro conjI allI impI) (auto, blast+)
qed

lemma heap_reach_inv:
  "heap_reach fl a A \<Longrightarrow> \<exists>bs. heap_inv fl a bs \<and> tracks bs A \<and> 40 \<le> span bs"
proof (induction rule: heap_reach.induct)
  case (init arena fl a)
  then have "heap_inv fl a [FreeB (length arena div 8 * 8)]"
    using fl_init_eq(2) [of arena] by auto
  then show ?case using init(2) by (intro exI [of _ "[FreeB (length arena div 8 * 8)]"]) (simp add: tracks_def)
next
  case (alloc fl a A n al fl' a' p)
  then obtain bs where bs: "heap_inv fl a bs" "tracks bs A" "40 \<le> span bs" by blast
  then obtain k bs' where "heap_inv fl' a' bs'" "n \<le> k" "k \<le> n + 46" "(p, k) \<notin> set (payloads 0 bs)"
    "set (payloads 0 bs') = insert (p, k) (set (payloads 0 bs))" "span bs' = span bs"
    using fl_alloc_cases [OF bs(1), of n al] alloc(2) by auto
  then show ?case
    using bs tracks_alloc [of bs A bs' p k n] by (auto simp: heap_inv_def heap_shape_def)
next
  case (fail fl a A n al fl' a')
  then obtain bs where bs: "heap_inv fl a bs" "tracks bs A" "40 \<le> span bs" by blast
  then show ?case using fl_alloc_cases [OF bs(1), of n al] fail(2) by auto
next
  case (free fl a A p n fl' a' r)
  then obtain bs where bs: "heap_inv fl a bs" "tracks bs A" "40 \<le> span bs" by blast
  obtain k where k: "(p, k) \<in> set (payloads 0 bs)" using tracksD(1) [OF bs(2) free(2)] by blast
  obtain bs' where "heap_inv fl' a' bs'" "set (payloads 0 bs') = set (payloads 0 bs) - {(p, k)}" "span bs' = span bs"
    using fl_dealloc_area [OF bs(1) k] free(3) by auto
  then show ?case
    using bs tracks_free [OF bs(2) free(2) k] by (auto simp: heap_inv_def heap_shape_def)
next
  case (store fl a A p n i ys)
  then obtain bs where bs: "heap_inv fl a bs" "tracks bs A" "40 \<le> span bs" by blast
  obtain k where "(p, k) \<in> set (payloads 0 bs)" "n \<le> k" using tracksD(1) [OF bs(2) store(2)] by blast
  then show ?case using heap_inv_write [OF bs(1)] bs store(3) by (meson le_trans)
qed

lemma reach_areas:
  assumes "heap_reach fl a A"
  shows "(p, n) \<in> A \<Longrightarrow> p + n \<le> fl_arena_len fl" "(p, n) \<in> A \<Longrightarrow> 24 \<le> p" "fl_arena_len fl \<le> length a"
    "(p, n) \<in> A \<Longrightarrow> (q, m) \<in> A \<Longrightarrow> (p, n) \<noteq> (q, m) \<Longrightarrow> p + n < q \<or> q + m < p"
proof -
  obtain bs where bs: "heap_inv fl a bs" "tracks bs A" using heap_reach_inv [OF assms] by blast
  have ok: "blocks_ok bs" "span bs = fl_arena_len fl" "heap_shape fl a bs" using bs(1) by (auto simp: heap_inv_def heap_shape_def)
  show "fl_arena_len fl \<le> length a" using shape_bounds(2) [OF ok(3)] ok(2) by simp
  show "p + n \<le> fl_arena_len fl" "24 \<le> p" if pn: "(p, n) \<in> A"
  proof -
    obtain k where "n \<le> k" "(p, k) \<in> set (payloads 0 bs)" using tracksD(1) [OF bs(2) pn] by blast
    then show "p + n \<le> fl_arena_len fl" "24 \<le> p"
      using payloads_inside [of p k 0 bs] payloads_after [of p k 0 bs] ok by auto
  qed
  show "p + n < q \<or> q + m < p" if pq: "(p, n) \<in> A" "(q, m) \<in> A" "(p, n) \<noteq> (q, m)"
  proof -
    obtain k j where kj: "n \<le> k" "(p, k) \<in> set (payloads 0 bs)" "m \<le> j" "(q, j) \<in> set (payloads 0 bs)"
      using tracksD(1) [OF bs(2)] pq by blast
    have "p \<noteq> q" using tracksD(3) [OF bs(2)] pq by blast
    then show ?thesis using payloads_disjoint [OF ok(1) kj(2,4)] kj(1,3) by auto
  qed
qed

text \<open>
  A bound on fragmentation: a live block is at most 70 bytes larger than what was asked for, free blocks are never
  neighbours, so there is at most one more of them than there are areas in use.
\<close>

lemma separated_count: "separated bs \<Longrightarrow> length (free_sizes bs) \<le> length (payloads off bs) + (if bs \<noteq> [] \<and> is_FreeB (hd bs) then 1 else 0)"
proof (induction bs arbitrary: off)
  case (Cons b bs)
  then show ?case by (cases b; cases bs) (fastforce simp: separated_Cons split: if_splits)+
qed simp

lemma span_split: "blocks_ok bs \<Longrightarrow> span bs = sum_list (free_sizes bs) + sum_list (map (\<lambda>(p, k). k + 24) (payloads off bs))"
  by (induction off bs rule: payloads.induct) auto

lemma sum_list_max: "sum_list xs \<le> length xs * (foldr max (map (\<lambda>n. n - c) xs) 0 + c)" for c :: nat
proof -
  have "n \<le> foldr max (map (\<lambda>n. n - c) xs) 0 + c" if "n \<in> set xs" for n
    using that by (induction xs) (auto simp: max_def)
  then show ?thesis using sum_list_mono [of xs id "\<lambda>_. foldr max (map (\<lambda>n. n - c) xs) 0 + c"] by (simp add: sum_list_triv)
qed

lemma tracks_sum:
  assumes t: "tracks bs A" and ok: "blocks_ok bs"
  shows "finite A" "card A = length (payloads 0 bs)" "sum_list (map (\<lambda>(p, k). k + 24) (payloads 0 bs)) \<le> (\<Sum>(p, n) \<in> A. n + 70)"
proof -
  let ?P = "set (payloads 0 bs)"
  have inj: "inj_on fst A" "inj_on fst ?P"
    using tracksD(3) [OF t] payloads_start_unique [OF ok] by (force simp: inj_on_def)+
  have img: "fst ` A = fst ` ?P" using tracksD(1,2) [OF t] by force
  show fin: "finite A" using inj(1) img by (metis List.finite_set finite_imageD finite_imageI)
  show "card A = length (payloads 0 bs)"
    using card_image [OF inj(1)] card_image [OF inj(2)] img distinct_card [OF payloads_distinct [OF ok]] by simp
  have "sum_list (map (\<lambda>(p, k). k + 24) (payloads 0 bs)) = (\<Sum>(p, k) \<in> ?P. k + 24)"
    using payloads_distinct [OF ok] by (simp add: sum_list_distinct_conv_sum_set)
  also have "\<dots> \<le> (\<Sum>(p, n) \<in> A. n + 70)"
  proof (rule sum_le_included [where i = "\<lambda>y. inv_into ?P fst (fst y)"])
    show "\<forall>x \<in> ?P. \<exists>y \<in> A. inv_into ?P fst (fst y) = x \<and> (case x of (p, k) \<Rightarrow> k + 24) \<le> (case y of (p, n) \<Rightarrow> n + 70)"
    proof
      fix x assume x: "x \<in> ?P"
      obtain p k where pk: "x = (p, k)" by (cases x)
      then obtain n where n: "(p, n) \<in> A" using tracksD(2) [OF t] x by blast
      have "inv_into ?P fst (fst x) = x" using inj(2) x by simp
      then show "\<exists>y \<in> A. inv_into ?P fst (fst y) = x \<and> (case x of (p, k) \<Rightarrow> k + 24) \<le> (case y of (p, n) \<Rightarrow> n + 70)"
        using n tracksD(4) [OF t n, of k] x pk by (intro bexI [of _ "(p, n)"]) auto
    qed
  qed (use fin in auto)
  finally show "sum_list (map (\<lambda>(p, k). k + 24) (payloads 0 bs)) \<le> (\<Sum>(p, n) \<in> A. n + 70)" .
qed

lemma reach_room:
  assumes "heap_reach fl a A"
  shows "finite A" "fl_arena_len fl \<le> (\<Sum>(p, n) \<in> A. n + 70) + (card A + 1) * (hs_largest_free (fl_stats fl) + 24)"
proof -
  obtain bs where bs: "heap_inv fl a bs" "tracks bs A" using heap_reach_inv [OF assms] by blast
  have ok: "blocks_ok bs" "span bs = fl_arena_len fl" "separated bs" "fl_largest_free fl = foldr max (map (\<lambda>n. n - 24) (free_sizes bs)) 0"
    using bs(1) by (auto simp: heap_inv_def heap_shape_def stats_ok_def)
  note ts = tracks_sum [OF bs(2) ok(1)]
  show "finite A" by (rule ts(1))
  have "length (free_sizes bs) \<le> card A + 1" using separated_count [OF ok(3), of 0] ts(2) by (auto split: if_splits)
  then have "sum_list (free_sizes bs) \<le> (card A + 1) * (fl_largest_free fl + 24)"
    using sum_list_max [of "free_sizes bs" 24] unfolding ok(4) by (meson le_trans mult_le_mono1)
  then show "fl_arena_len fl \<le> (\<Sum>(p, n) \<in> A. n + 70) + (card A + 1) * (hs_largest_free (fl_stats fl) + 24)"
    using span_split [OF ok(1), of 0] ts(3) ok(2) by (simp add: fl_stats_def)
qed

text \<open>A free block that is large enough is found.\<close>

lemma foldr_max_mem: "foldr max xs (0 :: nat) \<in> insert 0 (set xs)"
  by (induction xs) (auto simp: max_def)

lemma free_sizes_mem: "n \<in> set (free_sizes bs) \<longleftrightarrow> FreeB n \<in> set bs"
  by (induction bs rule: free_sizes.induct) auto

lemma largest_block:
  assumes "0 < foldr max (map (\<lambda>n. n - 24) (free_sizes bs)) (0 :: nat)"
  shows "\<exists>pre n post. bs = pre @ FreeB n # post \<and> n - 24 = foldr max (map (\<lambda>n. n - 24) (free_sizes bs)) 0"
proof -
  obtain n where "n \<in> set (free_sizes bs)" and n: "n - 24 = foldr max (map (\<lambda>n. n - 24) (free_sizes bs)) 0"
    using foldr_max_mem [of "map (\<lambda>n. n - 24) (free_sizes bs)"] assms by fastforce
  then obtain pre post where "bs = pre @ FreeB n # post" by (metis free_sizes_mem split_list)
  then show ?thesis using n by blast
qed

lemma payload_at_upper: "0 < al \<Longrightarrow> payload_at pm al < pm + 40 + al"
  using round_up_bounds(2) [of al pm] round_up_bounds(2) [of al "pm + 40"] by (simp add: payload_at_def Let_def)

lemma payload_at_small:
  assumes "alignment al" "al \<le> 8" "8 dvd pm"
  shows "payload_at pm al = pm"
proof -
  have "al dvd 8" using alignment_cases [OF assms(1)] assms(2) dvd_imp_le [of 8 al] alignment_pos(1) [OF assms(1)] by auto
  then have "round_up pm al = pm" using round_up_same [of al pm] dvd_trans [OF _ assms(3)] alignment_pos(1) [OF assms(1)] by blast
  then show ?thesis by (simp add: payload_at_def Let_def)
qed

lemma alloc_abs_large:
  assumes inv: "heap_inv fl a bs" and al: "alignment al" and n: "0 < n"
    and room: "n + al + 40 \<le> fl_largest_free fl \<or> al \<le> 8 \<and> n \<le> fl_largest_free fl"
  shows "alloc_abs 0 n al bs \<noteq> None"
proof -
  have lf: "fl_largest_free fl = foldr max (map (\<lambda>n. n - 24) (free_sizes bs)) 0" "blocks_ok bs"
    using inv by (auto simp: heap_inv_def stats_ok_def heap_shape_def)
  then obtain pre m post where bs: "bs = pre @ FreeB m # post" "m - 24 = fl_largest_free fl"
    using largest_block [of bs] room n by (metis add_is_0 gr0I le_zero_eq not_gr_zero)
  have ok: "32 \<le> m" "8 dvd span pre + 24" using lf(2) blocks_ok_8 [of pre] unfolding bs(1) by auto
  have "payload_at (span pre + 24) al + n \<le> span pre + m"
    using room payload_at_upper [OF alignment_pos(1) [OF al], of "span pre + 24"] payload_at_small [OF al _ ok(2)] bs(2) ok(1)
    by auto
  then show ?thesis
    using alloc_abs_None_iff [of 0 n al bs] bs(1) by fastforce
qed

text \<open>A block that has just been released cannot be released again.\<close>

lemma free_abs_has_block:
  "\<exists>pre' m post'. free_abs pre s post = pre' @ FreeB m # post' \<and> span pre' \<le> span pre \<and> span pre + s \<le> span pre' + m"
proof -
  have "pre = fst (split_prev pre) @ snd (split_prev pre)" using split_prev_cases [of pre] by auto
  then have "span pre = span (fst (split_prev pre) @ snd (split_prev pre))" by simp
  then show ?thesis
    unfolding free_abs_def
    by (intro exI [of _ "fst (split_prev pre)"] exI [of _ "span (snd (split_prev pre)) + s + span (fst (split_next post))"]
        exI [of _ "snd (split_next post)"]) simp
qed

lemma double_free_rejected:
  assumes inv: "heap_inv fl a bs" and area: "(p, k) \<in> set (payloads 0 bs)"
    and d: "fl_dealloc fl a p = Some (fl', a', r)"
  shows "\<exists>e. fl_dealloc fl' a' p = Some (fl', a', Inl e)"
proof -
  obtain pre n post where bs: "bs = pre @ LiveB n # post" "p = span pre + 24"
    using payloads_split [OF area] by auto
  have n: "32 \<le> n" using inv bs(1) by (auto simp: heap_inv_def heap_shape_def)
  have "heap_inv fl' a' (free_abs pre n post)"
    using fl_dealloc_live [of fl a pre n post] inv d bs by auto
  moreover obtain pre' m post' where f: "free_abs pre n post = pre' @ FreeB m # post'"
    "span pre' \<le> span pre" "span pre + n \<le> span pre' + m"
    using free_abs_has_block [of pre n post] by blast
  ultimately show ?thesis
    using n bs(2) by (intro fl_dealloc_free_memory [of _ _ pre' m post']) auto
qed

lemma keeps_areas:
  assumes "tracks bs A" "keeps (payloads 0 bs) a a'" "(q, m) \<in> A"
  shows "sub a' q m = sub a q m"
proof -
  obtain k where k: "m \<le> k" "(q, k) \<in> set (payloads 0 bs)" using tracksD(1) [OF assms(1,3)] by blast
  then have "sub a' q k = sub a q k" using assms(2) by (auto simp: keeps_def)
  then show ?thesis using sub_sub [of 0 m k a q] sub_sub [of 0 m k a' q] k(1) by simp
qed

lemma alloc_fails_only:
  assumes inv: "heap_inv fl a bs" and none: "fl_alloc fl a n al = Some (fl', a', None)"
  shows "n = 0 \<or> \<not> (is_power_of_two al \<and> al \<le> MAX_ALIGN) \<or>
    hs_largest_free (fl_stats fl) < (if al \<le> 8 then n else n + al + MIN_BLOCK)"
proof (rule ccontr)
  assume no: "\<not> ?thesis"
  then have al: "is_power_of_two al" "al \<le> MAX_ALIGN" "0 < n" by auto
  from no have room: "n + al + 40 \<le> fl_largest_free fl \<or> al \<le> 8 \<and> n \<le> fl_largest_free fl"
    by (auto simp: fl_stats_def rust_consts split: if_splits)
  have "alignment al" using al alignment_iff [of al] by simp
  then obtain p bs' where "alloc_abs 0 n al bs = Some (p, bs')" using alloc_abs_large [OF inv _ al(3) room] by auto
  then show False using fl_alloc_eq [OF inv al] none by auto
qed

section \<open>Properties\<close>

text \<open>The states the witnesses use: a heap of 64 bytes, and the same heap with 16 bytes allocated at offset 24.\<close>

lemma demo_heap:
  obtains fl a where "heap_reach fl a {}" "heap_inv fl a [FreeB 64]"
proof -
  have len: "length (replicate 64 (0 :: u8)) \<le> ISIZE_MAX" "40 \<le> length (replicate 64 (0 :: u8)) div 8 * 8"
    unfolding length_replicate ISIZE_MAX_def by simp_all
  obtain fl a where i: "fl_init (replicate 64 0) = Some (fl, a)" "heap_inv fl a [FreeB (length (replicate 64 (0 :: u8)) div 8 * 8)]"
    using fl_init_eq(2) [OF len] by blast
  then show thesis using that heap_reach.init [OF len i(1)] by simp
qed

lemma demo_heap1:
  obtains fl a where "heap_reach fl a {(24, 16)}" "fl_arena_len fl = 64"
proof -
  obtain fl a where h: "heap_reach fl a {}" "heap_inv fl a [FreeB 64]" by (rule demo_heap)
  have abs: "alloc_abs 0 16 8 [FreeB 64] = Some (24, [LiveB 64])"
    by (simp add: payload_at_def round_up_def carved_def carve_blocks_def gap_of_def tail_of_def Let_def)
  have al: "is_power_of_two 8" "8 \<le> MAX_ALIGN" using alignment_iff [of 8] by auto
  obtain fl' a' where s: "fl_alloc fl a 16 8 = Some (fl', a', Some 24)" "heap_inv fl' a' [LiveB 64]"
    using fl_alloc_eq [OF h(2) al, of 16] unfolding abs by auto
  show thesis
    using that [of fl' a'] heap_reach.alloc [OF h(1) s(1)] s(2) by (simp add: heap_inv_def heap_shape_def)
qed

text \<open>
  C10.  In every history of the heap the areas the client holds lie inside the arena, behind a
  header, and no two of them overlap.
\<close>

theorem heap_areas_disjoint:
  assumes "heap_reach fl a A"
  shows "(\<forall>(p, n) \<in> A. HEADER_SIZE \<le> p \<and> p + n \<le> length a) \<and>
    (\<forall>(p, n) \<in> A. \<forall>(q, m) \<in> A. (p, n) \<noteq> (q, m) \<longrightarrow> {p ..< p + n} \<inter> {q ..< q + m} = {})"
  using reach_areas [OF assms] by (fastforce simp: HEADER_SIZE_def)

theorem heap_areas_disjoint_witness: "\<exists>fl a. heap_reach fl a {(24, 16)} \<and> 40 \<le> length a"
proof -
  obtain fl a where h: "heap_reach fl a {(24, 16)}" by (rule demo_heap1)
  then show ?thesis using heap_areas_disjoint [OF h] by auto
qed

lemma reach_alloc:
  assumes reach: "heap_reach fl a A"
  shows "case fl_alloc fl a n al of
      None \<Rightarrow> False
    | Some (fl', a', None) \<Rightarrow> fl' = fl \<and> a' = a \<and>
        (n = 0 \<or> \<not> (is_power_of_two al \<and> al \<le> MAX_ALIGN) \<or>
         hs_largest_free (fl_stats fl) < (if al \<le> 8 then n else n + al + MIN_BLOCK) \<and>
         fl_arena_len fl < (\<Sum>(q, m) \<in> A. m + 70) + (card A + 1) * (n + al + MIN_BLOCK + 24))
    | Some (fl', a', Some p) \<Rightarrow> al dvd p \<and> heap_reach fl' a' (insert (p, n) A) \<and> (p, n) \<notin> A \<and>
        (\<forall>(q, m) \<in> A. sub a' q m = sub a q m)"
proof -
  obtain bs where bs: "heap_inv fl a bs" "tracks bs A" using heap_reach_inv [OF reach] by blast
  from fl_alloc_cases [OF bs(1), of n al] show ?thesis
  proof
    assume none: "fl_alloc fl a n al = Some (fl, a, None)"
    let ?l = "hs_largest_free (fl_stats fl)"
    have "(card A + 1) * (?l + 24) < (card A + 1) * (n + al + MIN_BLOCK + 24)" if "?l < (if al \<le> 8 then n else n + al + MIN_BLOCK)"
      using that by (intro mult_less_mono2) (auto split: if_splits)
    then have "fl_arena_len fl < (\<Sum>(q, m) \<in> A. m + 70) + (card A + 1) * (n + al + MIN_BLOCK + 24)"
      if "?l < (if al \<le> 8 then n else n + al + MIN_BLOCK)" using that reach_room(2) [OF reach] by linarith
    then show ?thesis using none alloc_fails_only [OF bs(1) none] by (auto simp: case_prod_beta)
  next
    assume "\<exists>fl' a' p k bs'. fl_alloc fl a n al = Some (fl', a', Some p) \<and> heap_inv fl' a' bs' \<and> n \<le> k \<and> k \<le> n + 46 \<and> al dvd p \<and>
      (p, k) \<notin> set (payloads 0 bs) \<and> set (payloads 0 bs') = insert (p, k) (set (payloads 0 bs)) \<and> keeps (payloads 0 bs) a a' \<and>
      span bs' = span bs"
    then obtain fl' a' p k bs' where s: "fl_alloc fl a n al = Some (fl', a', Some p)" "heap_inv fl' a' bs'" "al dvd p"
      "(p, k) \<notin> set (payloads 0 bs)" "set (payloads 0 bs') = insert (p, k) (set (payloads 0 bs))" "keeps (payloads 0 bs) a a'"
      by blast
    have "blocks_ok bs'" using s(2) by (simp add: heap_inv_def heap_shape_def)
    then have "(p, n) \<notin> A"
      using tracksD(1) [OF bs(2), of p n] payloads_start_unique [of bs' p k 0] s(4,5) by (metis insert_iff)
    then show ?thesis
      using s(1,3) heap_reach.alloc [OF reach s(1)] keeps_areas [OF bs(2) s(6)] by auto
  qed
qed

text \<open>
  C11.  In every history, an allocation does not panic.  A success is an aligned area of the requested
  length, disjoint from every area held, whose contents stay as they were; a failure changes
  nothing, and happens only for an empty request, an alignment that is not a power of two up to
  4096, or when the largest free block is too small for the request with its alignment slack.  The last cannot
  happen while the arena is large compared to what is in use: fragmentation costs at most 70 bytes per area and a share
  of one block in as many as there are areas, plus one.
\<close>

theorem heap_alloc_correct:
  assumes reach: "heap_reach fl a A"
  shows "case fl_alloc fl a n al of
      None \<Rightarrow> False
    | Some (fl', a', None) \<Rightarrow> fl' = fl \<and> a' = a \<and>
        (n = 0 \<or> \<not> (is_power_of_two al \<and> al \<le> MAX_ALIGN) \<or>
         hs_largest_free (fl_stats fl) < (if al \<le> 8 then n else n + al + MIN_BLOCK) \<and>
         fl_arena_len fl < (\<Sum>(q, m) \<in> A. m + 70) + (card A + 1) * (n + al + MIN_BLOCK + 24))
    | Some (fl', a', Some p) \<Rightarrow> al dvd p \<and> heap_reach fl' a' (insert (p, n) A) \<and> (p, n) \<notin> A \<and>
        (\<forall>(q, m) \<in> A. sub a' q m = sub a q m)"
  using reach_alloc [OF assms] .

theorem heap_alloc_correct_witness:
  "\<exists>fl a fl' a' p. heap_reach fl a {} \<and> fl_alloc fl a 16 8 = Some (fl', a', Some p) \<and> 8 dvd p \<and> heap_reach fl' a' {(p, 16)}"
proof -
  obtain fl a where h: "heap_reach fl a {}" "heap_inv fl a [FreeB 64]" by (rule demo_heap)
  have "hs_largest_free (fl_stats fl) = 40" using h(2) by (simp add: heap_inv_def stats_ok_def fl_stats_def)
  moreover have "is_power_of_two 8 \<and> 8 \<le> MAX_ALIGN" using alignment_iff [of 8] by simp
  ultimately have "\<exists>fl' a' p. fl_alloc fl a 16 8 = Some (fl', a', Some p) \<and> 8 dvd p \<and> heap_reach fl' a' {(p, 16)}"
    using heap_alloc_correct [OF h(1), of 16 8] by (auto split: option.splits)
  then show ?thesis using h(1) by blast
qed

lemma reach_free:
  assumes reach: "heap_reach fl a A" and held: "(p, n) \<in> A"
  shows "\<exists>fl' a' e. fl_dealloc fl a p = Some (fl', a', Inr ()) \<and> heap_reach fl' a' (A - {(p, n)}) \<and>
    (\<forall>(q, m) \<in> A - {(p, n)}. sub a' q m = sub a q m) \<and> fl_dealloc fl' a' p = Some (fl', a', Inl e)"
proof -
  obtain bs where bs: "heap_inv fl a bs" "tracks bs A" using heap_reach_inv [OF reach] by blast
  obtain k where k: "(p, k) \<in> set (payloads 0 bs)" using tracksD(1) [OF bs(2) held] by blast
  obtain fl' a' bs' where d: "fl_dealloc fl a p = Some (fl', a', Inr ())"
    "set (payloads 0 bs') = set (payloads 0 bs) - {(p, k)}" "keeps (payloads 0 bs') a a'"
    using fl_dealloc_area [OF bs(1) k] by blast
  have "tracks bs' (A - {(p, n)})"
    using tracks_free [OF bs(2) held k d(2)] bs(1) by (simp add: heap_inv_def heap_shape_def)
  then have "\<forall>(q, m) \<in> A - {(p, n)}. sub a' q m = sub a q m" using keeps_areas [OF _ d(3)] by blast
  then show ?thesis
    using d(1) heap_reach.free [OF reach held d(1)] double_free_rejected [OF bs(1) k d(1)] by blast
qed

text \<open>
  C12.  Releasing an area that is held succeeds, keeps the contents of all other areas, and a second
  release of the same pointer is rejected without any change.
\<close>

theorem heap_free_correct:
  assumes reach: "heap_reach fl a A" and held: "(p, n) \<in> A"
  shows "\<exists>fl' a' e. fl_dealloc fl a p = Some (fl', a', Inr ()) \<and> heap_reach fl' a' (A - {(p, n)}) \<and>
    (\<forall>(q, m) \<in> A - {(p, n)}. sub a' q m = sub a q m) \<and> fl_dealloc fl' a' p = Some (fl', a', Inl e)"
  using reach_free [OF assms] .

theorem heap_free_correct_witness:
  "\<exists>fl a fl' a'. heap_reach fl a {(24, 16)} \<and> fl_dealloc fl a 24 = Some (fl', a', Inr ()) \<and> heap_reach fl' a' {}"
proof -
  obtain fl a where h: "heap_reach fl a {(24, 16)}" by (rule demo_heap1)
  then show ?thesis using heap_free_correct [OF h, of 24 16] by auto
qed

lemma reach_empty:
  assumes "heap_reach fl a {}"
  shows "fl_stats fl = \<lparr> hs_free_blocks = 1, hs_free_bytes = fl_arena_len fl - HEADER_SIZE,
      hs_largest_free = fl_arena_len fl - HEADER_SIZE \<rparr> \<and> fl_head fl = 0 \<and> \<not> fl_is_empty fl"
proof -
  obtain bs where bs: "heap_inv fl a bs" "tracks bs {}" "40 \<le> span bs" using heap_reach_inv [OF assms] by blast
  then have "set (payloads 0 bs) = {}" using tracksD(2) [OF bs(2)] by (metis empty_iff equals0I surj_pair)
  moreover have "bs \<noteq> []" "separated bs" using bs by (auto simp: heap_inv_def heap_shape_def)
  ultimately have "bs = [FreeB (span bs)]" using tiling_unique_free [of bs 0] by simp
  then obtain n where n: "bs = [FreeB n]" by blast
  then show ?thesis using bs(1)
    by (auto simp: heap_inv_def heap_shape_def stats_ok_def fl_stats_def fl_is_empty_def HEADER_SIZE_def NIL_def rust_consts)
qed

text \<open>
  C13.  Once everything is released the heap is whole again: one free block that spans the arena, so
  that no fragmentation survives, whatever the order of the releases was.
\<close>

theorem heap_coalesces:
  assumes "heap_reach fl a {}"
  shows "fl_stats fl = \<lparr> hs_free_blocks = 1, hs_free_bytes = fl_arena_len fl - HEADER_SIZE,
      hs_largest_free = fl_arena_len fl - HEADER_SIZE \<rparr> \<and> fl_head fl = 0 \<and> \<not> fl_is_empty fl"
  using reach_empty [OF assms] .

theorem heap_coalesces_witness: "\<exists>fl a. heap_reach fl a {} \<and> fl_head fl = 0"
proof -
  obtain fl a where h: "heap_reach fl a {}" by (rule demo_heap)
  then show ?thesis using heap_coalesces [OF h] by blast
qed

text \<open>
  The magic number in front of a pointer is all that tells an allocated block from other bytes.  When
  the bytes of a live area look like the header of an allocated block (a stale header of an earlier
  allocation does), releasing the pointer behind them is accepted, and memory of the live area
  enters the free list.
\<close>

lemma interior_header_accepted:
  assumes inv: "heap_inv fl a [LiveB n]" and rd: "read_header a h = Some (MAGIC_ALLOC, s, x)"
    and h: "24 \<le> h" "8 dvd h" "24 < s" "h + s \<le> n"
  shows "\<exists>fl' a'. fl_dealloc fl a (h + 24) = Some (fl', a', Inr ()) \<and> fl_head fl' = h \<and> fl_free_bytes fl' = s - 24"
proof -
  have shape: "heap_shape fl a [LiveB n]" using inv by (simp add: heap_inv_def)
  note b = shape_bounds [OF shape]
  have fl: "fl_head fl = NIL" "fl_arena_len fl = n" "arena_matches fl a" "h + 24 < n" "n \<le> U64_MAX" "n < NIL"
    using shape arena_matches_shape [OF shape] b h by (auto simp: heap_shape_def)
  let ?a = "put a h (hdr MAGIC_FREE s NIL)" and ?fl = "fl\<lparr>fl_head := h\<rparr>"
  have w: "write_header a h MAGIC_FREE s NIL = Some ?a"
    using b h by (intro write_header_eq) auto
  have r: "read_header ?a h = Some (MAGIC_FREE, s, NIL)"
    using b h by (intro read_header_put) (auto simp: rust_consts)
  have mb: "max_blocks ?fl = Some (n div 8 + 2)" using b(5) by (simp add: max_blocks_def)
  have rec: "recompute_loop ?fl ?a 0 0 0 h 0 = Some (1, s - 24, s - 24)"
    using r mb fl h by (subst recompute_loop.simps, simp add: uadd_ok usub_ok rust_consts, subst recompute_loop.simps)
      (simp add: NIL_def rust_consts)
  have ins: "insert_block fl a h s (h + s) NIL NIL =
      Some (?fl\<lparr>fl_free_blocks := 1, fl_free_bytes := s - 24, fl_largest_free := s - 24\<rparr>, ?a, Inr ())"
    using w rec by (simp add: insert_block_def merge_next_def merge_previous_def recompute_def)
  have "fl_dealloc fl a (h + 24) = insert_block fl a h s (h + s) NIL NIL"
    using fl h rd by (simp add: fl_dealloc_def find_place.simps uadd_ok usub_ok is_multiple_of_def rust_consts)
  then show ?thesis using ins by simp
qed

end
