(* ===== verification/Boot_Info.thy ===== *)
theory Boot_Info
  imports Prelude
begin

text \<open>
  The boot protocol of \<open>src/crates/boot-info/src/lib.rs\<close>: the structure the boot loader hands to the
  kernel, its layout in memory, its validation and the exit codes.

  The structure is \<open>repr(C)\<close>: the compiler places each field at the next multiple of its
  alignment.  \<open>repr_c_offsets\<close> is that rule, and the bytes that pass from the boot loader to the
  kernel are written and read at the offsets it gives.
\<close>

section \<open>The structure\<close>

definition BOOT_INFO_MAGIC :: u64 where [rust_consts]: "BOOT_INFO_MAGIC = 5792036358565751553"
definition BOOT_INFO_VERSION :: u32 where [rust_consts]: "BOOT_INFO_VERSION = 1"
definition BOOT_INFO_SIZE_V0 :: u32 where [rust_consts]: "BOOT_INFO_SIZE_V0 = 88"

record BootInfo =
  bi_magic :: u64
  bi_version :: u32
  bi_size :: u32
  mmap_ptr :: u64
  mmap_len :: u64
  mmap_desc_size :: u32
  mmap_desc_ver :: u32
  rsdp :: u64
  kernel_base :: u64
  kernel_size :: u64
  stack_top :: u64
  stack_size :: u64
  exit_port :: u32
  bi_reserved :: u32
  user_phys :: u64
  user_size :: u64
  user_vaddr :: u64
  user_entry :: u64

text \<open>The widths of the fields in bytes, in the order of the declaration; each is also the field's alignment.\<close>

definition boot_info_widths :: "nat list" where
  "boot_info_widths = [8, 4, 4, 8, 8, 4, 4, 8, 8, 8, 8, 8, 4, 4, 8, 8, 8, 8]"

fun repr_c_offsets :: "nat \<Rightarrow> nat list \<Rightarrow> nat list" where
  "repr_c_offsets off [] = []"
| "repr_c_offsets off (w # ws) = (let p = div_ceil off w * w in p # repr_c_offsets (p + w) ws)"

fun repr_c_end :: "nat \<Rightarrow> nat list \<Rightarrow> nat" where
  "repr_c_end off [] = off"
| "repr_c_end off (w # ws) = repr_c_end (div_ceil off w * w + w) ws"

definition repr_c_size :: "nat list \<Rightarrow> nat" where
  "repr_c_size ws = (let a = foldr max ws 1 in div_ceil (repr_c_end 0 ws) a * a)"

definition SIZE_OF_BOOT_INFO :: nat where
  "SIZE_OF_BOOT_INFO = repr_c_size boot_info_widths"

definition boot_info_values :: "BootInfo \<Rightarrow> nat list" where
  "boot_info_values b = [bi_magic b, bi_version b, bi_size b, mmap_ptr b, mmap_len b, mmap_desc_size b, mmap_desc_ver b,
     rsdp b, kernel_base b, kernel_size b, stack_top b, stack_size b, exit_port b, bi_reserved b,
     user_phys b, user_size b, user_vaddr b, user_entry b]"

definition boot_info_of_values :: "nat list \<Rightarrow> BootInfo" where
  "boot_info_of_values vs = \<lparr> bi_magic = vs ! 0, bi_version = vs ! 1, bi_size = vs ! 2, mmap_ptr = vs ! 3, mmap_len = vs ! 4,
     mmap_desc_size = vs ! 5, mmap_desc_ver = vs ! 6, rsdp = vs ! 7, kernel_base = vs ! 8, kernel_size = vs ! 9,
     stack_top = vs ! 10, stack_size = vs ! 11, exit_port = vs ! 12, bi_reserved = vs ! 13, user_phys = vs ! 14,
     user_size = vs ! 15, user_vaddr = vs ! 16, user_entry = vs ! 17 \<rparr>"

text \<open>Storing a structure into memory and loading one: field by field, at its offset.\<close>

fun store_fields :: "bytes \<Rightarrow> (nat \<times> nat \<times> nat) list \<Rightarrow> bytes" where
  "store_fields mem [] = mem"
| "store_fields mem ((off, w, v) # fs) = store_fields (put mem off (to_le_bytes w v)) fs"

definition store_boot_info :: "bytes \<Rightarrow> BootInfo \<Rightarrow> bytes" where
  "store_boot_info mem b =
     store_fields mem (zip (repr_c_offsets 0 boot_info_widths) (zip boot_info_widths (boot_info_values b)))"

definition load_boot_info :: "bytes \<Rightarrow> BootInfo" where
  "load_boot_info mem = boot_info_of_values
     (map (\<lambda>(off, w). from_le_bytes (sub mem off w)) (zip (repr_c_offsets 0 boot_info_widths) boot_info_widths))"

definition boot_info_default :: BootInfo where
  "boot_info_default = \<lparr> bi_magic = 0, bi_version = 0, bi_size = 0, mmap_ptr = 0, mmap_len = 0, mmap_desc_size = 0,
     mmap_desc_ver = 0, rsdp = 0, kernel_base = 0, kernel_size = 0, stack_top = 0, stack_size = 0, exit_port = 0,
     bi_reserved = 0, user_phys = 0, user_size = 0, user_vaddr = 0, user_entry = 0 \<rparr>"

section \<open>Operations\<close>

datatype BootInfoError =
    WrongMagic u64
  | UnsupportedVersion u32 u32
  | BootInfoTooSmall u32 u32

definition boot_info_new :: BootInfo where
  "boot_info_new = boot_info_default\<lparr> bi_magic := BOOT_INFO_MAGIC, bi_version := BOOT_INFO_VERSION,
     bi_size := SIZE_OF_BOOT_INFO mod 2 ^ 32 \<rparr>"

definition expected_size :: "u32 \<Rightarrow> u32 option" where
  "expected_size version =
     (if version = 0 then Some BOOT_INFO_SIZE_V0
      else if version = BOOT_INFO_VERSION then Some (SIZE_OF_BOOT_INFO mod 2 ^ 32)
      else None)"

definition boot_info_validate :: "BootInfo \<Rightarrow> BootInfoError + unit" where
  "boot_info_validate b =
     (if bi_magic b \<noteq> BOOT_INFO_MAGIC then Inl (WrongMagic (bi_magic b))
      else case expected_size (bi_version b) of
        None \<Rightarrow> Inl (UnsupportedVersion (bi_version b) BOOT_INFO_VERSION)
      | Some expected \<Rightarrow>
          if bi_size b < expected then Inl (BootInfoTooSmall (bi_size b) expected) else Inr ())"

definition has_user_image :: "BootInfo \<Rightarrow> bool" where
  "has_user_image b \<longleftrightarrow> bi_version b \<ge> 1 \<and> bi_size b \<ge> SIZE_OF_BOOT_INFO mod 2 ^ 32 \<and> user_phys b \<noteq> 0 \<and>
     user_size b \<noteq> 0 \<and> user_vaddr b \<noteq> 0 \<and> user_entry b \<noteq> 0"

definition user_vaddr_end :: "BootInfo \<Rightarrow> u64" where
  "user_vaddr_end b = saturating_add (user_vaddr b) (user_size b)"

definition has_memory_map :: "BootInfo \<Rightarrow> bool" where
  "has_memory_map b \<longleftrightarrow> mmap_ptr b \<noteq> 0 \<and> mmap_len b \<noteq> 0 \<and> mmap_desc_size b \<noteq> 0"

definition exit_enabled :: "BootInfo \<Rightarrow> bool" where
  "exit_enabled b \<longleftrightarrow> exit_port b \<noteq> 0"

section \<open>Exit codes\<close>

definition DEBUG_EXIT_PORT :: u16 where [rust_consts]: "DEBUG_EXIT_PORT = 244"
definition EXIT_VALUE_BOOTLOADER_OK :: u8 where [rust_consts]: "EXIT_VALUE_BOOTLOADER_OK = 16"
definition EXIT_VALUE_LOAD_FAILURE :: u8 where [rust_consts]: "EXIT_VALUE_LOAD_FAILURE = 17"
definition EXIT_VALUE_KERNEL_OK :: u8 where [rust_consts]: "EXIT_VALUE_KERNEL_OK = 18"
definition EXIT_VALUE_KERNEL_FAILURE :: u8 where [rust_consts]: "EXIT_VALUE_KERNEL_FAILURE = 19"
definition EXIT_VALUE_KERNEL_FAULT :: u8 where [rust_consts]: "EXIT_VALUE_KERNEL_FAULT = 20"
definition EXIT_VALUE_KERNEL_MEMORY_FAILURE :: u8 where [rust_consts]: "EXIT_VALUE_KERNEL_MEMORY_FAILURE = 21"
definition EXIT_VALUE_KERNEL_SCHED_FAILURE :: u8 where [rust_consts]: "EXIT_VALUE_KERNEL_SCHED_FAILURE = 22"
definition EXIT_VALUE_USER_FAILURE :: u8 where [rust_consts]: "EXIT_VALUE_USER_FAILURE = 23"

definition qemu_exit_code :: "u8 \<Rightarrow> int" where
  "qemu_exit_code v = or (push_bit 1 (uint v)) 1"

definition EXIT_CODE_BOOTLOADER_OK :: int where "EXIT_CODE_BOOTLOADER_OK = qemu_exit_code EXIT_VALUE_BOOTLOADER_OK"
definition EXIT_CODE_LOAD_FAILURE :: int where "EXIT_CODE_LOAD_FAILURE = qemu_exit_code EXIT_VALUE_LOAD_FAILURE"
definition EXIT_CODE_KERNEL_OK :: int where "EXIT_CODE_KERNEL_OK = qemu_exit_code EXIT_VALUE_KERNEL_OK"
definition EXIT_CODE_KERNEL_FAILURE :: int where "EXIT_CODE_KERNEL_FAILURE = qemu_exit_code EXIT_VALUE_KERNEL_FAILURE"
definition EXIT_CODE_KERNEL_FAULT :: int where "EXIT_CODE_KERNEL_FAULT = qemu_exit_code EXIT_VALUE_KERNEL_FAULT"
definition EXIT_CODE_KERNEL_MEMORY_FAILURE :: int where
  "EXIT_CODE_KERNEL_MEMORY_FAILURE = qemu_exit_code EXIT_VALUE_KERNEL_MEMORY_FAILURE"
definition EXIT_CODE_KERNEL_SCHED_FAILURE :: int where
  "EXIT_CODE_KERNEL_SCHED_FAILURE = qemu_exit_code EXIT_VALUE_KERNEL_SCHED_FAILURE"
definition EXIT_CODE_USER_FAILURE :: int where "EXIT_CODE_USER_FAILURE = qemu_exit_code EXIT_VALUE_USER_FAILURE"

section \<open>Layout\<close>

lemma boot_info_offsets:
  "repr_c_offsets 0 boot_info_widths = [0, 8, 12, 16, 24, 32, 36, 40, 48, 56, 64, 72, 80, 84, 88, 96, 104, 112]"
  by (simp add: boot_info_widths_def div_ceil_def Let_def)

lemma SIZE_OF_BOOT_INFO [simp]: "SIZE_OF_BOOT_INFO = 120"
  by (simp add: SIZE_OF_BOOT_INFO_def repr_c_size_def boot_info_widths_def div_ceil_def Let_def)

text \<open>Fields that do not overlap are loaded as they were stored.\<close>

lemma length_store_fields:
  "list_all (\<lambda>(p, w, v). p + w \<le> length mem) fs \<Longrightarrow> length (store_fields mem fs) = length mem"
  by (induction mem fs rule: store_fields.induct) (auto simp: list_all_iff)

lemma sub_store_fields_other:
  assumes "list_all (\<lambda>(p, w, v). p + w \<le> length mem \<and> (q + n \<le> p \<or> p + w \<le> q)) fs"
  shows "sub (store_fields mem fs) q n = sub mem q n"
  using assms
proof (induction mem fs rule: store_fields.induct)
  case (2 mem p w v fs)
  then have "sub (store_fields (put mem p (to_le_bytes w v)) fs) q n = sub (put mem p (to_le_bytes w v)) q n" by simp
  then show ?case using 2(2) by (simp add: sub_put_disjoint)
qed simp

lemma sub_store_fields:
  assumes "sorted_wrt (\<lambda>(o1, w1, v1) (o2, w2, v2). o1 + w1 \<le> o2) fs" "(p, w, v) \<in> set fs"
    "list_all (\<lambda>(p, w, v). p + w \<le> length mem) fs"
  shows "sub (store_fields mem fs) p w = to_le_bytes w v"
  using assms
proof (induction mem fs rule: store_fields.induct)
  case (2 mem q u x fs)
  let ?mem = "put mem q (to_le_bytes u x)"
  have rest: "list_all (\<lambda>(p, w, v). p + w \<le> length ?mem) fs" "length ?mem = length mem" using 2(4) by simp_all
  show ?case
  proof (cases "(p, w, v) \<in> set fs")
    case True
    then show ?thesis using 2(1) [OF _ True rest(1)] 2(2) by simp
  next
    case False
    then have eq: "p = q" "w = u" "v = x" using 2(3) by auto
    have "list_all (\<lambda>(p', w', v'). p' + w' \<le> length ?mem \<and> (p + w \<le> p' \<or> p' + w' \<le> p)) fs"
      using 2(2) rest(1) unfolding eq by (auto simp: list_all_iff)
    then show ?thesis using sub_store_fields_other [of ?mem p w fs] 2(4) unfolding eq by (simp add: sub_put_same)
  qed
qed simp

definition boot_info_fits :: "BootInfo \<Rightarrow> bool" where
  "boot_info_fits b = list_all (\<lambda>(w, v). v < 256 ^ w) (zip boot_info_widths (boot_info_values b))"

lemma boot_info_fields:
  "zip (repr_c_offsets 0 boot_info_widths) (zip boot_info_widths (boot_info_values b)) =
   [(0, 8, bi_magic b), (8, 4, bi_version b), (12, 4, bi_size b), (16, 8, mmap_ptr b), (24, 8, mmap_len b),
    (32, 4, mmap_desc_size b), (36, 4, mmap_desc_ver b), (40, 8, rsdp b), (48, 8, kernel_base b), (56, 8, kernel_size b),
    (64, 8, stack_top b), (72, 8, stack_size b), (80, 4, exit_port b), (84, 4, bi_reserved b), (88, 8, user_phys b),
    (96, 8, user_size b), (104, 8, user_vaddr b), (112, 8, user_entry b)]"
  unfolding boot_info_offsets by (simp add: boot_info_widths_def boot_info_values_def)

lemma stored_field:
  assumes "(p, w, v) \<in> set (zip (repr_c_offsets 0 boot_info_widths) (zip boot_info_widths (boot_info_values b)))"
    "120 \<le> length mem" "boot_info_fits b"
  shows "from_le_bytes (sub (store_boot_info mem b) p w) = v"
proof -
  have "sub (store_boot_info mem b) p w = to_le_bytes w v"
    unfolding store_boot_info_def
  proof (rule sub_store_fields [OF _ assms(1)])
    show "sorted_wrt (\<lambda>(o1, w1, v1) (o2, w2, v2). o1 + w1 \<le> o2)
        (zip (repr_c_offsets 0 boot_info_widths) (zip boot_info_widths (boot_info_values b)))"
      by (simp add: boot_info_fields)
    show "list_all (\<lambda>(p, w, v). p + w \<le> length mem)
        (zip (repr_c_offsets 0 boot_info_widths) (zip boot_info_widths (boot_info_values b)))"
      using assms(2) by (simp add: boot_info_fields)
  qed
  moreover have "(w, v) \<in> set (zip boot_info_widths (boot_info_values b))" using assms(1) by (rule set_zip_rightD)
  then have "v < 256 ^ w" using assms(3) unfolding boot_info_fits_def list_all_iff by auto
  ultimately show ?thesis by (simp add: from_to_le_bytes)
qed

lemma load_boot_info_eq:
  "load_boot_info mem = (let f = (\<lambda>p w. from_le_bytes (sub mem p w)) in
    \<lparr> bi_magic = f 0 8, bi_version = f 8 4, bi_size = f 12 4, mmap_ptr = f 16 8, mmap_len = f 24 8,
      mmap_desc_size = f 32 4, mmap_desc_ver = f 36 4, rsdp = f 40 8, kernel_base = f 48 8, kernel_size = f 56 8,
      stack_top = f 64 8, stack_size = f 72 8, exit_port = f 80 4, bi_reserved = f 84 4, user_phys = f 88 8,
      user_size = f 96 8, user_vaddr = f 104 8, user_entry = f 112 8 \<rparr>)"
  unfolding load_boot_info_def boot_info_offsets by (simp add: boot_info_of_values_def boot_info_widths_def Let_def)

lemma load_store:
  assumes "120 \<le> length mem" "boot_info_fits b"
  shows "load_boot_info (store_boot_info mem b) = b"
proof -
  note f = stored_field [OF _ assms, unfolded boot_info_fields]
  let ?f = "\<lambda>p w. from_le_bytes (sub (store_boot_info mem b) p w)"
  have "?f 0 8 = bi_magic b" "?f 8 4 = bi_version b" "?f 12 4 = bi_size b" "?f 16 8 = mmap_ptr b" "?f 24 8 = mmap_len b"
    "?f 32 4 = mmap_desc_size b" "?f 36 4 = mmap_desc_ver b" "?f 40 8 = rsdp b" "?f 48 8 = kernel_base b"
    "?f 56 8 = kernel_size b" "?f 64 8 = stack_top b" "?f 72 8 = stack_size b" "?f 80 4 = exit_port b"
    "?f 84 4 = bi_reserved b" "?f 88 8 = user_phys b" "?f 96 8 = user_size b" "?f 104 8 = user_vaddr b"
    "?f 112 8 = user_entry b"
    by (rule f, simp)+
  then show ?thesis by (simp add: load_boot_info_eq Let_def)
qed

text \<open>The part of the structure that version 0 has.\<close>

definition v0_fields :: "BootInfo \<Rightarrow> (nat \<times> nat \<times> nat) list" where
  "v0_fields b = [(0, 8, bi_magic b), (8, 4, bi_version b), (12, 4, bi_size b), (16, 8, mmap_ptr b), (24, 8, mmap_len b),
    (32, 4, mmap_desc_size b), (36, 4, mmap_desc_ver b), (40, 8, rsdp b), (48, 8, kernel_base b), (56, 8, kernel_size b),
    (64, 8, stack_top b), (72, 8, stack_size b), (80, 4, exit_port b), (84, 4, bi_reserved b)]"

lemma store_fields_append: "store_fields mem (xs @ ys) = store_fields (store_fields mem xs) ys"
  by (induction mem xs rule: store_fields.induct) auto

lemma store_prefix:
  assumes "120 \<le> length mem"
  shows "sub (store_boot_info mem b) 0 88 = sub (store_fields mem (v0_fields b)) 0 88"
proof -
  let ?v1 = "[(88, 8, user_phys b), (96, 8, user_size b), (104, 8, user_vaddr b), (112, 8, user_entry b)]"
  have "length (store_fields mem (v0_fields b)) = length mem"
    using assms by (intro length_store_fields) (simp add: v0_fields_def)
  then have "sub (store_fields (store_fields mem (v0_fields b)) ?v1) 0 88 = sub (store_fields mem (v0_fields b)) 0 88"
    using assms by (intro sub_store_fields_other) simp
  moreover have "store_boot_info mem b = store_fields mem (v0_fields b @ ?v1)"
    unfolding store_boot_info_def boot_info_fields v0_fields_def by simp
  ultimately show ?thesis by (simp only: store_fields_append)
qed

lemma validate_cases:
  "boot_info_validate b =
     (if bi_magic b \<noteq> BOOT_INFO_MAGIC then Inl (WrongMagic (bi_magic b))
      else if bi_version b = 0 then (if bi_size b < 88 then Inl (BootInfoTooSmall (bi_size b) 88) else Inr ())
      else if bi_version b = 1 then (if bi_size b < 120 then Inl (BootInfoTooSmall (bi_size b) 120) else Inr ())
      else Inl (UnsupportedVersion (bi_version b) 1))"
  by (simp add: boot_info_validate_def expected_size_def BOOT_INFO_SIZE_V0_def BOOT_INFO_VERSION_def)

section \<open>Properties\<close>



text \<open>
  Validation is exact: a structure is accepted when its magic number is right and its size covers
  what its version must contain, 88 bytes for version 0 and 120 for version 1; otherwise the first
  defect in the order magic, version, size is reported.  A fresh structure is accepted and has
  neither a user image nor a memory map, and an accepted structure with a user image is of version 1.
\<close>

theorem boot_info_validate_exact:
  "(case boot_info_validate b of
      Inr _ \<Rightarrow> bi_magic b = BOOT_INFO_MAGIC \<and> (bi_version b = 0 \<and> 88 \<le> bi_size b \<or> bi_version b = 1 \<and> 120 \<le> bi_size b)
    | Inl (WrongMagic m) \<Rightarrow> m = bi_magic b \<and> m \<noteq> BOOT_INFO_MAGIC
    | Inl (UnsupportedVersion v s) \<Rightarrow> bi_magic b = BOOT_INFO_MAGIC \<and> v = bi_version b \<and> s = 1 \<and> v \<notin> {0, 1}
    | Inl (BootInfoTooSmall n e) \<Rightarrow> bi_magic b = BOOT_INFO_MAGIC \<and> n = bi_size b \<and> n < e \<and>
        (bi_version b = 0 \<and> e = 88 \<or> bi_version b = 1 \<and> e = 120)) \<and>
   boot_info_validate boot_info_new = Inr () \<and> \<not> has_user_image boot_info_new \<and> \<not> has_memory_map boot_info_new \<and>
   {b. boot_info_validate b = Inr () \<and> has_user_image b} \<subseteq> {b. bi_version b = 1 \<and> 120 \<le> bi_size b \<and> 0 < user_size b}"
proof (intro conjI)
  show "boot_info_validate boot_info_new = Inr ()" "\<not> has_user_image boot_info_new" "\<not> has_memory_map boot_info_new"
    by (simp_all add: validate_cases has_user_image_def has_memory_map_def boot_info_new_def boot_info_default_def
        BOOT_INFO_VERSION_def)
  show "{b. boot_info_validate b = Inr () \<and> has_user_image b} \<subseteq> {b. bi_version b = 1 \<and> 120 \<le> bi_size b \<and> 0 < user_size b}"
    by (auto simp: validate_cases has_user_image_def split: if_splits)
qed (simp add: validate_cases)

text \<open>
  The exit codes identify the outcome: QEMU's code of a written byte is odd and determines the
  byte, and the eight outcomes have the eight different codes 33, 35, ..., 47.
\<close>

theorem exit_codes_distinct:
  "inj qemu_exit_code \<and> (\<forall>v. odd (qemu_exit_code v) \<and> 0 < qemu_exit_code v \<and> qemu_exit_code v < 512) \<and>
   [EXIT_CODE_BOOTLOADER_OK, EXIT_CODE_LOAD_FAILURE, EXIT_CODE_KERNEL_OK, EXIT_CODE_KERNEL_FAILURE, EXIT_CODE_KERNEL_FAULT,
    EXIT_CODE_KERNEL_MEMORY_FAILURE, EXIT_CODE_KERNEL_SCHED_FAILURE, EXIT_CODE_USER_FAILURE] = [33, 35, 37, 39, 41, 43, 45, 47]"
proof (intro conjI allI injI)
  have code: "qemu_exit_code v = 2 * uint v + 1" for v
    by (simp add: qemu_exit_code_def push_bit_eq_mult or_one_eq mult.commute)
  fix v w
  show "v = w" if "qemu_exit_code v = qemu_exit_code w" using that by (simp add: code word_uint_eqI)
  show "odd (qemu_exit_code v)" "0 < qemu_exit_code v" by (simp_all add: code add_nonneg_pos)
  show "qemu_exit_code v < 512" using uint_lt2p [of v] by (simp add: code)
  show "[EXIT_CODE_BOOTLOADER_OK, EXIT_CODE_LOAD_FAILURE, EXIT_CODE_KERNEL_OK, EXIT_CODE_KERNEL_FAILURE, EXIT_CODE_KERNEL_FAULT,
    EXIT_CODE_KERNEL_MEMORY_FAILURE, EXIT_CODE_KERNEL_SCHED_FAILURE, EXIT_CODE_USER_FAILURE] = [33, 35, 37, 39, 41, 43, 45, 47]"
    by (simp add: code EXIT_CODE_BOOTLOADER_OK_def EXIT_CODE_LOAD_FAILURE_def EXIT_CODE_KERNEL_OK_def EXIT_CODE_KERNEL_FAILURE_def
        EXIT_CODE_KERNEL_FAULT_def EXIT_CODE_KERNEL_MEMORY_FAILURE_def EXIT_CODE_KERNEL_SCHED_FAILURE_def EXIT_CODE_USER_FAILURE_def
        rust_consts)
qed

end
