(* ===== verification/Elf_Image.thy ===== *)
theory Elf_Image
  imports Prelude
begin

text \<open>
  The ELF images of \<open>src/crates/kernel-image/src/lib.rs\<close>: validation of the ELF header, iteration
  over the loadable segments, and the checks the boot loader makes before it copies anything.

  A \<open>for\<close> loop over the segment iterator, whose body starts with \<open>let segment = segment?\<close>, is
  \<open>for_segments\<close>: an error item returns from the enclosing function, and so does a body that
  yields \<^term>\<open>Inl\<close>.
\<close>

section \<open>The ELF header\<close>

definition ELF_HEADER_MIN_LEN :: usize where [rust_consts]: "ELF_HEADER_MIN_LEN = 64"
definition EI_CLASS :: usize where [rust_consts]: "EI_CLASS = 4"
definition EI_DATA :: usize where [rust_consts]: "EI_DATA = 5"
definition E_TYPE_OFFSET :: usize where [rust_consts]: "E_TYPE_OFFSET = 16"
definition E_MACHINE_OFFSET :: usize where [rust_consts]: "E_MACHINE_OFFSET = 18"
definition E_ENTRY_OFFSET :: usize where [rust_consts]: "E_ENTRY_OFFSET = 24"
definition ELFCLASS64 :: u8 where [rust_consts]: "ELFCLASS64 = 2"
definition ELFDATA2LSB :: u8 where [rust_consts]: "ELFDATA2LSB = 1"
definition ET_EXEC :: u16 where [rust_consts]: "ET_EXEC = 2"
definition EM_X86_64 :: u16 where [rust_consts]: "EM_X86_64 = 62"
definition ELF_MAGIC :: bytes where [rust_consts]: "ELF_MAGIC = [127, 69, 76, 70]"

datatype ImageError =
    ImageTooSmall usize
  | NotElf
  | NotElf64
  | NotLittleEndian
  | NotExecutable u16
  | UnsupportedMachine u16

definition img_read_u16 :: "bytes \<Rightarrow> usize \<Rightarrow> u16 panics" where
  "img_read_u16 data offset = do {
     b0 \<leftarrow> index data offset;
     o1 \<leftarrow> uadd offset 1;
     b1 \<leftarrow> index data o1;
     Some (from_le_bytes [b0, b1])
   }"

definition img_read_u64 :: "bytes \<Rightarrow> usize \<Rightarrow> u64 panics" where
  "img_read_u64 data offset = do {
     stop \<leftarrow> uadd offset 8;
     raw \<leftarrow> slice data offset stop;
     Some (from_le_bytes raw)
   }"

definition elf_validate :: "bytes \<Rightarrow> (ImageError + u64) panics" where
  "elf_validate data =
     (if length data < ELF_HEADER_MIN_LEN then Some (Inl (ImageTooSmall (length data)))
      else do {
        magic \<leftarrow> slice data 0 4;
        if magic \<noteq> ELF_MAGIC then Some (Inl NotElf)
        else do {
          cls \<leftarrow> index data EI_CLASS;
          if cls \<noteq> ELFCLASS64 then Some (Inl NotElf64)
          else do {
            enc \<leftarrow> index data EI_DATA;
            if enc \<noteq> ELFDATA2LSB then Some (Inl NotLittleEndian)
            else do {
              e_type \<leftarrow> img_read_u16 data E_TYPE_OFFSET;
              if e_type \<noteq> ET_EXEC then Some (Inl (NotExecutable e_type))
              else do {
                e_machine \<leftarrow> img_read_u16 data E_MACHINE_OFFSET;
                if e_machine \<noteq> EM_X86_64 then Some (Inl (UnsupportedMachine e_machine))
                else do {
                  entry \<leftarrow> img_read_u64 data E_ENTRY_OFFSET;
                  Some (Inr entry)
                }
              }
            }
          }
        }
      })"

section \<open>Segments\<close>

definition PF_X :: u32 where [rust_consts]: "PF_X = 1"
definition PF_W :: u32 where [rust_consts]: "PF_W = 2"
definition PF_R :: u32 where [rust_consts]: "PF_R = 4"
definition ELF_PAGE_SIZE :: u64 where [rust_consts]: "ELF_PAGE_SIZE = 4096"
definition PHDR_LEN :: usize where [rust_consts]: "PHDR_LEN = 56"
definition PT_LOAD :: u32 where [rust_consts]: "PT_LOAD = 1"
definition P_TYPE_OFFSET :: usize where [rust_consts]: "P_TYPE_OFFSET = 0"
definition P_FLAGS_OFFSET :: usize where [rust_consts]: "P_FLAGS_OFFSET = 4"
definition P_OFFSET_OFFSET :: usize where [rust_consts]: "P_OFFSET_OFFSET = 8"
definition P_PADDR_OFFSET :: usize where [rust_consts]: "P_PADDR_OFFSET = 24"
definition P_VADDR_OFFSET :: usize where [rust_consts]: "P_VADDR_OFFSET = 16"
definition P_FILESZ_OFFSET :: usize where [rust_consts]: "P_FILESZ_OFFSET = 32"
definition P_MEMSZ_OFFSET :: usize where [rust_consts]: "P_MEMSZ_OFFSET = 40"
definition E_PHOFF_OFFSET :: usize where [rust_consts]: "E_PHOFF_OFFSET = 32"
definition E_PHENTSIZE_OFFSET :: usize where [rust_consts]: "E_PHENTSIZE_OFFSET = 54"
definition E_PHNUM_OFFSET :: usize where [rust_consts]: "E_PHNUM_OFFSET = 56"

record Segment =
  seg_offset :: u64
  seg_paddr :: u64
  seg_vaddr :: u64
  seg_filesz :: u64
  seg_memsz :: u64
  seg_flags :: u32

definition page_range :: "Segment \<Rightarrow> (u64 \<times> u64) panics" where
  "page_range s = do {
     let start = and_not (seg_paddr s) (ELF_PAGE_SIZE - 1);
     e \<leftarrow> uadd (seg_paddr s) (seg_memsz s);
     stop \<leftarrow> umul (div_ceil e ELF_PAGE_SIZE) ELF_PAGE_SIZE;
     Some (start, stop)
   }"

definition is_executable :: "Segment \<Rightarrow> bool" where
  "is_executable s \<longleftrightarrow> and (seg_flags s) PF_X \<noteq> 0"

datatype SegmentError =
    BadProgramHeaders
  | FileszLargerThanMemsz
  | DataOutOfBounds
  | AddressOverflow
  | EmptySegment
  | OverlappingSegments
  | EntryNotExecutable

definition img_read_u32 :: "bytes \<Rightarrow> usize \<Rightarrow> u32 panics" where
  "img_read_u32 data offset = do {
     b0 \<leftarrow> index data offset;
     o1 \<leftarrow> uadd offset 1;
     b1 \<leftarrow> index data o1;
     o2 \<leftarrow> uadd offset 2;
     b2 \<leftarrow> index data o2;
     o3 \<leftarrow> uadd offset 3;
     b3 \<leftarrow> index data o3;
     Some (from_le_bytes [b0, b1, b2, b3])
   }"

text \<open>Addition on \<open>u16\<close>.\<close>

definition u16_add :: "u16 \<Rightarrow> u16 \<Rightarrow> u16 panics" where
  "u16_add a b = (if a + b < 65536 then Some (a + b) else None)"

record SegmentIter =
  si_data :: bytes
  si_table_offset :: u64
  si_entry_size :: u16
  si_remaining :: u16
  si_index :: u16

definition read_segment :: "bytes \<Rightarrow> Segment panics" where
  "read_segment entry_data = do {
     offset \<leftarrow> img_read_u64 entry_data P_OFFSET_OFFSET;
     paddr \<leftarrow> img_read_u64 entry_data P_PADDR_OFFSET;
     vaddr \<leftarrow> img_read_u64 entry_data P_VADDR_OFFSET;
     filesz \<leftarrow> img_read_u64 entry_data P_FILESZ_OFFSET;
     memsz \<leftarrow> img_read_u64 entry_data P_MEMSZ_OFFSET;
     flags \<leftarrow> img_read_u32 entry_data P_FLAGS_OFFSET;
     Some \<lparr> seg_offset = offset, seg_paddr = paddr, seg_vaddr = vaddr, seg_filesz = filesz,
            seg_memsz = memsz, seg_flags = flags \<rparr>
   }"

function segment_next :: "SegmentIter \<Rightarrow> (SegmentIter \<times> (SegmentError + Segment) option) panics" where
  "segment_next it =
     (if si_remaining it > 0 then do {
        let i = si_index it;
        i' \<leftarrow> u16_add i 1;
        let it' = it\<lparr>si_index := i', si_remaining := si_remaining it - 1\<rparr>;
        d \<leftarrow> umul i (si_entry_size it);
        entry \<leftarrow> uadd (si_table_offset it) d;
        case uadd entry PHDR_LEN of
          None \<Rightarrow> Some (it', None)
        | Some stop \<Rightarrow>
            if stop > length (si_data it) then Some (it', Some (Inl BadProgramHeaders))
            else do {
              entry_data \<leftarrow> slice (si_data it) entry stop;
              p_type \<leftarrow> img_read_u32 entry_data P_TYPE_OFFSET;
              if p_type \<noteq> PT_LOAD then segment_next it'
              else do {
                segment \<leftarrow> read_segment entry_data;
                Some (it', Some (Inr segment))
              }
            }
      }
      else Some (it, None))"
  by pat_completeness auto

termination
  by (relation "measure si_remaining") auto

declare segment_next.simps [simp del]

definition segments :: "bytes \<Rightarrow> (SegmentError + SegmentIter) panics" where
  "segments data =
     (if length data < ELF_HEADER_MIN_LEN then Some (Inl BadProgramHeaders)
      else do {
        table_offset \<leftarrow> img_read_u64 data E_PHOFF_OFFSET;
        entry_size \<leftarrow> img_read_u16 data E_PHENTSIZE_OFFSET;
        count \<leftarrow> img_read_u16 data E_PHNUM_OFFSET;
        if count = 0 \<or> entry_size < PHDR_LEN then Some (Inl BadProgramHeaders)
        else Some (Inr \<lparr> si_data = data, si_table_offset = table_offset, si_entry_size = entry_size,
               si_remaining = count, si_index = 0 \<rparr>)
      })"

lemma segment_next_remaining: "segment_next it = Some (it', Some x) \<Longrightarrow> si_remaining it' < si_remaining it"
proof (induction "si_remaining it" arbitrary: it rule: less_induct)
  case less
  let ?it = "it\<lparr>si_index := si_index it + 1, si_remaining := si_remaining it - 1\<rparr>"
  have pos: "0 < si_remaining it" using less.prems by (cases "si_remaining it") (auto simp: segment_next.simps [of it])
  have "it' = ?it \<or> segment_next ?it = Some (it', Some x)"
    using less.prems by (subst (asm) segment_next.simps)
      (auto simp: pos Let_def run_simps u16_add_def split: option.splits if_splits)
  then show ?case using less.hyps [of ?it] pos by auto
qed

function for_segments :: "('s \<Rightarrow> Segment \<Rightarrow> ((SegmentError + 'r) + 's) panics) \<Rightarrow> SegmentIter \<Rightarrow> 's \<Rightarrow> ((SegmentError + 'r) + 's) panics" where
  "for_segments body it s = do {
     (it', item) \<leftarrow> segment_next it;
     case item of
       None \<Rightarrow> Some (Inr s)
     | Some (Inl e) \<Rightarrow> Some (Inl (Inl e))
     | Some (Inr segment) \<Rightarrow> do {
         r \<leftarrow> body s segment;
         case r of
           Inl res \<Rightarrow> Some (Inl res)
         | Inr s' \<Rightarrow> for_segments body it' s'
       }
   }"
  by pat_completeness auto

termination
  by (relation "measure (\<lambda>(body, it, s). si_remaining it)") (auto dest: segment_next_remaining)

declare for_segments.simps [simp del]

text \<open>\<open>for segment in segments(data)?\<close> with what follows the loop.\<close>

definition each_segment :: "bytes \<Rightarrow> ('s \<Rightarrow> Segment \<Rightarrow> ((SegmentError + 'r) + 's) panics) \<Rightarrow> 's \<Rightarrow>
    ('s \<Rightarrow> (SegmentError + 'r) panics) \<Rightarrow> (SegmentError + 'r) panics" where
  "each_segment data body s after = do {
     segs \<leftarrow> segments data;
     case segs of
       Inl e \<Rightarrow> Some (Inl e)
     | Inr it \<Rightarrow> do {
         r \<leftarrow> for_segments body it s;
         case r of
           Inl res \<Rightarrow> Some res
         | Inr s' \<Rightarrow> after s'
       }
   }"

section \<open>The checks\<close>

definition check_segment :: "bytes \<Rightarrow> usize \<Rightarrow> Segment \<Rightarrow> ((SegmentError + usize) + usize) panics" where
  "check_segment data count s =
     (if seg_memsz s = 0 then Some (Inl (Inl EmptySegment))
      else if seg_filesz s > seg_memsz s then Some (Inl (Inl FileszLargerThanMemsz))
      else case uadd (seg_offset s) (seg_filesz s) of
        None \<Rightarrow> Some (Inl (Inl AddressOverflow))
      | Some file_end \<Rightarrow>
          if file_end > length data then Some (Inl (Inl DataOutOfBounds))
          else case uadd (seg_paddr s) (seg_memsz s) of
            None \<Rightarrow> Some (Inl (Inl AddressOverflow))
          | Some _ \<Rightarrow> do {
              count \<leftarrow> uadd count 1;
              Some (Inr count)
            })"

definition check_segments :: "bytes \<Rightarrow> (SegmentError + usize) panics" where
  "check_segments data = each_segment data (check_segment data) 0
     (\<lambda>count. Some (if count = 0 then Inl BadProgramHeaders else Inr count))"

definition check_range :: "usize \<times> (u64 \<times> u64) list \<Rightarrow> Segment \<Rightarrow>
    ((SegmentError + unit) + usize \<times> (u64 \<times> u64) list) panics" where
  "check_range st s = (case st of (len, ranges) \<Rightarrow>
     (let start = seg_paddr s in
      case uadd (seg_paddr s) (seg_memsz s) of
        None \<Rightarrow> Some (Inl (Inl AddressOverflow))
      | Some stop \<Rightarrow> do {
          seen \<leftarrow> slice ranges 0 len;
          if list_ex (\<lambda>(other_start, other_end). start < other_end \<and> other_start < stop) seen
          then Some (Inl (Inl OverlappingSegments))
          else if len = length ranges then Some (Inl (Inl BadProgramHeaders))
          else do {
            ranges \<leftarrow> index_set ranges len (start, stop);
            len' \<leftarrow> uadd len 1;
            Some (Inr (len', ranges))
          }
        }))"

definition check_no_overlap :: "bytes \<Rightarrow> (SegmentError + unit) panics" where
  "check_no_overlap data = each_segment data check_range (0, replicate 16 (0, 0)) (\<lambda>_. Some (Inr ()))"

definition check_entry_in :: "u64 \<Rightarrow> unit \<Rightarrow> Segment \<Rightarrow> ((SegmentError + unit) + unit) panics" where
  "check_entry_in entry _ s =
     (case uadd (seg_vaddr s) (seg_memsz s) of
        None \<Rightarrow> Some (Inl (Inl AddressOverflow))
      | Some stop \<Rightarrow>
          if is_executable s \<and> seg_vaddr s \<le> entry \<and> entry < stop then Some (Inl (Inr ()))
          else Some (Inr ()))"

definition check_entry :: "bytes \<Rightarrow> u64 \<Rightarrow> (SegmentError + unit) panics" where
  "check_entry data entry = each_segment data (check_entry_in entry) () (\<lambda>_. Some (Inl EntryNotExecutable))"

definition extend_span :: "(u64 \<times> u64) option \<Rightarrow> Segment \<Rightarrow> ((SegmentError + u64 \<times> u64) + (u64 \<times> u64) option) panics" where
  "extend_span span s = do {
     (start, stop) \<leftarrow> page_range s;
     Some (Inr (Some (case span of
       None \<Rightarrow> (start, stop)
     | Some (lo, hi) \<Rightarrow> (min lo start, max hi stop))))
   }"

definition loaded_span :: "bytes \<Rightarrow> (SegmentError + u64 \<times> u64) panics" where
  "loaded_span data = each_segment data extend_span None
     (\<lambda>span. Some (case span of None \<Rightarrow> Inl BadProgramHeaders | Some p \<Rightarrow> Inr p))"

section \<open>The program headers of an image\<close>

text \<open>
  What the iteration yields, read off the bytes: the loadable entries of the table in order, up to
  the first entry that is not inside the file.
\<close>

definition segment_at :: "bytes \<Rightarrow> nat \<Rightarrow> Segment" where
  "segment_at d e = \<lparr> seg_offset = from_le_bytes (sub d (e + 8) 8), seg_paddr = from_le_bytes (sub d (e + 24) 8),
     seg_vaddr = from_le_bytes (sub d (e + 16) 8), seg_filesz = from_le_bytes (sub d (e + 32) 8),
     seg_memsz = from_le_bytes (sub d (e + 40) 8), seg_flags = from_le_bytes (sub d (e + 4) 4) \<rparr>"

definition loadable_at :: "bytes \<Rightarrow> nat \<Rightarrow> bool" where
  "loadable_at d e \<longleftrightarrow> from_le_bytes (sub d e 4) = 1"

fun scan :: "bytes \<Rightarrow> nat \<Rightarrow> nat \<Rightarrow> nat \<Rightarrow> nat \<Rightarrow> (SegmentError + Segment) list" where
  "scan d t es i 0 = []"
| "scan d t es i (Suc k) = (let e = t + i * es in
     if length d < e + 56 then [Inl BadProgramHeaders]
     else if loadable_at d e then Inr (segment_at d e) # scan d t es (Suc i) k
     else scan d t es (Suc i) k)"

definition e_phoff :: "bytes \<Rightarrow> nat" where "e_phoff d = from_le_bytes (sub d 32 8)"
definition e_phentsize :: "bytes \<Rightarrow> nat" where "e_phentsize d = from_le_bytes (sub d 54 2)"
definition e_phnum :: "bytes \<Rightarrow> nat" where "e_phnum d = from_le_bytes (sub d 56 2)"

definition phdr_items :: "bytes \<Rightarrow> (SegmentError + Segment) list" where
  "phdr_items d =
     (if length d < 64 \<or> e_phnum d = 0 \<or> e_phentsize d < 56 then [Inl BadProgramHeaders]
      else if U64_MAX < e_phoff d + 56 then []
      else scan d (e_phoff d) (e_phentsize d) 0 (e_phnum d))"

fun fold_items :: "('s \<Rightarrow> Segment \<Rightarrow> ((SegmentError + 'r) + 's) panics) \<Rightarrow> (SegmentError + Segment) list \<Rightarrow> 's \<Rightarrow> ((SegmentError + 'r) + 's) panics" where
  "fold_items body [] s = Some (Inr s)"
| "fold_items body (Inl e # xs) s = Some (Inl (Inl e))"
| "fold_items body (Inr g # xs) s = do {
     r \<leftarrow> body s g;
     case r of Inl res \<Rightarrow> Some (Inl res) | Inr s' \<Rightarrow> fold_items body xs s'
   }"

lemma img_read_u64_eq: "off + 8 \<le> length d \<Longrightarrow> length d \<le> ISIZE_MAX \<Longrightarrow> img_read_u64 d off = Some (from_le_bytes (sub d off 8))"
  by (simp add: img_read_u64_def uadd_ok slice_def rust_consts)

lemma sub_index2: "off + 2 \<le> length d \<Longrightarrow> sub d off 2 = [d ! off, d ! (off + 1)]"
  by (rule nth_equalityI) (auto simp: nth_sub less_Suc_eq numeral_2_eq_2)

lemma sub_index4: "off + 4 \<le> length d \<Longrightarrow> sub d off 4 = [d ! off, d ! (off + 1), d ! (off + 2), d ! (off + 3)]"
  by (rule nth_equalityI) (auto simp: nth_sub less_Suc_eq eval_nat_numeral)

lemma img_read_u16_eq: "off + 2 \<le> length d \<Longrightarrow> length d \<le> ISIZE_MAX \<Longrightarrow> img_read_u16 d off = Some (from_le_bytes (sub d off 2))"
  by (simp add: img_read_u16_def uadd_ok index_def sub_index2 rust_consts)

lemma img_read_u32_eq: "off + 4 \<le> length d \<Longrightarrow> length d \<le> ISIZE_MAX \<Longrightarrow> img_read_u32 d off = Some (from_le_bytes (sub d off 4))"
  by (simp add: img_read_u32_def uadd_ok index_def sub_index4 rust_consts)

lemma segments_eq:
  assumes "length d \<le> ISIZE_MAX"
  shows "segments d = Some (if length d < 64 \<or> e_phnum d = 0 \<or> e_phentsize d < 56 then Inl BadProgramHeaders
    else Inr \<lparr> si_data = d, si_table_offset = e_phoff d, si_entry_size = e_phentsize d, si_remaining = e_phnum d, si_index = 0 \<rparr>)"
  using assms
  by (simp add: segments_def img_read_u64_eq img_read_u16_eq ELF_HEADER_MIN_LEN_def E_PHOFF_OFFSET_def E_PHENTSIZE_OFFSET_def
      E_PHNUM_OFFSET_def PHDR_LEN_def e_phoff_def e_phentsize_def e_phnum_def)

lemma header_field_bounds: "e_phoff d \<le> U64_MAX" "e_phentsize d < 65536" "e_phnum d < 65536" if "64 \<le> length d"
  using that from_le_bytes_u64 [of "sub d 32 8"] from_le_bytes_less [of "sub d 54 2"] from_le_bytes_less [of "sub d 56 2"]
  by (simp_all add: e_phoff_def e_phentsize_def e_phnum_def)

definition iter_at :: "bytes \<Rightarrow> nat \<Rightarrow> nat \<Rightarrow> nat \<Rightarrow> nat \<Rightarrow> SegmentIter" where
  "iter_at d t es k i = \<lparr> si_data = d, si_table_offset = t, si_entry_size = es, si_remaining = k, si_index = i \<rparr>"

lemma entry_read:
  assumes "e + 56 \<le> length d" "length d \<le> ISIZE_MAX"
  shows "img_read_u32 (sub d e 56) P_TYPE_OFFSET = Some (from_le_bytes (sub d e 4))"
    "read_segment (sub d e 56) = Some (segment_at d e)"
proof -
  have len: "length (sub d e 56) = 56" "length (sub d e 56) \<le> ISIZE_MAX" using assms by (simp_all add: ISIZE_MAX_def)
  show "img_read_u32 (sub d e 56) P_TYPE_OFFSET = Some (from_le_bytes (sub d e 4))"
    using img_read_u32_eq [of 0 "sub d e 56"] len by (simp add: P_TYPE_OFFSET_def sub_sub)
  show "read_segment (sub d e 56) = Some (segment_at d e)"
    using img_read_u32_eq [OF _ len(2)] img_read_u64_eq [OF _ len(2)] len(1)
    by (simp add: read_segment_def segment_at_def sub_sub P_OFFSET_OFFSET_def P_PADDR_OFFSET_def P_VADDR_OFFSET_def
        P_FILESZ_OFFSET_def P_MEMSZ_OFFSET_def P_FLAGS_OFFSET_def)
qed

lemma segment_next_step:
  assumes len: "length d \<le> ISIZE_MAX" and t: "t \<le> ISIZE_MAX" and es: "es < 65536" and i: "i + Suc k < 65536"
  shows "segment_next (iter_at d t es (Suc k) i) =
    (if length d < t + i * es + 56 then Some (iter_at d t es k (Suc i), Some (Inl BadProgramHeaders))
     else if loadable_at d (t + i * es) then Some (iter_at d t es k (Suc i), Some (Inr (segment_at d (t + i * es))))
     else segment_next (iter_at d t es k (Suc i)))"
proof -
  have "i * es \<le> 65536 * 65536" using i es by (intro mult_mono) auto
  then have b: "i * es \<le> U64_MAX" "t + i * es \<le> U64_MAX" "t + i * es + 56 \<le> U64_MAX" "i + 1 < 65536"
    using t i by (simp_all add: rust_consts)
  have it: "iter_at d t es (Suc k) i\<lparr>si_index := i + 1, si_remaining := k\<rparr> = iter_at d t es k (Suc i)"
    by (simp add: iter_at_def)
  have proj: "si_remaining (iter_at d t es (Suc k) i) = Suc k" "si_index (iter_at d t es (Suc k) i) = i"
    "si_entry_size (iter_at d t es (Suc k) i) = es" "si_table_offset (iter_at d t es (Suc k) i) = t"
    "si_data (iter_at d t es (Suc k) i) = d" by (simp_all add: iter_at_def)
  show ?thesis
    using b entry_read [of "t + i * es" d] len
    by (subst segment_next.simps)
      (simp add: proj it [simplified] uadd_ok umul_ok u16_add_def PHDR_LEN_def slice_def loadable_at_def PT_LOAD_def Let_def not_less)
qed

lemma for_segments_scan:
  assumes "length d \<le> ISIZE_MAX" "t \<le> ISIZE_MAX" "es < 65536" "i + k < 65536"
  shows "for_segments body (iter_at d t es k i) s = fold_items body (scan d t es i k) s"
  using assms(4)
proof (induction k arbitrary: i s)
  case 0
  have "segment_next (iter_at d t es 0 i) = Some (iter_at d t es 0 i, None)"
    by (subst segment_next.simps) (simp add: iter_at_def)
  then show ?case by (simp add: for_segments.simps)
next
  case (Suc k)
  note step = segment_next_step [OF assms(1-3) Suc.prems]
  have IH: "for_segments body (iter_at d t es k (Suc i)) = fold_items body (scan d t es (Suc i) k)"
    using Suc.IH [of "Suc i"] Suc.prems by (intro ext) simp
  show ?case
  proof (cases "\<not> length d < t + i * es + 56 \<and> \<not> loadable_at d (t + i * es)")
    case True
    then have "for_segments body (iter_at d t es (Suc k) i) s = for_segments body (iter_at d t es k (Suc i)) s"
      using step by (simp add: for_segments.simps [of body "iter_at d t es (Suc k) i"] for_segments.simps [of body "iter_at d t es k (Suc i)"])
    then show ?thesis using True IH by (simp add: Let_def)
  next
    case False
    then show ?thesis
      by (subst for_segments.simps) (auto simp: step IH Let_def)
  qed
qed

lemma for_segments_far:
  assumes "length d \<le> ISIZE_MAX" "ISIZE_MAX < t" "t \<le> U64_MAX" "0 < k" "k < 65536"
  shows "for_segments body (iter_at d t es k 0) s = (if t + 56 \<le> U64_MAX then Some (Inl (Inl BadProgramHeaders)) else Some (Inr s))"
proof -
  obtain n where k: "k = Suc n" using assms(4) by (cases k) auto
  have "segment_next (iter_at d t es k 0) = Some (iter_at d t es n 1, if t + 56 \<le> U64_MAX then Some (Inl BadProgramHeaders) else None)"
    using assms by (subst segment_next.simps) (simp add: k iter_at_def u16_add_def umul_def uadd_def PHDR_LEN_def)
  then show ?thesis by (simp add: for_segments.simps [of body "iter_at d t es k 0"])
qed

text \<open>Every loop over the segments is a fold over the program headers; the iterator itself cannot panic.\<close>

lemma each_segment_eq:
  assumes "length d \<le> ISIZE_MAX"
  shows "each_segment d body s after = do {
     r \<leftarrow> fold_items body (phdr_items d) s;
     case r of Inl res \<Rightarrow> Some res | Inr s' \<Rightarrow> after s'
   }"
proof (cases "length d < 64 \<or> e_phnum d = 0 \<or> e_phentsize d < 56")
  case True
  then show ?thesis by (simp add: each_segment_def segments_eq [OF assms] phdr_items_def)
next
  case False
  note b = header_field_bounds [of d]
  have it: "each_segment d body s after = do {
     r \<leftarrow> for_segments body (iter_at d (e_phoff d) (e_phentsize d) (e_phnum d) 0) s;
     case r of Inl res \<Rightarrow> Some res | Inr s' \<Rightarrow> after s' }"
    using False by (simp add: each_segment_def segments_eq [OF assms] iter_at_def)
  have "for_segments body (iter_at d (e_phoff d) (e_phentsize d) (e_phnum d) 0) s = fold_items body (phdr_items d) s"
  proof (cases "e_phoff d \<le> ISIZE_MAX")
    case True
    then have "\<not> U64_MAX < e_phoff d + 56" by (simp add: rust_consts)
    then show ?thesis using for_segments_scan [OF assms True, of "e_phentsize d" 0 "e_phnum d"] False b by (simp add: phdr_items_def)
  next
    case far: False
    obtain n where n: "e_phnum d = Suc n" using False by (cases "e_phnum d") auto
    show ?thesis
      using for_segments_far [OF assms, of "e_phoff d" "e_phnum d" body "e_phentsize d" s] far False b assms
      by (auto simp: phdr_items_def n Let_def)
  qed
  then show ?thesis by (simp only: it)
qed

lemma scan_length: "length (scan d t es i k) \<le> k"
  by (induction d t es i k rule: scan.induct) (auto simp: Let_def)

lemma phdr_items_length: "length (phdr_items d) < 65536"
proof (cases "length d < 64 \<or> e_phnum d = 0 \<or> e_phentsize d < 56")
  case False
  then show ?thesis
    using scan_length [of d "e_phoff d" "e_phentsize d" 0 "e_phnum d"] header_field_bounds(3) [of d] by (simp add: phdr_items_def)
qed (simp add: phdr_items_def)

section \<open>Passes over the segments\<close>

text \<open>
  A loop body that, as long as its invariant on the segments seen so far holds, either extends it
  by the next segment or leaves the loop for a stated reason.  What such a loop computes is then
  known for every image.
\<close>

locale segment_pass =
  fixes body :: "'s \<Rightarrow> Segment \<Rightarrow> ((SegmentError + 'r) + 's) panics"
    and inv :: "Segment list \<Rightarrow> 's \<Rightarrow> bool"
    and leaves :: "Segment list \<Rightarrow> Segment \<Rightarrow> (SegmentError + 'r) \<Rightarrow> bool"
    and start :: 's
  assumes start: "inv [] start"
    and step: "inv gs s \<Longrightarrow> length gs < 65536 \<Longrightarrow>
      (\<exists>s'. body s g = Some (Inr s') \<and> inv (gs @ [g]) s') \<or> (\<exists>r. body s g = Some (Inl r) \<and> leaves gs g r)"
begin

lemma fold_from:
  assumes "inv ps s" "length ps + length xs < 65536"
  shows "(\<exists>gs s'. xs = map Inr gs \<and> fold_items body xs s = Some (Inr s') \<and> inv (ps @ gs) s') \<or>
    (\<exists>gs g ys r. xs = map Inr gs @ Inr g # ys \<and> fold_items body xs s = Some (Inl r) \<and> leaves (ps @ gs) g r) \<or>
    (\<exists>gs e ys. xs = map Inr gs @ Inl e # ys \<and> fold_items body xs s = Some (Inl (Inl e)))"
  using assms
proof (induction xs arbitrary: ps s)
  case Nil
  then show ?case by auto
next
  case (Cons x xs)
  show ?case
  proof (cases x)
    case (Inl e)
    then have "x # xs = map Inr [] @ Inl e # xs \<and> fold_items body (x # xs) s = Some (Inl (Inl e))" by simp
    then show ?thesis by (intro disjI2) blast
  next
    case (Inr g)
    from step [of ps s g] Cons.prems consider
      s' where "body s g = Some (Inr s')" "inv (ps @ [g]) s'" | r where "body s g = Some (Inl r)" "leaves ps g r" by auto
    then show ?thesis
    proof cases
      case 1
      have eq: "fold_items body (x # xs) s = fold_items body xs s'" using 1(1) Inr by simp
      have "length (ps @ [g]) + length xs < 65536" using Cons.prems by simp
      from Cons.IH [OF 1(2) this] consider
        gs s2 where "xs = map Inr gs" "fold_items body xs s' = Some (Inr s2)" "inv (ps @ g # gs) s2"
      | gs h ys r where "xs = map Inr gs @ Inr h # ys" "fold_items body xs s' = Some (Inl r)" "leaves (ps @ g # gs) h r"
      | gs e ys where "xs = map Inr gs @ Inl e # ys" "fold_items body xs s' = Some (Inl (Inl e))" by auto
      then show ?thesis
      proof cases
        case (1 gs s2)
        then have "x # xs = map Inr (g # gs) \<and> fold_items body (x # xs) s = Some (Inr s2) \<and> inv (ps @ (g # gs)) s2" using Inr eq by simp
        then show ?thesis by (intro disjI1 exI [of _ "g # gs"] exI [of _ s2])
      next
        case (2 gs h ys r)
        then have "x # xs = map Inr (g # gs) @ Inr h # ys \<and> fold_items body (x # xs) s = Some (Inl r) \<and> leaves (ps @ (g # gs)) h r"
          using Inr eq by simp
        then show ?thesis by - (rule disjI2, rule disjI1, intro exI [of _ "g # gs"] exI [of _ h] exI [of _ ys] exI [of _ r])
      next
        case (3 gs e ys)
        then have "x # xs = map Inr (g # gs) @ Inl e # ys \<and> fold_items body (x # xs) s = Some (Inl (Inl e))" using Inr eq by simp
        then show ?thesis by (intro disjI2 exI [of _ "g # gs"] exI [of _ e] exI [of _ ys])
      qed
    next
      case 2
      have "x # xs = map Inr [] @ Inr g # xs" "fold_items body (x # xs) s = Some (Inl r)" "leaves (ps @ []) g r" using 2 Inr by simp_all
      then show ?thesis by - (rule disjI2, rule disjI1, blast)
    qed
  qed
qed

lemma pass_cases:
  assumes "length d \<le> ISIZE_MAX"
  obtains (completes) gs s where "phdr_items d = map Inr gs" "each_segment d body start after = after s" "inv gs s"
  | (leaves) gs g ys r where "phdr_items d = map Inr gs @ Inr g # ys" "each_segment d body start after = Some r" "leaves gs g r"
  | (fails) gs e ys where "phdr_items d = map Inr gs @ Inl e # ys" "each_segment d body start after = Some (Inl e)"
proof -
  have "length [] + length (phdr_items d) < 65536" using phdr_items_length [of d] by simp
  from fold_from [OF start this] show thesis
    unfolding append_Nil
    by (elim disjE exE conjE; intro completes leaves fails) (assumption | simp add: each_segment_eq [OF assms])+
qed

end

text \<open>The reasons for which a segment is refused.\<close>

definition segment_ok :: "bytes \<Rightarrow> Segment \<Rightarrow> bool" where
  "segment_ok d g \<longleftrightarrow> 0 < seg_memsz g \<and> seg_filesz g \<le> seg_memsz g \<and> seg_offset g + seg_filesz g \<le> length d \<and>
     seg_paddr g + seg_memsz g \<le> U64_MAX"

definition segment_fault :: "bytes \<Rightarrow> Segment \<Rightarrow> SegmentError \<Rightarrow> bool" where
  "segment_fault d g e \<longleftrightarrow>
     (if seg_memsz g = 0 then e = EmptySegment
      else if seg_memsz g < seg_filesz g then e = FileszLargerThanMemsz
      else if U64_MAX < seg_offset g + seg_filesz g then e = AddressOverflow
      else if length d < seg_offset g + seg_filesz g then e = DataOutOfBounds
      else U64_MAX < seg_paddr g + seg_memsz g \<and> e = AddressOverflow)"

interpretation chk: segment_pass "check_segment data" "\<lambda>gs n. n = length gs \<and> (\<forall>g \<in> set gs. segment_ok data g)"
  "\<lambda>gs g r. (\<forall>h \<in> set gs. segment_ok data h) \<and> (\<exists>e. r = Inl e \<and> segment_fault data g e)" 0 for data
proof unfold_locales
  fix gs :: "Segment list" and n and g :: Segment
  assume inv: "n = length gs \<and> (\<forall>g \<in> set gs. segment_ok data g)" and len: "length gs < 65536"
  have n: "uadd (length gs) (Suc 0) = Some (Suc (length gs))" using len by (simp add: uadd_def rust_consts)
  show "(\<exists>s'. check_segment data n g = Some (Inr s') \<and> s' = length (gs @ [g]) \<and> (\<forall>h \<in> set (gs @ [g]). segment_ok data h)) \<or>
    (\<exists>r. check_segment data n g = Some (Inl r) \<and> (\<forall>h \<in> set gs. segment_ok data h) \<and> (\<exists>e. r = Inl e \<and> segment_fault data g e))"
    using inv by (auto simp: check_segment_def n segment_fault_def segment_ok_def uadd_Some_iff uadd_None_iff split: option.splits)
qed simp

text \<open>Two segments clash when their byte ranges overlap; for segments that are not empty this is intersection.\<close>

definition clash :: "Segment \<Rightarrow> Segment \<Rightarrow> bool" where
  "clash g h \<longleftrightarrow> seg_paddr g < seg_paddr h + seg_memsz h \<and> seg_paddr h < seg_paddr g + seg_memsz g"

lemma clash_iff:
  "0 < seg_memsz g \<Longrightarrow> 0 < seg_memsz h \<Longrightarrow>
    clash g h \<longleftrightarrow> {seg_paddr g ..< seg_paddr g + seg_memsz g} \<inter> {seg_paddr h ..< seg_paddr h + seg_memsz h} \<noteq> {}"
  unfolding clash_def by (auto simp: disjoint_iff)

definition ranges_inv :: "Segment list \<Rightarrow> nat \<times> (nat \<times> nat) list \<Rightarrow> bool" where
  "ranges_inv gs st \<longleftrightarrow> fst st = length gs \<and> length gs \<le> 16 \<and> length (snd st) = 16 \<and>
     take (length gs) (snd st) = map (\<lambda>g. (seg_paddr g, seg_paddr g + seg_memsz g)) gs \<and>
     (\<forall>g \<in> set gs. seg_paddr g + seg_memsz g \<le> U64_MAX) \<and> sorted_wrt (\<lambda>g h. \<not> clash g h) gs"

interpretation ovl: segment_pass check_range ranges_inv
  "\<lambda>gs g r. (r = Inl AddressOverflow \<and> U64_MAX < seg_paddr g + seg_memsz g) \<or>
     (r = Inl OverlappingSegments \<and> (\<exists>h \<in> set gs. clash h g)) \<or> (r = Inl BadProgramHeaders \<and> length gs = 16)"
  "(0, replicate 16 (0, 0))"
proof unfold_locales
  show "ranges_inv [] (0, replicate 16 (0, 0))" by (simp add: ranges_inv_def)
  fix gs :: "Segment list" and st :: "nat \<times> (nat \<times> nat) list" and g :: Segment
  assume inv: "ranges_inv gs st" and len: "length gs < 65536"
  obtain rs where st: "st = (length gs, rs)" "length rs = 16" "length gs \<le> 16"
    and rs: "take (length gs) rs = map (\<lambda>g. (seg_paddr g, seg_paddr g + seg_memsz g)) gs"
    using inv by (cases st) (auto simp: ranges_inv_def)
  let ?r = "(seg_paddr g, seg_paddr g + seg_memsz g)"
  have sl: "slice rs 0 (length gs) = Some (map (\<lambda>g. (seg_paddr g, seg_paddr g + seg_memsz g)) gs)"
    using rs st(2,3) by (simp add: slice_def sub_def)
  have ex: "list_ex (\<lambda>(os, oe). seg_paddr g < oe \<and> os < seg_paddr g + seg_memsz g)
      (map (\<lambda>g. (seg_paddr g, seg_paddr g + seg_memsz g)) gs) \<longleftrightarrow> (\<exists>h \<in> set gs. clash h g)"
    by (auto simp: list_ex_iff clash_def)
  have n: "uadd (length gs) (Suc 0) = Some (Suc (length gs))" using len by (simp add: uadd_def rust_consts)
  have run: "check_range st g = (if U64_MAX < seg_paddr g + seg_memsz g then Some (Inl (Inl AddressOverflow))
     else if \<exists>h \<in> set gs. clash h g then Some (Inl (Inl OverlappingSegments))
     else if length gs = 16 then Some (Inl (Inl BadProgramHeaders))
     else Some (Inr (Suc (length gs), rs[length gs := ?r])))"
    using st n by (simp add: check_range_def sl ex index_set_def uadd_def Let_def)
  have "take (Suc (length gs)) (rs[length gs := ?r]) = map (\<lambda>g. (seg_paddr g, seg_paddr g + seg_memsz g)) (gs @ [g])"
    if "length gs \<noteq> 16" using that st rs by (simp add: take_Suc_conv_app_nth)
  then have "ranges_inv (gs @ [g]) (Suc (length gs), rs[length gs := ?r])"
    if "length gs \<noteq> 16" "\<not> (\<exists>h \<in> set gs. clash h g)" "\<not> U64_MAX < seg_paddr g + seg_memsz g"
    using that inv st by (auto simp: ranges_inv_def sorted_wrt_append)
  then show "(\<exists>s'. check_range st g = Some (Inr s') \<and> ranges_inv (gs @ [g]) s') \<or>
    (\<exists>r. check_range st g = Some (Inl r) \<and> ((r = Inl AddressOverflow \<and> U64_MAX < seg_paddr g + seg_memsz g) \<or>
     (r = Inl OverlappingSegments \<and> (\<exists>h \<in> set gs. clash h g)) \<or> (r = Inl BadProgramHeaders \<and> length gs = 16)))"
    unfolding run by auto
qed

text \<open>The segment an entry point lies in.\<close>

definition holds_entry :: "nat \<Rightarrow> Segment \<Rightarrow> bool" where
  "holds_entry entry g \<longleftrightarrow> is_executable g \<and> seg_vaddr g \<le> entry \<and> entry < seg_vaddr g + seg_memsz g"

interpretation ent: segment_pass "check_entry_in entry"
  "\<lambda>gs _. \<forall>g \<in> set gs. seg_vaddr g + seg_memsz g \<le> U64_MAX \<and> \<not> holds_entry entry g"
  "\<lambda>gs g r. (\<forall>h \<in> set gs. seg_vaddr h + seg_memsz h \<le> U64_MAX \<and> \<not> holds_entry entry h) \<and>
     (if U64_MAX < seg_vaddr g + seg_memsz g then r = Inl AddressOverflow else holds_entry entry g \<and> r = Inr ())" "()" for entry
  by unfold_locales (auto simp: check_entry_in_def holds_entry_def uadd_def)

text \<open>The pages of a segment.\<close>

definition page_start :: "Segment \<Rightarrow> nat" where "page_start g = seg_paddr g div 4096 * 4096"
definition page_stop :: "Segment \<Rightarrow> nat" where "page_stop g = div_ceil (seg_paddr g + seg_memsz g) 4096 * 4096"

lemma page_range_eq:
  "page_range g = (if page_stop g \<le> U64_MAX then Some (page_start g, page_stop g) else None)"
proof (cases "seg_paddr g + seg_memsz g \<le> U64_MAX")
  case True
  then have "and_not (seg_paddr g) (2 ^ 12 - 1) = seg_paddr g div 2 ^ 12 * 2 ^ 12" by (intro and_not_mask) auto
  then show ?thesis using True by (simp add: page_range_def page_start_def page_stop_def ELF_PAGE_SIZE_def uadd_def umul_def)
next
  case False
  then have "U64_MAX < page_stop g"
    using div_ceil_bounds(1) [of 4096 "seg_paddr g + seg_memsz g"] by (simp add: page_stop_def)
  then show ?thesis using False by (simp add: page_range_def uadd_def Let_def)
qed

lemma Min_insert_min: "finite S \<Longrightarrow> Min (insert (min a b) S) = min a (Min (insert b S))" for a :: nat
  by (cases "S = {}") (simp_all add: min.assoc)

lemma Max_insert_max: "finite S \<Longrightarrow> Max (insert (max a b) S) = max a (Max (insert b S))" for a :: nat
  by (cases "S = {}") (simp_all add: max.assoc)

lemma extend_span_fold:
  "(\<forall>g \<in> set gs. page_stop g \<le> U64_MAX) \<Longrightarrow> fold_items extend_span (map Inr gs) (Some (lo, hi)) =
    Some (Inr (Some (Min (insert lo (page_start ` set gs)), Max (insert hi (page_stop ` set gs)))))"
proof (induction gs arbitrary: lo hi)
  case Nil
  then show ?case by simp
next
  case (Cons g gs)
  then show ?case by (simp add: extend_span_def page_range_eq Min_insert_min Max_insert_max)
qed

lemma extend_span_panics: "g \<in> set gs \<Longrightarrow> U64_MAX < page_stop g \<Longrightarrow> fold_items extend_span (map Inr gs) sp = None"
  by (induction gs arbitrary: sp) (auto simp: extend_span_def page_range_eq)

lemma loaded_span_eq:
  assumes "length d \<le> ISIZE_MAX" "phdr_items d = map Inr gs" "\<forall>g \<in> set gs. page_stop g \<le> U64_MAX" "gs \<noteq> []"
  shows "loaded_span d = Some (Inr (Min (page_start ` set gs), Max (page_stop ` set gs)))"
proof -
  obtain g hs where gs: "gs = g # hs" using assms(4) by (cases gs) auto
  then have "fold_items extend_span (phdr_items d) None =
      Some (Inr (Some (Min (page_start ` set gs), Max (page_stop ` set gs))))"
    using extend_span_fold [of hs "page_start g" "page_stop g"] assms(2,3) by (simp add: extend_span_def page_range_eq)
  then show ?thesis by (simp add: loaded_span_def each_segment_eq [OF assms(1)])
qed

lemma check_segments_accepts:
  assumes "length d \<le> ISIZE_MAX" "check_segments d = Some (Inr n)"
  shows "\<exists>gs. phdr_items d = map Inr gs \<and> gs \<noteq> [] \<and> n = length gs \<and> (\<forall>g \<in> set gs. segment_ok d g)"
  using assms(1)
proof (cases rule: chk.pass_cases [where data = d and after = "\<lambda>count. Some (if count = 0 then Inl BadProgramHeaders else Inr count)"])
  case (completes gs s)
  then show ?thesis using assms(2) by (auto simp: check_segments_def split: if_splits)
qed (use assms(2) in \<open>auto simp: check_segments_def\<close>)

section \<open>Properties\<close>

text \<open>An image with one segment, for the witnesses.\<close>

definition sample_elf :: bytes where
  "sample_elf = [127, 69, 76, 70, 2, 1, 1] @ replicate 9 0 @ to_le_bytes 2 2 @ to_le_bytes 2 62 @ to_le_bytes 4 1 @
     to_le_bytes 8 1048640 @ to_le_bytes 8 64 @ replicate 14 0 @ to_le_bytes 2 56 @ to_le_bytes 2 1 @ replicate 6 0 @
     to_le_bytes 4 1 @ to_le_bytes 4 5 @ to_le_bytes 8 0 @ to_le_bytes 8 1048576 @ to_le_bytes 8 1048576 @
     to_le_bytes 8 120 @ to_le_bytes 8 8192 @ to_le_bytes 8 4096"

definition sample_segment :: Segment where
  "sample_segment = \<lparr> seg_offset = 0, seg_paddr = 1048576, seg_vaddr = 1048576, seg_filesz = 120, seg_memsz = 8192, seg_flags = 5 \<rparr>"

lemma sample_elf_items: "phdr_items sample_elf = [Inr sample_segment]"
  by code_simp

lemma sample_elf_length [simp]: "length sample_elf = 120" "length sample_elf \<le> ISIZE_MAX"
  by (simp_all add: sample_elf_def ISIZE_MAX_def)







text \<open>
  The entry check accepts an entry point exactly when it lies in the virtual range of an
  executable segment and no segment before that one has a virtual range that overflows; a failure is
  \<open>EntryNotExecutable\<close> when no segment holds the entry and none overflows.  It never panics.
\<close>

theorem check_entry_exact:
  assumes "length d \<le> ISIZE_MAX" and items: "phdr_items d = map Inr gs"
  shows "case check_entry d entry of
      None \<Rightarrow> False
    | Some (Inr _) \<Rightarrow> \<exists>i < length gs. holds_entry entry (gs ! i) \<and> (\<forall>j \<le> i. seg_vaddr (gs ! j) + seg_memsz (gs ! j) \<le> U64_MAX)
    | Some (Inl e) \<Rightarrow> if \<forall>g \<in> set gs. seg_vaddr g + seg_memsz g \<le> U64_MAX
        then e = EntryNotExecutable \<and> (\<forall>g \<in> set gs. \<not> holds_entry entry g)
        else e = AddressOverflow"
  using assms(1)
proof (cases rule: ent.pass_cases [where entry = entry and after = "\<lambda>_. Some (Inl EntryNotExecutable)"])
  case (completes hs s)
  then have "hs = gs" using items by (simp add: inj_map_eq_map)
  then show ?thesis using completes by (auto simp: check_entry_def)
next
  case (leaves hs g ys r)
  then obtain ks where ks: "gs = hs @ g # ks" using items by (auto simp: map_eq_append_conv map_eq_Cons_conv)
  show ?thesis
  proof (cases "U64_MAX < seg_vaddr g + seg_memsz g")
    case True
    then show ?thesis using leaves ks by (auto simp: check_entry_def)
  next
    case False
    then have "holds_entry entry (gs ! length hs)" "\<forall>j \<le> length hs. seg_vaddr (gs ! j) + seg_memsz (gs ! j) \<le> U64_MAX" "length hs < length gs"
      using leaves(3) unfolding ks by (auto simp: nth_append le_less)
    then show ?thesis using leaves False by (auto simp: check_entry_def)
  qed
next
  case (fails hs e ys)
  then have "Inl e \<in> set (map Inr gs)" using items by simp
  then show ?thesis by auto
qed

theorem check_entry_exact_witness: "check_entry sample_elf 1048640 = Some (Inr ())"
proof -
  have "holds_entry 1048640 sample_segment" "seg_vaddr sample_segment + seg_memsz sample_segment \<le> U64_MAX"
    by (simp_all add: holds_entry_def is_executable_def sample_segment_def rust_consts)
  then show ?thesis
    using check_entry_exact [OF sample_elf_length(2), of "[sample_segment]" 1048640] sample_elf_items
    by (auto split: option.splits sum.splits)
qed

text \<open>
  C18.  For an image that passes the segment check, and none of whose segments ends in the last page of
  the address space, the loaded span is the smallest page-aligned range that covers every segment.
\<close>

theorem loaded_span_covers:
  assumes len: "length d \<le> ISIZE_MAX" and ok: "check_segments d = Some (Inr n)"
    and low: "\<forall>g. Inr g \<in> set (phdr_items d) \<longrightarrow> seg_paddr g + seg_memsz g \<le> U64_MAX - 4095"
  shows "\<exists>lo hi. loaded_span d = Some (Inr (lo, hi)) \<and> 4096 dvd lo \<and> 4096 dvd hi \<and>
    (\<forall>g. Inr g \<in> set (phdr_items d) \<longrightarrow> lo \<le> seg_paddr g \<and> seg_paddr g + seg_memsz g \<le> hi) \<and>
    (\<exists>g. Inr g \<in> set (phdr_items d) \<and> seg_paddr g < lo + 4096) \<and>
    (\<exists>g. Inr g \<in> set (phdr_items d) \<and> hi < seg_paddr g + seg_memsz g + 4096)"
proof -
  obtain gs where gs: "phdr_items d = map Inr gs" "gs \<noteq> []"
    using check_segments_accepts [OF len ok] by auto
  have mem: "Inr g \<in> set (phdr_items d) \<longleftrightarrow> g \<in> set gs" for g using gs(1) by auto
  have stop: "seg_paddr g + seg_memsz g \<le> page_stop g" "page_stop g < seg_paddr g + seg_memsz g + 4096" for g
    unfolding page_stop_def by (rule div_ceil_bounds, simp)+
  have start: "page_start g \<le> seg_paddr g" "seg_paddr g < page_start g + 4096" for g by (auto simp: page_start_def)
  have "\<forall>g \<in> set gs. page_stop g \<le> U64_MAX"
  proof
    fix g assume "g \<in> set gs"
    then have "seg_paddr g + seg_memsz g \<le> U64_MAX - 4095" using low mem by blast
    then show "page_stop g \<le> U64_MAX" using stop(2) [of g] by (simp add: rust_consts)
  qed
  note span = loaded_span_eq [OF len gs(1) this gs(2)]
  let ?lo = "Min (page_start ` set gs)" and ?hi = "Max (page_stop ` set gs)"
  have "?lo \<in> page_start ` set gs" "?hi \<in> page_stop ` set gs" using gs(2) by (auto intro: Min_in Max_in)
  then obtain g h where g: "g \<in> set gs" "?lo = page_start g" and h: "h \<in> set gs" "?hi = page_stop h" by blast
  have lo: "?lo \<le> seg_paddr k" if "k \<in> set gs" for k
    by (rule order_trans [OF Min_le start(1)]) (use that in auto)
  have hi: "seg_paddr k + seg_memsz k \<le> ?hi" if "k \<in> set gs" for k
    by (rule order_trans [OF stop(1) Max_ge]) (use that in auto)
  show ?thesis
    unfolding mem span using lo hi g h start(2) [of g] stop(2) [of h]
    by (intro exI [of _ ?lo] exI [of _ ?hi] conjI) (auto simp: page_start_def page_stop_def)
qed

theorem loaded_span_covers_witness: "loaded_span sample_elf \<noteq> None"
proof -
  have "segment_ok sample_elf sample_segment" by (simp add: segment_ok_def sample_segment_def U64_MAX_def)
  then have "check_segments sample_elf = Some (Inr 1)"
    by (simp add: check_segments_def each_segment_eq [OF sample_elf_length(2)] sample_elf_items check_segment_def segment_ok_def uadd_def U64_MAX_def sample_segment_def)
  then show ?thesis
    using loaded_span_covers [OF sample_elf_length(2), of 1] sample_elf_items by (auto simp: sample_segment_def U64_MAX_def)
qed

text \<open>A segment that ends in the last page passes the segment check, but its page range overflows.\<close>

lemma loaded_span_last_page:
  assumes "length d \<le> ISIZE_MAX" "phdr_items d = map Inr gs" "g \<in> set gs" "U64_MAX - 4095 < seg_paddr g + seg_memsz g"
  shows "loaded_span d = None"
proof -
  have "U64_MAX < page_stop g"
  proof (rule ccontr)
    assume "\<not> ?thesis"
    moreover have "seg_paddr g + seg_memsz g \<le> page_stop g" unfolding page_stop_def by (rule div_ceil_bounds) simp
    moreover obtain k where "page_stop g = 4096 * k" unfolding page_stop_def by (metis mult.commute)
    ultimately have "4096 * k \<le> 18446744073709551615" "18446744073709547520 < 4096 * k" using assms(4) by (simp_all add: rust_consts)
    moreover from this(1) have "k \<le> 4503599627370495" by linarith
    ultimately show False by linarith
  qed
  then show ?thesis
    using extend_span_panics [OF assms(3), of None] assms(2) by (simp add: loaded_span_def each_segment_eq [OF assms(1)])
qed

end
