(* ===== verification/Lock.thy ===== *)
theory Lock
  imports Prelude
begin

text \<open>
  Critical sections and the spin lock of \<^verbatim>\<open>src/crates/kernel/src/lock.rs\<close>, on the one processor the
  kernel runs on.

  The processor is its flags register and the static \<open>HELD\<close> counter.  With interrupts off nothing else
  runs, so nobody releases a lock while \<open>lock\<close> spins: the loop either finds the flag clear or never
  returns, and not returning is \<^term>\<open>None\<close> like a panic.
\<close>

unbundle bit_operations_syntax

section \<open>Interrupts\<close>

record Cpu =
  rflags :: u64
  held :: usize

definition interrupts_enabled :: "Cpu \<Rightarrow> bool" where
  "interrupts_enabled c = (rflags c AND push_bit 9 1 \<noteq> 0)"

definition disable_interrupts :: "Cpu \<Rightarrow> Cpu" where
  "disable_interrupts c = c\<lparr>rflags := unset_bit 9 (rflags c)\<rparr>"

definition enable_interrupts :: "Cpu \<Rightarrow> Cpu" where
  "enable_interrupts c = c\<lparr>rflags := set_bit 9 (rflags c)\<rparr>"

section \<open>Critical sections\<close>

record CriticalSection =
  restore :: bool

definition critical_enter :: "Cpu \<Rightarrow> CriticalSection \<times> Cpu" where
  "critical_enter c = (let restore = interrupts_enabled c in
     (\<lparr> restore = restore \<rparr>, if restore then disable_interrupts c else c))"

definition critical_drop :: "CriticalSection \<Rightarrow> Cpu \<Rightarrow> Cpu" where
  "critical_drop s c = (if restore s then enable_interrupts c else c)"

definition held_count :: "Cpu \<Rightarrow> usize" where
  "held_count c = held c"

section \<open>The spin lock\<close>

record 'a SpinLock =
  locked :: bool
  lock_value :: 'a

definition spin_lock_new :: "'a \<Rightarrow> 'a SpinLock" where
  "spin_lock_new v = \<lparr> locked = False, lock_value = v \<rparr>"

record SpinLockGuard =
  guard_irq :: CriticalSection

partial_function (option) spin :: "'a SpinLock \<Rightarrow> 'a SpinLock option" where
  "spin l = (let taken = locked l; l = l\<lparr>locked := True\<rparr> in if taken then spin l else Some l)"

definition spin_lock :: "Cpu \<Rightarrow> 'a SpinLock \<Rightarrow> (SpinLockGuard \<times> Cpu \<times> 'a SpinLock) panics" where
  "spin_lock c l = (let (irq, c) = critical_enter c in do {
     l \<leftarrow> spin l;
     Some (\<lparr> guard_irq = irq \<rparr>, c\<lparr>held := (held c + 1) mod 2 ^ 64\<rparr>, l)
   })"

definition guard_drop :: "SpinLockGuard \<Rightarrow> Cpu \<Rightarrow> 'a SpinLock \<Rightarrow> Cpu \<times> 'a SpinLock" where
  "guard_drop g c l = (let c = c\<lparr>held := (held c + (2 ^ 64 - 1)) mod 2 ^ 64\<rparr>; l = l\<lparr>locked := False\<rparr> in
     (critical_drop (guard_irq g) c, l))"

section \<open>Guarded access\<close>

text \<open>
  The shape of every access to the kernel's shared state: take the guard, work on the protected value,
  let the guard go out of scope.
\<close>

definition guarded_run :: "(Cpu \<Rightarrow> 'l \<Rightarrow> ('g \<times> Cpu \<times> 'l) option) \<Rightarrow> ('g \<Rightarrow> Cpu \<Rightarrow> 'l \<Rightarrow> Cpu \<times> 'l) \<Rightarrow> ('l \<Rightarrow> 'a) \<Rightarrow>
    ('a \<Rightarrow> 'l \<Rightarrow> 'l) \<Rightarrow> ('a \<Rightarrow> ('a \<times> 'r) panics) \<Rightarrow> Cpu \<Rightarrow> 'l \<Rightarrow> ((Cpu \<times> 'l) \<times> 'r) panics" where
  "guarded_run acquire release get store f c l = do {
     (g, c, l) \<leftarrow> acquire c l;
     (v, r) \<leftarrow> f (get l);
     Some (release g c (store v l), r)
   }"

definition cpu_ok :: "Cpu \<Rightarrow> bool" where
  "cpu_ok c \<longleftrightarrow> held c \<le> U64_MAX"

locale guarded =
  fixes acquire :: "Cpu \<Rightarrow> 'l \<Rightarrow> ('g \<times> Cpu \<times> 'l) option"
    and release :: "'g \<Rightarrow> Cpu \<Rightarrow> 'l \<Rightarrow> Cpu \<times> 'l"
    and get :: "'l \<Rightarrow> 'a"
    and store :: "'a \<Rightarrow> 'l \<Rightarrow> 'l"
    and free :: "'l \<Rightarrow> bool"
  assumes acquire_free: "cpu_ok c \<Longrightarrow> free l \<Longrightarrow> \<exists>g c' l'. acquire c l = Some (g, c', l') \<and>
      \<not> interrupts_enabled c' \<and> get l' = get l \<and> (\<forall>v. release g c' (store v l') = (c, store v l))"
    and acquire_taken: "\<not> free l \<Longrightarrow> acquire c l = None"
    and free_store: "free (store v l) = free l"
    and get_store: "get (store v l) = v"
begin

text \<open>A guarded access is the body on the protected value: the processor is left as it was found.\<close>

lemma run_eq:
  assumes "cpu_ok c" "free l"
  shows "guarded_run acquire release get store f c l = map_option (\<lambda>(v, r). ((c, store v l), r)) (f (get l))"
proof -
  obtain g c' l' where "acquire c l = Some (g, c', l')" "get l' = get l" "\<forall>v. release g c' (store v l') = (c, store v l)"
    using acquire_free [OF assms] by blast
  then show ?thesis by (cases "f (get l)") (auto simp: guarded_run_def)
qed

lemma run_taken: "\<not> free l \<Longrightarrow> guarded_run acquire release get store f c l = None"
  by (simp add: guarded_run_def acquire_taken)

text \<open>Two accesses in a row are one access with the two bodies in a row.\<close>

lemma run_run:
  assumes "cpu_ok c" "free l"
  shows "do { ((c, l), r) \<leftarrow> guarded_run acquire release get store f c l; guarded_run acquire release get store (h r) c l } =
    map_option (\<lambda>(v, r). ((c, store v (store (fst (the (f (get l)))) l)), r)) (do { (v, r) \<leftarrow> f (get l); h r v })"
  using assms by (cases "f (get l)") (auto simp: run_eq free_store get_store)

end

text \<open>The flags register across a critical section.\<close>

lemma interrupts_enabled_bit: "interrupts_enabled c \<longleftrightarrow> bit (rflags c) 9"
  by (simp add: interrupts_enabled_def bit_iff_and_push_bit_not_eq_0)

lemma critical_masked: "critical_enter c = (s, c') \<Longrightarrow> \<not> interrupts_enabled c'"
  by (auto simp: critical_enter_def Let_def interrupts_enabled_bit disable_interrupts_def bit_unset_bit_iff split: if_splits)

lemma set_unset_bit: "bit n k \<Longrightarrow> set_bit k (unset_bit k n) = n" for n :: nat
  by (rule bit_eqI) (auto simp: bit_simps)

lemma critical_restores: "critical_enter c = (s, c') \<Longrightarrow> critical_drop s c' = c" "critical_enter c = (s, c') \<Longrightarrow> held c' = held c"
  "critical_enter c = (s, c') \<Longrightarrow> critical_drop s (c'\<lparr>held := h\<rparr>) = c\<lparr>held := h\<rparr>"
  by (auto simp: critical_enter_def Let_def critical_drop_def interrupts_enabled_bit disable_interrupts_def enable_interrupts_def set_unset_bit
      split: if_splits)

lemma spin_free: "\<not> locked l \<Longrightarrow> spin l = Some (l\<lparr>locked := True\<rparr>)"
  by (subst spin.simps) (simp add: Let_def)

lemma spin_Some: "spin l = Some l' \<Longrightarrow> \<not> locked l"
proof (erule spin.raw_induct [where P = "\<lambda>l _. \<not> locked l", rotated])
  fix f :: "'a SpinLock \<Rightarrow> 'a SpinLock option" and l l'
  assume "\<And>l l'. f l = Some l' \<Longrightarrow> \<not> locked l"
    and "(let taken = locked l; l = l\<lparr>locked := True\<rparr> in if taken then f l else Some l) = Some l'"
  then show "\<not> locked l" by (fastforce simp: Let_def split: if_splits)
qed

lemma spin_taken: "locked l \<Longrightarrow> spin l = None"
  using spin_Some by (cases "spin l") auto

lemma held_restored: "h \<le> U64_MAX \<Longrightarrow> ((h + 1) mod 2 ^ 64 + (2 ^ 64 - 1)) mod 2 ^ 64 = h"
  by (simp add: U64_MAX_def mod_add_left_eq)

section \<open>The two guards\<close>

definition critical_acquire :: "Cpu \<Rightarrow> 'a \<Rightarrow> (CriticalSection \<times> Cpu \<times> 'a) option" where
  "critical_acquire c v = (let (s, c) = critical_enter c in Some (s, c, v))"

definition critical_release :: "CriticalSection \<Rightarrow> Cpu \<Rightarrow> 'a \<Rightarrow> Cpu \<times> 'a" where
  "critical_release s c v = (critical_drop s c, v)"

definition with_critical :: "('a \<Rightarrow> ('a \<times> 'r) panics) \<Rightarrow> Cpu \<Rightarrow> 'a \<Rightarrow> ((Cpu \<times> 'a) \<times> 'r) panics" where
  "with_critical = guarded_run critical_acquire critical_release (\<lambda>v. v) (\<lambda>v _. v)"

definition with_lock :: "('a \<Rightarrow> ('a \<times> 'r) panics) \<Rightarrow> Cpu \<Rightarrow> 'a SpinLock \<Rightarrow> ((Cpu \<times> 'a SpinLock) \<times> 'r) panics" where
  "with_lock = guarded_run spin_lock guard_drop lock_value (\<lambda>v l. l\<lparr>lock_value := v\<rparr>)"

interpretation crit: guarded critical_acquire critical_release "\<lambda>v. v" "\<lambda>v _. v" "\<lambda>_. True"
proof
  fix c :: Cpu and v :: 'a
  obtain s c' where e: "critical_enter c = (s, c')" by (cases "critical_enter c")
  show "\<exists>g c' l'. critical_acquire c v = Some (g, c', l') \<and> \<not> interrupts_enabled c' \<and> l' = v \<and>
      (\<forall>w. critical_release g c' w = (c, w))"
    using critical_masked [OF e] critical_restores(1) [OF e] by (simp add: critical_acquire_def critical_release_def e)
qed simp_all

interpretation spl: guarded spin_lock guard_drop lock_value "\<lambda>v l. l\<lparr>lock_value := v\<rparr>" "\<lambda>l. \<not> locked l"
proof
  fix c :: Cpu and l :: "'a SpinLock" assume c: "cpu_ok c" and l: "\<not> locked l"
  obtain s c' where e: "critical_enter c = (s, c')" by (cases "critical_enter c")
  have "interrupts_enabled (c'\<lparr>held := h\<rparr>) = interrupts_enabled c'" for h by (simp add: interrupts_enabled_bit)
  moreover have "l\<lparr>lock_value := v, locked := False\<rparr> = l\<lparr>lock_value := v\<rparr>" for v using l by (cases l) simp
  ultimately show "\<exists>g c' l'. spin_lock c l = Some (g, c', l') \<and> \<not> interrupts_enabled c' \<and> lock_value l' = lock_value l \<and>
      (\<forall>v. guard_drop g c' (l'\<lparr>lock_value := v\<rparr>) = (c, l\<lparr>lock_value := v\<rparr>))"
    using c critical_masked [OF e] critical_restores [OF e] held_restored [of "held c"] spin_free [OF l]
    by (auto simp: spin_lock_def guard_drop_def e cpu_ok_def Let_def)
qed (simp_all add: spin_lock_def spin_taken split_beta)

lemma with_critical_eq: "cpu_ok c \<Longrightarrow> with_critical f c v = map_option (\<lambda>(v, r). ((c, v), r)) (f v)"
  by (simp add: with_critical_def crit.run_eq)

lemma with_lock_eq: "cpu_ok c \<Longrightarrow> \<not> locked l \<Longrightarrow>
    with_lock f c l = map_option (\<lambda>(v, r). ((c, l\<lparr>lock_value := v\<rparr>), r)) (f (lock_value l))"
  by (simp add: with_lock_def spl.run_eq)

lemma with_lock_taken: "locked l \<Longrightarrow> with_lock f c l = None"
  by (simp add: with_lock_def spl.run_taken)

section \<open>Properties\<close>

text \<open>
  C24. Taking the lock returns exactly when it is free.  While the guard lives interrupts are off, the
  counter is one higher (so \<open>yield\<close> and \<open>exit\<close> refuse to switch) and a second attempt never returns;
  dropping the guard gives back the lock, the counter and the interrupt flag as they were.
\<close>

theorem spin_lock_correct:
  assumes "held c < U64_MAX"
  shows "((\<exists>r. spin_lock c l = Some r) \<longleftrightarrow> \<not> locked l) \<and>
    (\<forall>g c' l'. spin_lock c l = Some (g, c', l') \<longrightarrow>
       \<not> interrupts_enabled c' \<and> held_count c' = held_count c + 1 \<and> lock_value l' = lock_value l \<and> spin_lock c' l' = None \<and>
       (\<forall>v. guard_drop g c' (l'\<lparr>lock_value := v\<rparr>) = (c, l\<lparr>lock_value := v\<rparr>)))"
proof -
  have c: "cpu_ok c" using assms by (simp add: cpu_ok_def)
  have "held_count c' = held_count c + 1 \<and> locked l'" if "spin_lock c l = Some (g, c', l')" for g c' l'
    using that assms spin_Some [of l] spin_free [of l] critical_restores(2) [of c]
    by (cases "critical_enter c"; cases "spin l") (auto simp: spin_lock_def held_count_def U64_MAX_def)
  then show ?thesis
    using spl.acquire_free [OF c, of l] spl.acquire_taken [of l c] spl.acquire_taken by fastforce
qed

theorem spin_lock_correct_witness:
  "held \<lparr> rflags = 514, held = 0 \<rparr> < U64_MAX \<and> \<not> locked (spin_lock_new (7 :: nat)) \<and>
   (\<exists>r. spin_lock \<lparr> rflags = 514, held = 0 \<rparr> (spin_lock_new (7 :: nat)) = Some r)"
  using spin_lock_correct [of "\<lparr> rflags = 514, held = 0 \<rparr>" "spin_lock_new (7 :: nat)"]
  by (simp add: U64_MAX_def spin_lock_new_def)

end
