(* ===== verification/Page_Tables.thy ===== *)
theory Page_Tables
  imports Memory_Map
begin

text \<open>
  Page tables in an arena of bytes: the constants of \<open>src/crates/kernel-memory/src/paging.rs\<close>, the
  entries of a table, and the walk the processor makes through four levels of tables.  Both
  \<open>Paging\<close> (the kernel's identity map) and \<open>User_Map\<close> (the user region) are about this walk.

  The arena is a list of bytes together with its address \<open>base\<close>; a table is a page of the arena and
  has the physical address \<open>base + 4096 * k\<close>.
\<close>

section \<open>Constants\<close>

definition BLOCK_SIZE :: u64 where [rust_consts]: "BLOCK_SIZE = 2097152"
definition MAX_IDENTITY_BYTES :: u64 where [rust_consts]: "MAX_IDENTITY_BYTES = 4294967296"
definition PML4_ENTRIES :: usize where [rust_consts]: "PML4_ENTRIES = 512"
definition PDPT_ENTRIES :: usize where [rust_consts]: "PDPT_ENTRIES = 512"
definition PD_ENTRIES :: usize where [rust_consts]: "PD_ENTRIES = 512"
definition PT_ENTRIES :: usize where [rust_consts]: "PT_ENTRIES = 512"
definition PDPT_COVERAGE :: u64 where [rust_consts]: "PDPT_COVERAGE = 549755813888"
definition PD_COVERAGE :: u64 where [rust_consts]: "PD_COVERAGE = 1073741824"
definition MAX_IDENTITY_SUPPORTED :: u64 where [rust_consts]: "MAX_IDENTITY_SUPPORTED = PD_COVERAGE * PD_ENTRIES"
definition MAX_FINE_GRAINED_SUPPORTED :: u64 where [rust_consts]: "MAX_FINE_GRAINED_SUPPORTED = BLOCK_SIZE * PD_ENTRIES"
definition PRESENT :: u64 where [rust_consts]: "PRESENT = 1"
definition WRITABLE :: u64 where [rust_consts]: "WRITABLE = 2"
definition USER :: u64 where [rust_consts]: "USER = 4"
definition WRITE_THROUGH :: u64 where [rust_consts]: "WRITE_THROUGH = 8"
definition CACHE_DISABLE :: u64 where [rust_consts]: "CACHE_DISABLE = 16"
definition BLOCK :: u64 where [rust_consts]: "BLOCK = 128"
definition ADDRESS_MASK :: u64 where [rust_consts]: "ADDRESS_MASK = 4503599627366400"

section \<open>Loops\<close>

text \<open>A \<open>for\<close> loop whose body may panic.\<close>

fun for_list :: "'a list \<Rightarrow> ('a \<Rightarrow> 's \<Rightarrow> 's panics) \<Rightarrow> 's \<Rightarrow> 's panics" where
  "for_list [] body s = Some s"
| "for_list (x # xs) body s = do { s' \<leftarrow> body x s; for_list xs body s' }"

lemma for_list_append: "for_list (xs @ ys) body s = do { s' \<leftarrow> for_list xs body s; for_list ys body s' }"
  by (induction xs arbitrary: s) (auto simp: bind_assoc intro!: Option.bind_cong)

lemma for_list_map: "for_list (map f xs) body s = for_list xs (\<lambda>x. body (f x)) s"
  by (induction xs arbitrary: s) (auto intro!: Option.bind_cong)

lemma for_list_nested:
  "for_list xs (\<lambda>x. for_list ys (body x)) s = for_list (List.product xs ys) (\<lambda>(x, y). body x y) s"
  by (induction xs arbitrary: s) (auto simp: for_list_append for_list_map intro!: Option.bind_cong)

lemma for_list_nested_dep:
  "for_list xs (\<lambda>x. for_list (ys x) (body x)) s = for_list (concat (map (\<lambda>x. map (Pair x) (ys x)) xs)) (\<lambda>(x, y). body x y) s"
  by (induction xs arbitrary: s) (auto simp: for_list_append for_list_map intro!: Option.bind_cong)

lemma for_list_cong:
  "(\<And>x s. x \<in> set xs \<Longrightarrow> body x s = body' x s) \<Longrightarrow> for_list xs body s = for_list xs body' s"
  by (induction xs arbitrary: s) (auto intro!: Option.bind_cong)

section \<open>Entries\<close>

definition entry :: "bytes \<Rightarrow> nat \<Rightarrow> nat \<Rightarrow> nat" where
  "entry a k j = from_le_bytes (sub a (k * 4096 + j * 8) 8)"

definition set_entry :: "bytes \<Rightarrow> nat \<Rightarrow> nat \<Rightarrow> nat \<Rightarrow> bytes" where
  "set_entry a k j v = put a (k * 4096 + j * 8) (to_le_bytes 8 v)"

lemma entry_in_page: "j < 512 \<Longrightarrow> k < n \<Longrightarrow> n * 4096 \<le> len \<Longrightarrow> k * 4096 + j * 8 + 8 \<le> len" for len :: nat
  by linarith

lemma length_set_entry [simp]:
  "j < 512 \<Longrightarrow> k < n \<Longrightarrow> n * 4096 \<le> length a \<Longrightarrow> length (set_entry a k j v) = length a"
  using entry_in_page [of j k n "length a"] by (simp add: set_entry_def)

lemma entry_set_entry:
  assumes "j < 512" "k < n" "n * 4096 \<le> length a" "v \<le> U64_MAX" "j' < 512"
  shows "entry (set_entry a k j v) k' j' = (if k' = k \<and> j' = j then v else entry a k' j')"
proof -
  have le: "k * 4096 + j * 8 + 8 \<le> length a" using entry_in_page assms(1-3) by blast
  show ?thesis
  proof (cases "k' = k \<and> j' = j")
    case True
    then show ?thesis using le assms(4) by (simp add: entry_def set_entry_def byte_simps)
  next
    case False
    then have "k' * 4096 + j' * 8 + 8 \<le> k * 4096 + j * 8 \<or> k * 4096 + j * 8 + 8 \<le> k' * 4096 + j' * 8"
      using assms(1,5) by (cases "k' < k"; cases "k < k'"; cases "j' < j") linarith+
    then show ?thesis using le False by (auto simp: entry_def set_entry_def sub_put_disjoint)
  qed
qed

lemma entry_le: "entry a k j \<le> U64_MAX" if "k * 4096 + j * 8 + 8 \<le> length a"
  unfolding entry_def using that by (intro from_le_bytes_u64) simp

lemma entry_zeroed: "k * 4096 + j * 8 + 8 \<le> length a \<Longrightarrow> sub a (k * 4096 + j * 8) 8 = replicate 8 0 \<Longrightarrow> entry a k j = 0"
  by (simp add: entry_def eval_nat_numeral)

text \<open>
  A loop that writes entries at different places leaves exactly these entries changed.  Next to the
  arena the loop keeps counters, and \<open>budget\<close> says that they do not overflow in the remaining steps.
\<close>

lemma for_list_writes:
  fixes key :: "'x \<Rightarrow> nat \<times> nat"
  assumes body: "\<And>x a c k. x \<in> set xs \<Longrightarrow> length a = L \<Longrightarrow> budget (Suc k) c \<Longrightarrow>
      body x (a, c) = Some (if P x then set_entry a (fst (key x)) (snd (key x)) (val x) else a, step x c) \<and> budget k (step x c)"
    and keys: "\<And>x. x \<in> set xs \<Longrightarrow> fst (key x) < N \<and> snd (key x) < 512 \<and> val x \<le> U64_MAX" and N: "N * 4096 \<le> L"
    and inj: "inj_on key (set xs)" "distinct xs"
    and start: "budget (length xs) c" "length a = L"
  shows "\<exists>a'. for_list xs body (a, c) = Some (a', fold step xs c) \<and> length a' = L \<and>
    (\<forall>x \<in> set xs. P x \<longrightarrow> entry a' (fst (key x)) (snd (key x)) = val x) \<and>
    (\<forall>k j. j < 512 \<longrightarrow> (\<forall>x \<in> set xs. P x \<longrightarrow> key x \<noteq> (k, j)) \<longrightarrow> entry a' k j = entry a k j)"
  using assms
proof (induction xs arbitrary: a c)
  case Nil
  then show ?case by simp
next
  case (Cons x xs)
  let ?k = "fst (key x)" and ?j = "snd (key x)"
  let ?a = "if P x then set_entry a ?k ?j (val x) else a"
  have kx: "?k < N" "?j < 512" "val x \<le> U64_MAX" using Cons.prems(2) [of x] by auto
  have len: "length ?a = L" using kx Cons.prems(3,7) by auto
  have first: "body x (a, c) = Some (?a, step x c)" "budget (length xs) (step x c)"
    using Cons.prems(1) [of x a "length xs" c] Cons.prems(6,7) by auto
  have "\<exists>a'. for_list xs body (?a, step x c) = Some (a', fold step xs (step x c)) \<and> length a' = L \<and>
    (\<forall>x \<in> set xs. P x \<longrightarrow> entry a' (fst (key x)) (snd (key x)) = val x) \<and>
    (\<forall>k j. j < 512 \<longrightarrow> (\<forall>x \<in> set xs. P x \<longrightarrow> key x \<noteq> (k, j)) \<longrightarrow> entry a' k j = entry ?a k j)"
    using Cons.prems(4,5) by (intro Cons.IH Cons.prems(1-3) first(2) len) auto
  then obtain a' where a': "for_list xs body (?a, step x c) = Some (a', fold step xs (step x c))"
    "length a' = L" "\<forall>x \<in> set xs. P x \<longrightarrow> entry a' (fst (key x)) (snd (key x)) = val x"
    "\<forall>k j. j < 512 \<longrightarrow> (\<forall>x \<in> set xs. P x \<longrightarrow> key x \<noteq> (k, j)) \<longrightarrow> entry a' k j = entry ?a k j" by blast
  have new: "entry ?a k j = (if P x \<and> k = ?k \<and> j = ?j then val x else entry a k j)" if "j < 512" for k j
    using entry_set_entry [of ?j ?k N a "val x" j k] kx Cons.prems(3,7) that by auto
  have "key y \<noteq> (?k, ?j)" if "y \<in> set xs" for y
    using Cons.prems(4,5) that by (auto simp: inj_on_def)
  then have head: "P x \<Longrightarrow> entry a' ?k ?j = val x" using a'(4) kx(2) new by simp
  have rest: "entry a' k j = entry a k j" if "j < 512" "\<forall>y \<in> set (x # xs). P y \<longrightarrow> key y \<noteq> (k, j)" for k j
    using a'(4) that new [of j k] by (metis list.set_intros prod.collapse)
  show ?case
    using a'(1-3) first(1) head rest by (intro exI [of _ a']) auto
qed

section \<open>Entry values\<close>

text \<open>A page address with flags: the flags live in the low twelve bits, which an aligned address leaves free.\<close>

lemma or_low_bits:
  assumes "4096 dvd a" "f < (4096 :: nat)"
  shows "a OR f = a + f"
proof -
  have "take_bit 12 a = 0" using assms(1) by (simp add: take_bit_eq_0_iff)
  then have "bit a n \<Longrightarrow> 12 \<le> n" for n by (metis bit_0_eq bit_take_bit_iff bot_apply bot_bool_def not_le)
  moreover have "take_bit 12 f = f" using assms(2) by (simp add: take_bit_nat_eq_self)
  then have "bit f n \<Longrightarrow> n < 12" for n by (metis bit_take_bit_iff)
  ultimately have "a AND f = 0" by (intro bit_eqI) (fastforce simp: bit_and_iff not_le [symmetric])
  then show ?thesis by (simp add: disjunctive_add bit_eq_iff bit_and_iff)
qed

lemma bit_low:
  fixes a f :: nat
  assumes "4096 dvd a" "n < 12"
  shows "bit (a + f) n \<longleftrightarrow> bit f n"
proof -
  have "take_bit 12 (a + f) = take_bit 12 f"
    using assms(1) by (simp add: take_bit_eq_mod mod_add_left_eq [symmetric] dvd_imp_mod_0)
  then show ?thesis using assms(2) by (metis bit_take_bit_iff)
qed

lemma address_mask_eq: "e AND ADDRESS_MASK = take_bit 52 e div 4096 * 4096" for e :: nat
proof (rule bit_eqI)
  fix n
  have m: "ADDRESS_MASK = push_bit 12 (mask 40)" by (simp add: ADDRESS_MASK_def push_bit_eq_mult mask_eq_exp_minus_1)
  have d: "take_bit 52 e div 4096 * 4096 = push_bit 12 (drop_bit 12 (take_bit 52 e))"
    by (simp add: push_bit_eq_mult drop_bit_eq_div)
  show "bit (e AND ADDRESS_MASK) n = bit (take_bit 52 e div 4096 * 4096) n"
    unfolding m d by (auto simp: bit_and_iff bit_push_bit_iff bit_mask_iff bit_drop_bit_eq bit_take_bit_iff)
qed

lemma address_of_entry: "4096 dvd a \<Longrightarrow> a < 2 ^ 52 \<Longrightarrow> f < 4096 \<Longrightarrow> (a + f) AND ADDRESS_MASK = a" for a f :: nat
proof -
  assume a: "4096 dvd a" "a < 2 ^ 52" "f < 4096"
  then obtain k where k: "a = 4096 * k" by blast
  have "a + f < 2 ^ 52" using a by (auto simp: k)
  then show ?thesis using a(3) by (simp add: address_mask_eq take_bit_nat_eq_self k)
qed

lemma or_flags:
  assumes "4096 dvd a"
  shows "a OR PRESENT OR WRITABLE = a + 3" "a OR PRESENT OR WRITABLE OR USER = a + 7" "a OR PRESENT OR WRITABLE OR BLOCK = a + 131"
    "a OR (PRESENT OR USER) = a + 5" "a OR (PRESENT OR USER OR WRITABLE) = a + 7"
proof -
  have f: "PRESENT OR WRITABLE = 3" "PRESENT OR WRITABLE OR USER = 7" "PRESENT OR WRITABLE OR BLOCK = 131" "PRESENT OR USER = 5"
    "PRESENT OR USER OR WRITABLE = 7"
    by (simp_all add: PRESENT_def WRITABLE_def USER_def BLOCK_def)
  show "a OR PRESENT OR WRITABLE = a + 3" "a OR PRESENT OR WRITABLE OR USER = a + 7" "a OR PRESENT OR WRITABLE OR BLOCK = a + 131"
    "a OR (PRESENT OR USER) = a + 5" "a OR (PRESENT OR USER OR WRITABLE) = a + 7"
    using or_low_bits [OF assms, of 3] or_low_bits [OF assms, of 7] or_low_bits [OF assms, of 131] or_low_bits [OF assms, of 5] f
    by (simp_all add: or.assoc)
qed

section \<open>The walk\<close>

text \<open>
  Translation of a virtual address by the processor: the index of each level is nine bits of the
  address, an entry without the present bit ends the walk, and an entry of the third level with the
  size bit maps 2 MiB.  The result is the physical address and whether every level allows writing
  and user access.
\<close>

definition present :: "nat \<Rightarrow> bool" where "present e \<longleftrightarrow> bit e 0"
definition writable :: "nat \<Rightarrow> bool" where "writable e \<longleftrightarrow> bit e 1"
definition user_ok :: "nat \<Rightarrow> bool" where "user_ok e \<longleftrightarrow> bit e 2"
definition large :: "nat \<Rightarrow> bool" where "large e \<longleftrightarrow> bit e 7"

definition table_page :: "nat \<Rightarrow> nat \<Rightarrow> nat" where
  "table_page base e = ((e AND ADDRESS_MASK) - base) div 4096"

record translation =
  phys :: nat
  may_write :: bool
  may_user :: bool

definition walk :: "(nat \<Rightarrow> nat \<Rightarrow> nat) \<Rightarrow> nat \<Rightarrow> nat \<Rightarrow> nat \<Rightarrow> translation option" where
  "walk E base root va =
     (let e4 = E root (va div 2 ^ 39 mod 512) in
      if \<not> present e4 then None
      else let e3 = E (table_page base e4) (va div 2 ^ 30 mod 512) in
      if \<not> present e3 then None
      else let e2 = E (table_page base e3) (va div 2 ^ 21 mod 512) in
      if \<not> present e2 then None
      else if large e2 then
        Some \<lparr> phys = (e2 AND ADDRESS_MASK) + va mod 2 ^ 21, may_write = (writable e4 \<and> writable e3 \<and> writable e2),
               may_user = (user_ok e4 \<and> user_ok e3 \<and> user_ok e2) \<rparr>
      else let e1 = E (table_page base e2) (va div 2 ^ 12 mod 512) in
      if \<not> present e1 then None
      else Some \<lparr> phys = (e1 AND ADDRESS_MASK) + va mod 2 ^ 12,
               may_write = (writable e4 \<and> writable e3 \<and> writable e2 \<and> writable e1),
               may_user = (user_ok e4 \<and> user_ok e3 \<and> user_ok e2 \<and> user_ok e1) \<rparr>)"

lemma flag_bits:
  assumes "4096 dvd a"
  shows "present (a + 3)" "writable (a + 3)" "\<not> user_ok (a + 3)" "\<not> large (a + 3)"
    "present (a + 7)" "writable (a + 7)" "user_ok (a + 7)" "\<not> large (a + 7)"
    "present (a + 131)" "writable (a + 131)" "\<not> user_ok (a + 131)" "large (a + 131)"
    "present (a + 5)" "\<not> writable (a + 5)" "user_ok (a + 5)" "\<not> large (a + 5)"
  unfolding present_def writable_def user_ok_def large_def
  by (subst bit_low [OF assms], simp, simp add: bit_0)+

lemma not_present_0 [simp]: "\<not> present 0"
  by (simp add: present_def)

lemma table_page_entry:
  assumes "4096 dvd base" "base + k * 4096 < 2 ^ 52" "f < 4096"
  shows "table_page base (base + k * 4096 + f) = k"
proof -
  have "4096 dvd base + k * 4096" using assms(1) by simp
  then show ?thesis using address_of_entry [of "base + k * 4096" f] assms(2,3) by (simp add: table_page_def)
qed

end
