(* ===== verification/Paging.thy ===== *)
theory Paging
  imports Page_Tables
begin

text \<open>
  The identity map of \<open>src/crates/kernel-memory/src/paging.rs\<close>: \<open>build\<close> fills an arena with four
  levels of page tables in which every mapped virtual address is its own physical address.

  The arena's address, \<open>arena.as_ptr()\<close> in the source, is the argument \<open>arena_address\<close>.
\<close>

section \<open>Configuration and results\<close>

record PagingConfig =
  max_identity_bytes :: u64
  fine_grained_bytes :: u64

definition PagingConfig_M2 :: PagingConfig where
  "PagingConfig_M2 = \<lparr> max_identity_bytes = MAX_IDENTITY_BYTES, fine_grained_bytes = BLOCK_SIZE \<rparr>"

definition tables_needed :: "u64 \<Rightarrow> u64 \<Rightarrow> usize panics" where
  "tables_needed max_bytes fine_bytes = do {
     let pml4 = div_ceil max_bytes PDPT_COVERAGE;
     let pd = div_ceil max_bytes PD_COVERAGE;
     let pt = div_ceil fine_bytes BLOCK_SIZE;
     n \<leftarrow> uadd 1 pml4;
     n \<leftarrow> uadd n pd;
     uadd n pt
   }"

datatype BuildError =
    ArenaMisaligned u64
  | ArenaTooSmall usize usize
  | NoUsableRam
  | ConfigTooLarge u64 u64
  | FineGrainedTooLarge u64 u64

record PageTables =
  pml4_phys :: u64
  pt_limit :: u64
  pt_mapped_bytes :: u64
  pt_blocks :: usize
  pt_pages :: usize
  pt_tables_used :: usize

section \<open>Building\<close>

definition write_entry :: "u64 \<Rightarrow> bytes \<Rightarrow> u64 \<Rightarrow> usize \<Rightarrow> u64 \<Rightarrow> bytes panics" where
  "write_entry arena_address arena table i v = do {
     t \<leftarrow> usub table arena_address;
     d \<leftarrow> umul i 8;
     offset \<leftarrow> uadd t d;
     _ \<leftarrow> uadd offset 8;
     copy_into arena offset (to_le_bytes 8 v)
   }"

fun any_ram :: "Region list \<Rightarrow> u64 \<Rightarrow> u64 \<Rightarrow> bool panics" where
  "any_ram [] start stop = Some False"
| "any_ram (r # rs) start stop =
     (if is_ram (region_kind r) then do {
        b \<leftarrow> overlaps r start stop;
        if b then Some True else any_ram rs start stop
      }
      else any_ram rs start stop)"

definition overlaps_ram :: "MemoryMap \<Rightarrow> u64 \<Rightarrow> u64 \<Rightarrow> bool panics" where
  "overlaps_ram m start stop = do { rs \<leftarrow> map_regions m; any_ram rs start stop }"

definition take_page :: "u64 \<Rightarrow> usize \<Rightarrow> (u64 \<times> usize) panics" where
  "take_page base_phys next_page = do {
     d \<leftarrow> umul next_page PAGE_SIZE;
     address \<leftarrow> uadd base_phys d;
     next_page \<leftarrow> uadd next_page 1;
     Some (address, next_page)
   }"

text \<open>\<open>take_pages base n next\<close> fills the first \<open>n\<close> slots of an array of 512.\<close>

fun take_pages :: "u64 \<Rightarrow> nat \<Rightarrow> usize \<Rightarrow> (u64 list \<times> usize) panics" where
  "take_pages base_phys 0 next_page = Some ([], next_page)"
| "take_pages base_phys (Suc n) next_page = do {
     (a, next_page) \<leftarrow> take_page base_phys next_page;
     (as, next_page) \<leftarrow> take_pages base_phys n next_page;
     Some (a # as, next_page)
   }"

definition take_tables :: "u64 \<Rightarrow> nat \<Rightarrow> usize \<Rightarrow> (u64 list \<times> usize) panics" where
  "take_tables base_phys n next_page = do {
     (as, next_page) \<leftarrow> take_pages base_phys (min PD_ENTRIES n) next_page;
     Some (as @ replicate (PD_ENTRIES - length as) 0, next_page)
   }"

definition fill_pd_slot :: "u64 \<Rightarrow> MemoryMap \<Rightarrow> u64 list \<Rightarrow> usize \<Rightarrow> u64 \<Rightarrow> usize \<times> u64 \<Rightarrow> usize \<Rightarrow>
    bytes \<times> u64 \<times> usize \<Rightarrow> (bytes \<times> u64 \<times> usize) panics" where
  "fill_pd_slot arena_address m pts pt_count limit ipd slot st = (case (ipd, st) of ((i, pd), (arena, mapped_bytes, blocks)) \<Rightarrow> do {
     b \<leftarrow> umul i PD_ENTRIES;
     block_index \<leftarrow> uadd b slot;
     a1 \<leftarrow> umul i PD_COVERAGE;
     a2 \<leftarrow> umul slot BLOCK_SIZE;
     address \<leftarrow> uadd a1 a2;
     if block_index < pt_count then do {
       pt \<leftarrow> index pts block_index;
       arena \<leftarrow> write_entry arena_address arena pd slot (pt OR PRESENT OR WRITABLE);
       Some (arena, mapped_bytes, blocks)
     }
     else if address \<ge> limit then Some st
     else do {
       stop \<leftarrow> uadd address BLOCK_SIZE;
       ram \<leftarrow> overlaps_ram m address stop;
       if \<not> ram then Some st
       else do {
         arena \<leftarrow> write_entry arena_address arena pd slot (address OR PRESENT OR WRITABLE OR BLOCK);
         blocks \<leftarrow> uadd blocks 1;
         mapped_bytes \<leftarrow> uadd mapped_bytes BLOCK_SIZE;
         Some (arena, mapped_bytes, blocks)
       }
     }
   })"

definition fill_pt_slot :: "u64 \<Rightarrow> MemoryMap \<Rightarrow> u64 \<Rightarrow> usize \<times> u64 \<Rightarrow> usize \<Rightarrow>
    bytes \<times> u64 \<times> usize \<Rightarrow> (bytes \<times> u64 \<times> usize) panics" where
  "fill_pt_slot arena_address m fine_limit ipt slot st = (case (ipt, st) of ((i, pt), (arena, mapped_bytes, pages)) \<Rightarrow> do {
     a1 \<leftarrow> umul i BLOCK_SIZE;
     a2 \<leftarrow> umul slot PAGE_SIZE;
     address \<leftarrow> uadd a1 a2;
     if address = 0 \<or> address \<ge> fine_limit then Some st
     else do {
       stop \<leftarrow> uadd address PAGE_SIZE;
       ram \<leftarrow> overlaps_ram m address stop;
       if \<not> ram then Some st
       else do {
         arena \<leftarrow> write_entry arena_address arena pt slot (address OR PRESENT OR WRITABLE);
         pages \<leftarrow> uadd pages 1;
         mapped_bytes \<leftarrow> uadd mapped_bytes PAGE_SIZE;
         Some (arena, mapped_bytes, pages)
       }
     }
   })"

definition fill_tables :: "u64 \<Rightarrow> bytes \<Rightarrow> MemoryMap \<Rightarrow> PagingConfig \<Rightarrow> usize \<Rightarrow> usize \<Rightarrow> usize \<Rightarrow> u64 \<Rightarrow>
    (bytes \<times> PageTables) panics" where
  "fill_tables arena_address arena m config pd_count pt_count tables limit = do {
     (pml4, next_page) \<leftarrow> take_page arena_address 0;
     (pdpt, next_page) \<leftarrow> take_page arena_address next_page;
     (pds, next_page) \<leftarrow> take_tables arena_address pd_count next_page;
     (pts, next_page) \<leftarrow> take_tables arena_address pt_count next_page;
     arena \<leftarrow> write_entry arena_address arena pml4 0 (pdpt OR PRESENT OR WRITABLE);
     let ipds = take pd_count (enumerate 0 pds);
     arena \<leftarrow> for_list ipds (\<lambda>(i, pd) arena. write_entry arena_address arena pdpt i (pd OR PRESENT OR WRITABLE)) arena;
     (arena, mapped_bytes, blocks) \<leftarrow>
       for_list ipds (\<lambda>ipd. for_list [0..<PD_ENTRIES] (fill_pd_slot arena_address m pts pt_count limit ipd)) (arena, 0, 0);
     let fine_limit = min (fine_grained_bytes config) limit;
     (arena, mapped_bytes, pages) \<leftarrow>
       for_list (take pt_count (enumerate 0 pts)) (\<lambda>ipt. for_list [0..<PT_ENTRIES] (fill_pt_slot arena_address m fine_limit ipt))
         (arena, mapped_bytes, 0);
     Some (arena, \<lparr> pml4_phys = pml4, pt_limit = limit, pt_mapped_bytes = mapped_bytes, pt_blocks = blocks,
       pt_pages = pages, pt_tables_used = tables \<rparr>)
   }"

definition build :: "u64 \<Rightarrow> bytes \<Rightarrow> MemoryMap \<Rightarrow> PagingConfig \<Rightarrow> (bytes \<times> (BuildError + PageTables)) panics" where
  "build arena_address arena m config =
     (if \<not> is_multiple_of arena_address PAGE_SIZE then Some (arena, Inl (ArenaMisaligned arena_address))
      else if max_identity_bytes config > MAX_IDENTITY_SUPPORTED
      then Some (arena, Inl (ConfigTooLarge (max_identity_bytes config) MAX_IDENTITY_SUPPORTED))
      else if fine_grained_bytes config > MAX_FINE_GRAINED_SUPPORTED
      then Some (arena, Inl (FineGrainedTooLarge (fine_grained_bytes config) MAX_FINE_GRAINED_SUPPORTED))
      else do {
        let pd_count = div_ceil (max_identity_bytes config) PD_COVERAGE;
        let pt_count = div_ceil (fine_grained_bytes config) BLOCK_SIZE;
        tables \<leftarrow> tables_needed (max_identity_bytes config) (fine_grained_bytes config);
        needed \<leftarrow> umul tables PAGE_SIZE;
        if length arena < needed then Some (arena, Inl (ArenaTooSmall needed (length arena)))
        else do {
          rt \<leftarrow> ram_top m;
          case rt of
            None \<Rightarrow> Some (arena, Inl NoUsableRam)
          | Some rt \<Rightarrow> do {
              let limit = min rt (max_identity_bytes config);
              if limit = 0 then Some (arena, Inl NoUsableRam)
              else do {
                arena \<leftarrow> copy_into arena 0 (replicate needed 0);
                (arena, r) \<leftarrow> fill_tables arena_address arena m config pd_count pt_count tables limit;
                Some (arena, Inr r)
              }
            }
        }
      })"

section \<open>Loops that write entries\<close>

text \<open>
  A loop that writes entries at different places, and counts some of its steps, leaves exactly these
  entries changed.
\<close>

lemma fold_count:
  "fold (\<lambda>x (mb, n). (if Q x then mb + sz else mb, if Q x then n + 1 else n)) xs (mb, n) =
    (mb + sz * length (filter Q xs), n + length (filter Q xs))" for mb n sz :: nat
  by (induction xs arbitrary: mb n) auto

lemma for_list_entries:
  fixes key :: "'x \<Rightarrow> nat \<times> nat"
  assumes body: "\<And>x a mb n. x \<in> set xs \<Longrightarrow> length a = L \<Longrightarrow> mb + sz \<le> U64_MAX \<Longrightarrow> n + 1 \<le> U64_MAX \<Longrightarrow>
      body x (a, mb, n) = Some (if P x then set_entry a (fst (key x)) (snd (key x)) (val x) else a,
        if Q x then mb + sz else mb, if Q x then n + 1 else n)"
    and keys: "\<And>x. x \<in> set xs \<Longrightarrow> fst (key x) < N \<and> snd (key x) < 512 \<and> val x \<le> U64_MAX" and N: "N * 4096 \<le> L"
    and inj: "inj_on key (set xs)" "distinct xs"
    and bounds: "mb + sz * length xs \<le> U64_MAX" "n + length xs \<le> U64_MAX" "length a = L"
  shows "\<exists>a'. for_list xs body (a, mb, n) = Some (a', mb + sz * length (filter Q xs), n + length (filter Q xs)) \<and> length a' = L \<and>
    (\<forall>x \<in> set xs. P x \<longrightarrow> entry a' (fst (key x)) (snd (key x)) = val x) \<and>
    (\<forall>k j. j < 512 \<longrightarrow> (\<forall>x \<in> set xs. P x \<longrightarrow> key x \<noteq> (k, j)) \<longrightarrow> entry a' k j = entry a k j)"
proof -
  let ?step = "\<lambda>x (mb, n). (if Q x then mb + sz else mb, if Q x then n + 1 else n)"
  have "\<exists>a'. for_list xs body (a, (mb, n)) = Some (a', fold ?step xs (mb, n)) \<and> length a' = L \<and>
    (\<forall>x \<in> set xs. P x \<longrightarrow> entry a' (fst (key x)) (snd (key x)) = val x) \<and>
    (\<forall>k j. j < 512 \<longrightarrow> (\<forall>x \<in> set xs. P x \<longrightarrow> key x \<noteq> (k, j)) \<longrightarrow> entry a' k j = entry a k j)"
    using keys N inj bounds
    by (intro for_list_writes [where budget = "\<lambda>k (mb, n). mb + sz * k \<le> U64_MAX \<and> n + k \<le> U64_MAX" and N = N])
      (auto simp: body)
  then show ?thesis unfolding fold_count .
qed

section \<open>The tables that are built\<close>

definition ram_in :: "MemoryMap \<Rightarrow> nat \<Rightarrow> nat \<Rightarrow> bool" where
  "ram_in m start stop \<longleftrightarrow> (\<exists>r \<in> set (regions_of m). is_ram (region_kind r) \<and> region_base r < stop \<and> start < region_stop r)"

lemma overlaps_ram_eq: "map_wf m \<Longrightarrow> overlaps_ram m start stop = Some (ram_in m start stop)"
proof -
  assume wf: "map_wf m"
  have "any_ram rs start stop = Some (\<exists>r \<in> set rs. is_ram (region_kind r) \<and> region_base r < stop \<and> start < region_stop r)"
    if "set rs \<subseteq> set (regions_of m)" for rs
    using that
  proof (induction rs)
    case (Cons r rs)
    then show ?case using map_wf_stop [OF wf, of r] by (auto simp: overlaps_eq)
  qed simp
  then show ?thesis using wf by (simp add: overlaps_ram_def map_wf_regions ram_in_def)
qed

text \<open>The entry \<open>j\<close> of the table in page \<open>k\<close> of the arena.\<close>

definition identity_entry :: "nat \<Rightarrow> MemoryMap \<Rightarrow> nat \<Rightarrow> nat \<Rightarrow> nat \<Rightarrow> nat \<Rightarrow> nat \<Rightarrow> nat \<Rightarrow> nat" where
  "identity_entry base m pd pt limit fine k j =
     (if k = 0 then (if j = 0 then base + 4096 + 3 else 0)
      else if k = 1 then (if j < pd then base + (2 + j) * 4096 + 3 else 0)
      else if k < 2 + pd then
        (let b = (k - 2) * 512 + j in
         if b < pt then base + (2 + pd + b) * 4096 + 3
         else if b * 2097152 < limit \<and> ram_in m (b * 2097152) (b * 2097152 + 2097152) then b * 2097152 + 131
         else 0)
      else if k < 2 + pd + pt then
        (let p = (k - 2 - pd) * 512 + j in
         if 0 < p \<and> p * 4096 < fine \<and> ram_in m (p * 4096) (p * 4096 + 4096) then p * 4096 + 3 else 0)
      else 0)"

definition block_mapped :: "MemoryMap \<Rightarrow> nat \<Rightarrow> nat \<Rightarrow> nat \<Rightarrow> bool" where
  "block_mapped m pt limit b \<longleftrightarrow> pt \<le> b \<and> b * 2097152 < limit \<and> ram_in m (b * 2097152) (b * 2097152 + 2097152)"

definition page_mapped :: "MemoryMap \<Rightarrow> nat \<Rightarrow> nat \<Rightarrow> bool" where
  "page_mapped m fine p \<longleftrightarrow> 0 < p \<and> p * 4096 < fine \<and> ram_in m (p * 4096) (p * 4096 + 4096)"

lemma take_pages_eq:
  "base + (k + n) * 4096 \<le> U64_MAX \<Longrightarrow> take_pages base n k = Some (map (\<lambda>i. base + (k + i) * 4096) [0..<n], k + n)"
proof (induction n arbitrary: k)
  case 0
  then show ?case by simp
next
  case (Suc n)
  have "take_page base k = Some (base + k * 4096, Suc k)"
    using Suc.prems by (simp add: take_page_def umul_def uadd_def PAGE_SIZE_def)
  then show ?case
    using Suc.IH [of "Suc k"] Suc.prems by (simp add: upt_conv_Cons map_Suc_upt [symmetric] del: upt_Suc)
qed

lemma take_tables_eq:
  assumes "base + (k + n) * 4096 \<le> U64_MAX" "n \<le> 512"
  shows "take_tables base n k = Some (map (\<lambda>i. base + (k + i) * 4096) [0..<n] @ replicate (512 - n) 0, k + n)"
  using take_pages_eq [OF assms(1)] assms(2) by (simp add: take_tables_def PD_ENTRIES_def)

lemma take_enumerate:
  "n \<le> length xs \<Longrightarrow> take n (enumerate 0 xs) = map (\<lambda>i. (i, xs ! i)) [0..<n]"
  by (rule nth_equalityI) (auto simp: nth_enumerate_eq)

lemma enumerate_tables:
  "n \<le> 512 \<Longrightarrow> take n (enumerate 0 (map f [0..<n] @ replicate (512 - n) 0)) = map (\<lambda>i. (i, f i)) [0..<n]"
  by (subst take_enumerate) (auto simp: nth_append)

lemma write_entry_eq:
  assumes "j < 512" "k < n" "n * 4096 \<le> length a" "length a \<le> ISIZE_MAX"
  shows "write_entry base a (base + k * 4096) j v = Some (set_entry a k j v)"
proof -
  have "k * 4096 + j * 8 + 8 \<le> length a" using entry_in_page assms by blast
  then show ?thesis
    using assms(4) by (simp add: write_entry_def usub_def umul_def uadd_def copy_into_def set_entry_def rust_consts)
qed

text \<open>What the arena must be like: aligned, large enough, and inside the physical address space of the processor.\<close>

definition arena_ok :: "nat \<Rightarrow> nat \<Rightarrow> nat \<Rightarrow> bool" where
  "arena_ok base len n \<longleftrightarrow> 4096 dvd base \<and> n * 4096 \<le> len \<and> len \<le> ISIZE_MAX \<and> base + len \<le> 2 ^ 52"

lemma arena_okD:
  assumes "arena_ok base len n"
  shows "4096 dvd base" "n * 4096 \<le> len" "len \<le> ISIZE_MAX" "k \<le> n \<Longrightarrow> base + k * 4096 \<le> 2 ^ 52" "k < n \<Longrightarrow> base + k * 4096 < 2 ^ 52"
    "k \<le> n \<Longrightarrow> base + k * 4096 \<le> U64_MAX"
  using assms unfolding arena_ok_def by (simp_all add: U64_MAX_def)

lemma fill_pd_slot_eq:
  assumes ok: "arena_ok base (length a) (2 + pd + pt)" and wf: "map_wf m"
    and i: "i < pd" "pd \<le> 512" "slot < 512" and pts: "b < pt \<Longrightarrow> index pts b = Some (base + (2 + pd + b) * 4096)"
    and b: "b = i * 512 + slot" and c: "mb + 2097152 \<le> U64_MAX" "n + 1 \<le> U64_MAX"
    and t: "t = base + (2 + i) * 4096" "k = 2 + i" and v: "v = identity_entry base m pd pt limit fine k slot"
  shows "fill_pd_slot base m pts pt limit (i, t) slot (a, mb, n) =
    Some (if b < pt \<or> block_mapped m pt limit b then set_entry a k slot v else a,
      if block_mapped m pt limit b then mb + 2097152 else mb, if block_mapped m pt limit b then n + 1 else n)"
proof -
  note A = arena_okD [OF ok]
  have lt: "i < 512" "i * 1073741824 + slot * 2097152 = b * 2097152" "b < 262144" using i b by simp_all
  have ar: "umul i PD_ENTRIES = Some (i * 512)" "uadd (i * 512) slot = Some b" "umul i PD_COVERAGE = Some (i * 1073741824)"
    "umul slot BLOCK_SIZE = Some (slot * 2097152)" "uadd (i * 1073741824) (slot * 2097152) = Some (b * 2097152)"
    "uadd (b * 2097152) BLOCK_SIZE = Some (b * 2097152 + 2097152)"
    using lt i(3) b by (simp_all add: umul_def uadd_def rust_consts)
  have w: "write_entry base a t slot v = Some (set_entry a k slot v)" for v
    unfolding t using A(2,3) i by (intro write_entry_eq [of _ _ "2 + pd + pt"]) auto
  define q where "q = base + (2 + pd + b) * 4096"
  have "4096 dvd q" "4096 dvd b * 2097152" using A(1) by (simp add: q_def, intro dvd_mult) auto
  note f = or_flags(1) [OF this(1)] or_flags(3) [OF this(2)]
  have c': "uadd n (Suc 0) = Some (Suc n)" "uadd mb BLOCK_SIZE = Some (mb + 2097152)" using c by (simp_all add: uadd_def BLOCK_SIZE_def)
  have e: "v = (if b < pt then q + 3 else b * 2097152 + 131)" if "b < pt \<or> block_mapped m pt limit b"
    using that i(1) b by (auto simp: identity_entry_def block_mapped_def Let_def v q_def t)
  show ?thesis
  proof (cases "b < pt")
    case True
    then show ?thesis using e pts [folded q_def] by (simp add: fill_pd_slot_def ar w f block_mapped_def)
  next
    case False
    then show ?thesis using e
      by (simp add: fill_pd_slot_def ar w f c' overlaps_ram_eq [OF wf] block_mapped_def)
  qed
qed

lemma fill_pt_slot_eq:
  assumes ok: "arena_ok base (length a) (2 + pd + pt)" and wf: "map_wf m"
    and i: "i < pt" "pt \<le> 512" "slot < 512" and p: "p = i * 512 + slot" and c: "mb + 4096 \<le> U64_MAX" "n + 1 \<le> U64_MAX"
    and t: "t = base + (2 + pd + i) * 4096" "k = 2 + pd + i" and v: "v = identity_entry base m pd pt limit fine k slot"
  shows "fill_pt_slot base m fine (i, t) slot (a, mb, n) =
    Some (if page_mapped m fine p then set_entry a k slot v else a,
      if page_mapped m fine p then mb + 4096 else mb, if page_mapped m fine p then n + 1 else n)"
proof -
  note A = arena_okD [OF ok]
  have lt: "i < 512" "i * 2097152 + slot * 4096 = p * 4096" "p < 262144" using i p by simp_all
  have ar: "umul i BLOCK_SIZE = Some (i * 2097152)" "umul slot PAGE_SIZE = Some (slot * 4096)"
    "uadd (i * 2097152) (slot * 4096) = Some (p * 4096)" "uadd (p * 4096) PAGE_SIZE = Some (p * 4096 + 4096)"
    using lt i(3) p by (simp_all add: umul_def uadd_def rust_consts)
  have w: "write_entry base a t slot v = Some (set_entry a k slot v)" for v
    unfolding t using A(2,3) i by (intro write_entry_eq [of _ _ "2 + pd + pt"]) auto
  have f: "p * 4096 OR PRESENT OR WRITABLE = p * 4096 + 3" by (rule or_flags(1)) simp
  have c': "uadd n (Suc 0) = Some (Suc n)" "uadd mb PAGE_SIZE = Some (mb + 4096)" using c by (simp_all add: uadd_def PAGE_SIZE_def)
  have e: "v = p * 4096 + 3" if "page_mapped m fine p"
    using that i(1) p by (auto simp: identity_entry_def page_mapped_def Let_def v t)
  show ?thesis
    using e by (auto simp: fill_pt_slot_def ar w f c' overlaps_ram_eq [OF wf] page_mapped_def)
qed

text \<open>The three loops of the construction, each with the entries it writes.\<close>

definition blocks_of :: "MemoryMap \<Rightarrow> nat \<Rightarrow> nat \<Rightarrow> nat \<Rightarrow> nat set" where
  "blocks_of m pd pt limit = {b. b < pd * 512 \<and> block_mapped m pt limit b}"

definition pages_of :: "MemoryMap \<Rightarrow> nat \<Rightarrow> nat \<Rightarrow> nat set" where
  "pages_of m pt fine = {p. p < pt * 512 \<and> page_mapped m fine p}"

lemma index_eq: "j < 512 \<Longrightarrow> j' < 512 \<Longrightarrow> i * 512 + j = i' * 512 + j' \<longleftrightarrow> i = i' \<and> j = j'" for i j i' j' :: nat
proof
  assume "j < 512" "j' < 512" "i * 512 + j = i' * 512 + j'"
  then have "(i * 512 + j) div 512 = (i' * 512 + j') div 512" "(i * 512 + j) mod 512 = (i' * 512 + j') mod 512" by simp_all
  then show "i = i' \<and> j = j'" using \<open>j < 512\<close> \<open>j' < 512\<close> by simp
qed simp

lemma product_index:
  "bij_betw (\<lambda>(x, j). fst x * 512 + j) (set (List.product (map (\<lambda>i. (i, f i)) [0..<n]) [0..<512])) {..<n * 512}"
proof (rule bij_betw_imageI)
  show "inj_on (\<lambda>(x, j). fst x * 512 + j) (set (List.product (map (\<lambda>i. (i, f i)) [0..<n]) [0..<512]))"
    by (auto simp: inj_on_def index_eq)
  show "(\<lambda>(x, j). fst x * 512 + j) ` set (List.product (map (\<lambda>i. (i, f i)) [0..<n]) [0..<512]) = {..<n * 512}"
  proof (intro equalityI subsetI)
    fix b assume "b \<in> {..<n * 512}"
    then have "b div 512 < n" "b mod 512 < 512" "b = b div 512 * 512 + b mod 512" by auto
    then show "b \<in> (\<lambda>(x, j). fst x * 512 + j) ` set (List.product (map (\<lambda>i. (i, f i)) [0..<n]) [0..<512])"
      by (intro image_eqI [of _ _ "((b div 512, f (b div 512)), b mod 512)"]) auto
  qed auto
qed

lemma product_count:
  "length (filter (\<lambda>(x, j). Q (fst x * 512 + j)) (List.product (map (\<lambda>i. (i, f i)) [0..<n]) [0..<512])) = card {b. b < n * 512 \<and> Q b}"
proof -
  let ?xs = "List.product (map (\<lambda>i. (i, f i)) [0..<n]) [0..<512]" and ?g = "\<lambda>(x, j). fst x * 512 + j"
  have d: "distinct ?xs" by (intro distinct_product) (auto simp: distinct_map inj_on_def)
  have "length (filter (\<lambda>(x, j). Q (fst x * 512 + j)) ?xs) = card {x \<in> set ?xs. Q (?g x)}"
    using d by (subst distinct_card [symmetric]) (auto intro!: arg_cong [of _ _ card])
  also have "\<dots> = card (?g ` {x \<in> set ?xs. Q (?g x)})"
    by (rule card_image [symmetric]) (rule inj_on_subset [OF bij_betw_imp_inj_on [OF product_index [of f n]]], auto)
  also have "?g ` {x \<in> set ?xs. Q (?g x)} = {b \<in> ?g ` set ?xs. Q b}" by auto
  also have "\<dots> = {b. b < n * 512 \<and> Q b}" using bij_betw_imp_surj_on [OF product_index [of f n]] by auto
  finally show ?thesis .
qed

lemma identity_entry_le:
  assumes ok: "arena_ok base len (2 + pd + pt)" and "pd \<le> 512" "pt \<le> 512" "k < 2 + pd + pt" "j < 512"
  shows "identity_entry base m pd pt limit fine k j \<le> U64_MAX"
proof -
  have t: "base + i * 4096 + 3 \<le> U64_MAX" if "i < 2 + pd + pt" for i
    using arena_okD(4) [OF ok, of i] that by (simp add: U64_MAX_def)
  have "(k - 2) * 512 + j < 1048576" "(k - 2 - pd) * 512 + j < 1048576" using assms(2-5) by simp_all
  then have n: "((k - 2) * 512 + j) * 2097152 + 131 \<le> U64_MAX" "((k - 2 - pd) * 512 + j) * 4096 + 3 \<le> U64_MAX"
    by (simp_all add: U64_MAX_def)
  have j: "j < pd \<Longrightarrow> base + (2 + j) * 4096 + 3 \<le> U64_MAX" "(k - 2) * 512 + j < pt \<Longrightarrow> base + (2 + pd + ((k - 2) * 512 + j)) * 4096 + 3 \<le> U64_MAX"
    by (intro t; simp)+
  show ?thesis
    unfolding identity_entry_def Let_def using t [of 1] j n by (simp del: add_2_eq_Suc)
qed

lemma pd_loop:
  assumes ok: "arena_ok base (length a) (2 + pd + pt)" and wf: "map_wf m" and n: "pd \<le> 512" "pt \<le> 512"
    and pts: "\<And>b. b < pt \<Longrightarrow> index pts b = Some (base + (2 + pd + b) * 4096)"
  shows "\<exists>a'. for_list (map (\<lambda>i. (i, base + (2 + i) * 4096)) [0..<pd]) (\<lambda>ipd. for_list [0..<512] (fill_pd_slot base m pts pt limit ipd))
      (a, 0, 0) = Some (a', 2097152 * card (blocks_of m pd pt limit), card (blocks_of m pd pt limit)) \<and> length a' = length a \<and>
    (\<forall>i j. i < pd \<longrightarrow> j < 512 \<longrightarrow> i * 512 + j < pt \<or> block_mapped m pt limit (i * 512 + j) \<longrightarrow>
       entry a' (2 + i) j = identity_entry base m pd pt limit fine (2 + i) j) \<and>
    (\<forall>k j. j < 512 \<longrightarrow> \<not> (2 \<le> k \<and> k < 2 + pd \<and> ((k - 2) * 512 + j < pt \<or> block_mapped m pt limit ((k - 2) * 512 + j))) \<longrightarrow>
       entry a' k j = entry a k j)"
proof -
  let ?xs = "List.product (map (\<lambda>i. (i, base + (2 + i) * 4096)) [0..<pd]) [0..<512]"
  let ?b = "\<lambda>(x, j). fst x * 512 + j"
  let ?P = "\<lambda>x. ?b x < pt \<or> block_mapped m pt limit (?b x)" and ?Q = "\<lambda>(x, j). block_mapped m pt limit (fst x * 512 + j)"
  let ?key = "\<lambda>(x :: nat \<times> nat, j). (2 + fst x, j)"
  let ?val = "\<lambda>x. identity_entry base m pd pt limit fine (fst (?key x)) (snd (?key x))"
  have xs: "x \<in> set ?xs \<Longrightarrow> \<exists>i j. x = ((i, base + (2 + i) * 4096), j) \<and> i < pd \<and> j < 512" for x by auto
  have d: "distinct ?xs" by (intro distinct_product) (auto simp: distinct_map inj_on_def)
  have len: "length ?xs = pd * 512" by simp
  have "\<exists>a'. for_list ?xs (\<lambda>(x, j). fill_pd_slot base m pts pt limit x j) (a, 0, 0) =
      Some (a', 0 + 2097152 * length (filter ?Q ?xs), 0 + length (filter ?Q ?xs)) \<and> length a' = length a \<and>
    (\<forall>x \<in> set ?xs. ?P x \<longrightarrow> entry a' (fst (?key x)) (snd (?key x)) = ?val x) \<and>
    (\<forall>k j. j < 512 \<longrightarrow> (\<forall>x \<in> set ?xs. ?P x \<longrightarrow> ?key x \<noteq> (k, j)) \<longrightarrow> entry a' k j = entry a k j)"
  proof (rule for_list_entries [where N = "2 + pd + pt"])
    fix x :: "(nat \<times> nat) \<times> nat" and a1 :: bytes and mb n :: nat
    assume x: "x \<in> set ?xs" and l: "length a1 = length a" and c: "mb + 2097152 \<le> U64_MAX" "n + 1 \<le> U64_MAX"
    from xs [OF x] obtain i j where x: "x = ((i, base + (2 + i) * 4096), j)" "i < pd" "j < 512" by blast
    have "arena_ok base (length a1) (2 + pd + pt)" using ok l by simp
    from fill_pd_slot_eq [OF this wf x(2) n(1) x(3) pts refl c refl refl refl, of limit fine] show
      "(\<lambda>(x, j). fill_pd_slot base m pts pt limit x j) x (a1, mb, n) =
       Some (if ?P x then set_entry a1 (fst (?key x)) (snd (?key x)) (?val x) else a1, if ?Q x then mb + 2097152 else mb, if ?Q x then n + 1 else n)"
      by (simp only: x(1) split_conv fst_conv snd_conv)
  next
    fix x assume "x \<in> set ?xs"
    from xs [OF this] obtain i j where x: "x = ((i, base + (2 + i) * 4096), j)" "i < pd" "j < 512" by blast
    then show "fst (?key x) < 2 + pd + pt \<and> snd (?key x) < 512 \<and> ?val x \<le> U64_MAX"
      using identity_entry_le [OF ok n, where m = m and limit = limit and fine = fine and k = "2 + i" and j = j] by simp
  next
    show "(2 + pd + pt) * 4096 \<le> length a" by (rule arena_okD(2) [OF ok])
    show "inj_on ?key (set ?xs)" by (auto simp: inj_on_def)
    show "0 + 2097152 * length ?xs \<le> U64_MAX" "0 + length ?xs \<le> U64_MAX" using n unfolding len by (simp_all add: U64_MAX_def)
  qed (rule d, simp)
  then obtain a' where a': "for_list ?xs (\<lambda>(x, j). fill_pd_slot base m pts pt limit x j) (a, 0, 0) =
      Some (a', 2097152 * length (filter ?Q ?xs), length (filter ?Q ?xs))" "length a' = length a"
    "\<forall>x \<in> set ?xs. ?P x \<longrightarrow> entry a' (fst (?key x)) (snd (?key x)) = ?val x"
    "\<forall>k j. j < 512 \<longrightarrow> (\<forall>x \<in> set ?xs. ?P x \<longrightarrow> ?key x \<noteq> (k, j)) \<longrightarrow> entry a' k j = entry a k j" by auto
  show ?thesis
  proof (intro exI [of _ a'] conjI allI impI)
    show "for_list (map (\<lambda>i. (i, base + (2 + i) * 4096)) [0..<pd]) (\<lambda>ipd. for_list [0..<512] (fill_pd_slot base m pts pt limit ipd)) (a, 0, 0) =
      Some (a', 2097152 * card (blocks_of m pd pt limit), card (blocks_of m pd pt limit))"
      using a'(1) product_count [of "block_mapped m pt limit" "\<lambda>i. base + (2 + i) * 4096" pd] unfolding for_list_nested blocks_of_def by simp
    show "entry a' (2 + i) j = identity_entry base m pd pt limit fine (2 + i) j"
      if "i < pd" "j < 512" "i * 512 + j < pt \<or> block_mapped m pt limit (i * 512 + j)" for i j
      using bspec [OF a'(3), of "((i, base + (2 + i) * 4096), j)"] that by simp
    show "entry a' k j = entry a k j"
      if j: "j < 512" and k: "\<not> (2 \<le> k \<and> k < 2 + pd \<and> ((k - 2) * 512 + j < pt \<or> block_mapped m pt limit ((k - 2) * 512 + j)))" for k j
    proof -
      have "\<forall>x \<in> set ?xs. ?P x \<longrightarrow> ?key x \<noteq> (k, j)" using k by auto
      then show ?thesis using a'(4) j by blast
    qed
  qed (rule a'(2))
qed

lemma pt_loop:
  assumes ok: "arena_ok base (length a) (2 + pd + pt)" and wf: "map_wf m" and n: "pd \<le> 512" "pt \<le> 512" and mb: "mb \<le> 2 ^ 60"
  shows "\<exists>a'. for_list (map (\<lambda>i. (i, base + (2 + pd + i) * 4096)) [0..<pt]) (\<lambda>ipt. for_list [0..<512] (fill_pt_slot base m fine ipt))
      (a, mb, 0) = Some (a', mb + 4096 * card (pages_of m pt fine), card (pages_of m pt fine)) \<and> length a' = length a \<and>
    (\<forall>i j. i < pt \<longrightarrow> j < 512 \<longrightarrow> page_mapped m fine (i * 512 + j) \<longrightarrow>
       entry a' (2 + pd + i) j = identity_entry base m pd pt limit fine (2 + pd + i) j) \<and>
    (\<forall>k j. j < 512 \<longrightarrow> \<not> (2 + pd \<le> k \<and> k < 2 + pd + pt \<and> page_mapped m fine ((k - 2 - pd) * 512 + j)) \<longrightarrow>
       entry a' k j = entry a k j)"
proof -
  let ?xs = "List.product (map (\<lambda>i. (i, base + (2 + pd + i) * 4096)) [0..<pt]) [0..<512]"
  let ?P = "\<lambda>(x :: nat \<times> nat, j). page_mapped m fine (fst x * 512 + j)"
  let ?key = "\<lambda>(x :: nat \<times> nat, j). (2 + pd + fst x, j)"
  let ?val = "\<lambda>x. identity_entry base m pd pt limit fine (fst (?key x)) (snd (?key x))"
  have xs: "x \<in> set ?xs \<Longrightarrow> \<exists>i j. x = ((i, base + (2 + pd + i) * 4096), j) \<and> i < pt \<and> j < 512" for x by auto
  have d: "distinct ?xs" by (intro distinct_product) (auto simp: distinct_map inj_on_def)
  have len: "length ?xs = pt * 512" by simp
  have "\<exists>a'. for_list ?xs (\<lambda>(x, j). fill_pt_slot base m fine x j) (a, mb, 0) =
      Some (a', mb + 4096 * length (filter ?P ?xs), 0 + length (filter ?P ?xs)) \<and> length a' = length a \<and>
    (\<forall>x \<in> set ?xs. ?P x \<longrightarrow> entry a' (fst (?key x)) (snd (?key x)) = ?val x) \<and>
    (\<forall>k j. j < 512 \<longrightarrow> (\<forall>x \<in> set ?xs. ?P x \<longrightarrow> ?key x \<noteq> (k, j)) \<longrightarrow> entry a' k j = entry a k j)"
  proof (rule for_list_entries [where N = "2 + pd + pt"])
    fix x :: "(nat \<times> nat) \<times> nat" and a1 :: bytes and mb n1 :: nat
    assume x: "x \<in> set ?xs" and l: "length a1 = length a" and c: "mb + 4096 \<le> U64_MAX" "n1 + 1 \<le> U64_MAX"
    from xs [OF x] obtain i j where x: "x = ((i, base + (2 + pd + i) * 4096), j)" "i < pt" "j < 512" by blast
    have "arena_ok base (length a1) (2 + pd + pt)" using ok l by simp
    from fill_pt_slot_eq [OF this wf x(2) n(2) x(3) refl c refl refl refl, of fine limit] show
      "(\<lambda>(x, j). fill_pt_slot base m fine x j) x (a1, mb, n1) =
       Some (if ?P x then set_entry a1 (fst (?key x)) (snd (?key x)) (?val x) else a1, if ?P x then mb + 4096 else mb, if ?P x then n1 + 1 else n1)"
      by (simp only: x(1) split_conv fst_conv snd_conv)
  next
    fix x assume "x \<in> set ?xs"
    from xs [OF this] obtain i j where x: "x = ((i, base + (2 + pd + i) * 4096), j)" "i < pt" "j < 512" by blast
    then show "fst (?key x) < 2 + pd + pt \<and> snd (?key x) < 512 \<and> ?val x \<le> U64_MAX"
      using identity_entry_le [OF ok n, where m = m and limit = limit and fine = fine and k = "2 + pd + i" and j = j] by simp
  next
    show "(2 + pd + pt) * 4096 \<le> length a" by (rule arena_okD(2) [OF ok])
    show "inj_on ?key (set ?xs)" by (auto simp: inj_on_def)
    show "mb + 4096 * length ?xs \<le> U64_MAX" "0 + length ?xs \<le> U64_MAX" using n mb unfolding len by (simp_all add: U64_MAX_def)
  qed (rule d, simp)
  then obtain a' where a': "for_list ?xs (\<lambda>(x, j). fill_pt_slot base m fine x j) (a, mb, 0) =
      Some (a', mb + 4096 * length (filter ?P ?xs), length (filter ?P ?xs))" "length a' = length a"
    "\<forall>x \<in> set ?xs. ?P x \<longrightarrow> entry a' (fst (?key x)) (snd (?key x)) = ?val x"
    "\<forall>k j. j < 512 \<longrightarrow> (\<forall>x \<in> set ?xs. ?P x \<longrightarrow> ?key x \<noteq> (k, j)) \<longrightarrow> entry a' k j = entry a k j" by auto
  show ?thesis
  proof (intro exI [of _ a'] conjI allI impI)
    show "for_list (map (\<lambda>i. (i, base + (2 + pd + i) * 4096)) [0..<pt]) (\<lambda>ipt. for_list [0..<512] (fill_pt_slot base m fine ipt)) (a, mb, 0) =
      Some (a', mb + 4096 * card (pages_of m pt fine), card (pages_of m pt fine))"
      using a'(1) product_count [of "page_mapped m fine" "\<lambda>i. base + (2 + pd + i) * 4096" pt]
      unfolding for_list_nested pages_of_def by simp
    show "entry a' (2 + pd + i) j = identity_entry base m pd pt limit fine (2 + pd + i) j"
      if "i < pt" "j < 512" "page_mapped m fine (i * 512 + j)" for i j
      using bspec [OF a'(3), of "((i, base + (2 + pd + i) * 4096), j)"] that by simp
    show "entry a' k j = entry a k j"
      if j: "j < 512" and k: "\<not> (2 + pd \<le> k \<and> k < 2 + pd + pt \<and> page_mapped m fine ((k - 2 - pd) * 512 + j))" for k j
    proof -
      have "\<forall>x \<in> set ?xs. ?P x \<longrightarrow> ?key x \<noteq> (k, j)" using k by auto
      then show ?thesis using a'(4) j by blast
    qed
  qed (rule a'(2))
qed

lemma pdpt_loop:
  assumes ok: "arena_ok base (length a) (2 + pd + pt)" and n: "pd \<le> 512"
  shows "\<exists>a'. for_list (map (\<lambda>i. (i, base + (2 + i) * 4096)) [0..<pd])
      (\<lambda>(i, pd) a. write_entry base a (base + 4096) i (pd OR PRESENT OR WRITABLE)) a = Some a' \<and> length a' = length a \<and>
    (\<forall>k j. j < 512 \<longrightarrow> entry a' k j = (if k = 1 \<and> j < pd then base + (2 + j) * 4096 + 3 else entry a k j))"
proof -
  have "\<exists>a'. for_list (map (\<lambda>i. (i, base + (2 + i) * 4096)) [0..<q])
      (\<lambda>(i, pd) a. write_entry base a (base + 4096) i (pd OR PRESENT OR WRITABLE)) a = Some a' \<and> length a' = length a \<and>
    (\<forall>k j. j < 512 \<longrightarrow> entry a' k j = (if k = 1 \<and> j < q then base + (2 + j) * 4096 + 3 else entry a k j))" if "q \<le> pd" for q
    using that
  proof (induction q)
    case 0
    then show ?case by simp
  next
    case (Suc q)
    then obtain a1 where a1: "for_list (map (\<lambda>i. (i, base + (2 + i) * 4096)) [0..<q])
        (\<lambda>(i, pd) a. write_entry base a (base + 4096) i (pd OR PRESENT OR WRITABLE)) a = Some a1" "length a1 = length a"
      "\<forall>k j. j < 512 \<longrightarrow> entry a1 k j = (if k = 1 \<and> j < q then base + (2 + j) * 4096 + 3 else entry a k j)" by auto
    have q: "q < 512" "base + (2 + q) * 4096 + 3 \<le> U64_MAX"
      using Suc.prems n arena_okD(4) [OF ok, of "2 + q"] by (simp_all add: U64_MAX_def)
    have f: "base + (2 + q) * 4096 OR PRESENT OR WRITABLE = base + (2 + q) * 4096 + 3"
      using arena_okD(1) [OF ok] by (intro or_flags) simp
    let ?a = "set_entry a1 1 q (base + (2 + q) * 4096 + 3)"
    have w: "write_entry base a1 (base + 4096) q v = Some (set_entry a1 1 q v)" for v
      using write_entry_eq [of q 1 "2 + pd + pt" a1 base v] arena_okD(2,3) [OF ok] a1(2) q(1) by simp
    have "entry ?a k j = (if k = 1 \<and> j = q then base + (2 + q) * 4096 + 3 else entry a1 k j)" if "j < 512" for k j
      using arena_okD(2) [OF ok] a1(2) q that by (intro entry_set_entry [of _ _ "2 + pd + pt"]) auto
    then have "entry ?a k j = (if k = 1 \<and> j < Suc q then base + (2 + j) * 4096 + 3 else entry a k j)" if "j < 512" for k j
      using a1(3) that by (auto simp: less_Suc_eq)
    moreover have "length ?a = length a" using arena_okD(2) [OF ok] a1(2) q(1) by (subst length_set_entry [of _ _ "2 + pd + pt"]) auto
    ultimately show ?case
      using a1(1) w f by (intro exI [of _ ?a]) (simp add: for_list_append)
  qed
  then show ?thesis by blast
qed

lemma take_page_eq: "base + (k + 1) * 4096 \<le> U64_MAX \<Longrightarrow> take_page base k = Some (base + k * 4096, k + 1)"
  by (simp add: take_page_def umul_def uadd_def PAGE_SIZE_def)

lemma index_tables: "b < n \<Longrightarrow> index (map f [0..<n] @ xs) b = Some (f b)"
  by (simp add: index_def nth_append)

lemma card_blocks_of: "pd \<le> 512 \<Longrightarrow> 2097152 * card (blocks_of m pd pt limit) \<le> 2 ^ 60"
proof -
  assume "pd \<le> 512"
  moreover have "card (blocks_of m pd pt limit) \<le> card {..<pd * 512}" by (rule card_mono) (auto simp: blocks_of_def)
  ultimately show ?thesis by simp
qed

lemma identity_entries:
  assumes e2: "\<And>k j. k < 2 + pd + pt \<Longrightarrow> j < 512 \<Longrightarrow>
      E2 k j = (if k = 0 \<and> j = 0 then base + 4096 + 3 else if k = 1 \<and> j < pd then base + (2 + j) * 4096 + 3 else 0)"
    and e3: "\<forall>i j. i < pd \<longrightarrow> j < 512 \<longrightarrow> i * 512 + j < pt \<or> block_mapped m pt limit (i * 512 + j) \<longrightarrow>
       E3 (2 + i) j = identity_entry base m pd pt limit f (2 + i) j"
    "\<forall>k j. j < 512 \<longrightarrow> \<not> (2 \<le> k \<and> k < 2 + pd \<and> ((k - 2) * 512 + j < pt \<or> block_mapped m pt limit ((k - 2) * 512 + j))) \<longrightarrow>
       E3 k j = E2 k j"
    and e4: "\<forall>i j. i < pt \<longrightarrow> j < 512 \<longrightarrow> page_mapped m f (i * 512 + j) \<longrightarrow>
       E (2 + pd + i) j = identity_entry base m pd pt limit f (2 + pd + i) j"
    "\<forall>k j. j < 512 \<longrightarrow> \<not> (2 + pd \<le> k \<and> k < 2 + pd + pt \<and> page_mapped m f ((k - 2 - pd) * 512 + j)) \<longrightarrow> E k j = E3 k j"
    and k: "k < 2 + pd + pt" and j: "j < 512"
  shows "E k j = identity_entry base m pd pt limit f k j"
proof -
  consider "k < 2" | i where "k = 2 + i" "i < pd" | i where "k = 2 + pd + i" "i < pt"
    using k by (metis add_diff_inverse_nat add_less_cancel_left group_cancel.add1 not_less)
  then show ?thesis
  proof cases
    case 1
    then have "E k j = E2 k j" using e3(2) e4(2) j by simp
    then show ?thesis using e2 [OF k j] 1 by (auto simp: identity_entry_def less_2_cases_iff)
  next
    case (2 i)
    then have e: "E k j = E3 k j" using e4(2) j by simp
    show ?thesis
    proof (cases "i * 512 + j < pt \<or> block_mapped m pt limit (i * 512 + j)")
      case True
      then have "E3 (2 + i) j = identity_entry base m pd pt limit f (2 + i) j" using e3(1) 2(2) j by blast
      then show ?thesis using e 2(1) by simp
    next
      case False
      then have "E k j = E2 k j" using e e3(2) 2 j by simp
      then show ?thesis using e2 [OF k j] 2 False by (auto simp: identity_entry_def block_mapped_def Let_def)
    qed
  next
    case (3 i)
    show ?thesis
    proof (cases "page_mapped m f (i * 512 + j)")
      case True
      then show ?thesis using e4(1) 3 j by simp
    next
      case False
      then have "E k j = E2 k j" using e4(2) e3(2) 3 j by simp
      then show ?thesis using e2 [OF k j] 3 False by (auto simp: identity_entry_def page_mapped_def Let_def)
    qed
  qed
qed

lemma fill_tables_eq:
  assumes ok: "arena_ok base (length a) (2 + pd + pt)" and wf: "map_wf m" and n: "pd \<le> 512" "pt \<le> 512"
    and zero: "\<And>k j. k < 2 + pd + pt \<Longrightarrow> j < 512 \<Longrightarrow> entry a k j = 0"
    and f: "f = min (fine_grained_bytes config) limit"
    and nb: "nb = card (blocks_of m pd pt limit)" and np: "np = card (pages_of m pt f)"
  shows "\<exists>a'. fill_tables base a m config pd pt tables limit = Some (a', \<lparr> pml4_phys = base, pt_limit = limit,
      pt_mapped_bytes = 2097152 * nb + 4096 * np, pt_blocks = nb, pt_pages = np, pt_tables_used = tables \<rparr>) \<and>
    length a' = length a \<and> (\<forall>k j. k < 2 + pd + pt \<longrightarrow> j < 512 \<longrightarrow> entry a' k j = identity_entry base m pd pt limit f k j)"
proof -
  note A = arena_okD [OF ok]
  have t: "take_page base 0 = Some (base, 1)" "take_page base 1 = Some (base + 4096, 2)"
    using take_page_eq [of base 0] take_page_eq [of base 1] A(6) [of 1] A(6) [of 2] by simp_all
  have tt: "take_tables base pd 2 = Some (map (\<lambda>i. base + (2 + i) * 4096) [0..<pd] @ replicate (512 - pd) 0, 2 + pd)"
    "take_tables base pt (2 + pd) = Some (map (\<lambda>i. base + (2 + pd + i) * 4096) [0..<pt] @ replicate (512 - pt) 0, 2 + pd + pt)"
    using A(6) [of "2 + pd"] A(6) [of "2 + pd + pt"] n by (intro take_tables_eq; simp)+
  have p4: "base + 4096 OR PRESENT OR WRITABLE = base + 4096 + 3" using A(1) by (intro or_flags) simp
  let ?a1 = "set_entry a 0 0 (base + 4096 + 3)"
  have w: "write_entry base a base 0 v = Some (set_entry a 0 0 v)" for v
    using write_entry_eq [of 0 0 "2 + pd + pt" a base v] A(2,3) by simp
  have l1: "length ?a1 = length a" using A(2) by (subst length_set_entry [of _ _ "2 + pd + pt"]) auto
  have v0: "base + 4096 + 3 \<le> U64_MAX" using A(4) [of 1] by (simp add: U64_MAX_def)
  have e1: "entry ?a1 k j = (if k = 0 \<and> j = 0 then base + 4096 + 3 else entry a k j)" if "j < 512" for k j
    using that A(2) v0 by (intro entry_set_entry [of _ _ "2 + pd + pt"]) auto
  obtain a2 where a2: "for_list (map (\<lambda>i. (i, base + (2 + i) * 4096)) [0..<pd])
      (\<lambda>(i, pd) a. write_entry base a (base + 4096) i (pd OR PRESENT OR WRITABLE)) ?a1 = Some a2" "length a2 = length a"
    "\<forall>k j. j < 512 \<longrightarrow> entry a2 k j = (if k = 1 \<and> j < pd then base + (2 + j) * 4096 + 3 else entry ?a1 k j)"
    using pdpt_loop [of base ?a1 pd pt] ok n l1 by auto
  let ?pts = "map (\<lambda>i. base + (2 + pd + i) * 4096) [0..<pt] @ replicate (512 - pt) 0"
  obtain a3 where a3: "for_list (map (\<lambda>i. (i, base + (2 + i) * 4096)) [0..<pd])
      (\<lambda>ipd. for_list [0..<512] (fill_pd_slot base m ?pts pt limit ipd)) (a2, 0, 0) = Some (a3, 2097152 * nb, nb)" "length a3 = length a"
    "\<forall>i j. i < pd \<longrightarrow> j < 512 \<longrightarrow> i * 512 + j < pt \<or> block_mapped m pt limit (i * 512 + j) \<longrightarrow>
       entry a3 (2 + i) j = identity_entry base m pd pt limit f (2 + i) j"
    "\<forall>k j. j < 512 \<longrightarrow> \<not> (2 \<le> k \<and> k < 2 + pd \<and> ((k - 2) * 512 + j < pt \<or> block_mapped m pt limit ((k - 2) * 512 + j))) \<longrightarrow>
       entry a3 k j = entry a2 k j"
    using pd_loop [of base a2 pd pt m ?pts limit f] ok wf n a2(2) nb index_tables [of _ pt "\<lambda>i. base + (2 + pd + i) * 4096"] by auto
  have "2097152 * nb \<le> 2 ^ 60" using card_blocks_of [OF n(1)] nb by simp
  then obtain a4 where a4: "for_list (map (\<lambda>i. (i, base + (2 + pd + i) * 4096)) [0..<pt])
      (\<lambda>ipt. for_list [0..<512] (fill_pt_slot base m f ipt)) (a3, 2097152 * nb, 0) = Some (a4, 2097152 * nb + 4096 * np, np)" "length a4 = length a"
    "\<forall>i j. i < pt \<longrightarrow> j < 512 \<longrightarrow> page_mapped m f (i * 512 + j) \<longrightarrow>
       entry a4 (2 + pd + i) j = identity_entry base m pd pt limit f (2 + pd + i) j"
    "\<forall>k j. j < 512 \<longrightarrow> \<not> (2 + pd \<le> k \<and> k < 2 + pd + pt \<and> page_mapped m f ((k - 2 - pd) * 512 + j)) \<longrightarrow> entry a4 k j = entry a3 k j"
    using pt_loop [of base a3 pd pt m "2097152 * nb" f limit] ok wf n a3(2) np by auto
  have run: "fill_tables base a m config pd pt tables limit = Some (a4, \<lparr> pml4_phys = base, pt_limit = limit,
      pt_mapped_bytes = 2097152 * nb + 4096 * np, pt_blocks = nb, pt_pages = np, pt_tables_used = tables \<rparr>)"
    using a2(1) a3(1) a4(1) t tt n
    by (simp add: fill_tables_def w p4 enumerate_tables PD_ENTRIES_def PT_ENTRIES_def f [symmetric] Let_def)
  have "entry a4 k j = identity_entry base m pd pt limit f k j" if k: "k < 2 + pd + pt" and j: "j < 512" for k j
  proof (rule identity_entries [OF _ a3(3,4) a4(3,4) k j])
    show "entry a2 k j = (if k = 0 \<and> j = 0 then base + 4096 + 3 else if k = 1 \<and> j < pd then base + (2 + j) * 4096 + 3 else 0)"
      if "k < 2 + pd + pt" "j < 512" for k j
      using a2(3) e1 zero that by simp
  qed
  then show ?thesis using run a4(2) by blast
qed

section \<open>Walking the tables\<close>

text \<open>The addresses the configuration maps: by 4 KiB pages below the fine-grained bound, by 2 MiB blocks above it.\<close>

definition identity_mapped :: "MemoryMap \<Rightarrow> nat \<Rightarrow> nat \<Rightarrow> nat \<Rightarrow> nat \<Rightarrow> bool" where
  "identity_mapped m pt limit fine va \<longleftrightarrow>
     (if va div 2097152 < pt then page_mapped m fine (va div 4096) else block_mapped m pt limit (va div 2097152))"

lemma va_split: "va < 2 ^ 39 \<Longrightarrow> va div 2 ^ 30 * 512 + va div 2 ^ 21 mod 512 = va div 2 ^ 21" for va :: nat
proof -
  have "va div 2 ^ 30 = va div 2 ^ 21 div 512" by (simp add: div_mult2_eq [symmetric])
  then show ?thesis by simp
qed

lemma identity_entry_pt:
  "b < pt \<Longrightarrow> identity_entry base m pd pt limit fine (2 + pd + b) j =
    (if page_mapped m fine (b * 512 + j) then (b * 512 + j) * 4096 + 3 else 0)"
  by (simp add: identity_entry_def page_mapped_def Let_def)

lemma identity_entry_pd:
  "i < pd \<Longrightarrow> identity_entry base m pd pt limit fine (2 + i) j = (if i * 512 + j < pt then base + (2 + pd + (i * 512 + j)) * 4096 + 3
    else if block_mapped m pt limit (i * 512 + j) then (i * 512 + j) * 2097152 + 131 else 0)"
  by (simp add: identity_entry_def block_mapped_def Let_def)

lemma walk_identity:
  assumes ok: "arena_ok base len (2 + pd + pt)" and n: "pd \<le> 512" "pt \<le> 512" "pt \<le> pd * 512" "limit \<le> pd * 1073741824"
    and E: "\<And>k j. k < 2 + pd + pt \<Longrightarrow> j < 512 \<Longrightarrow> E k j = identity_entry base m pd pt limit fine k j"
    and va: "va < 2 ^ 48"
  shows "walk E base 0 va = (if identity_mapped m pt limit fine va then Some \<lparr> phys = va, may_write = True, may_user = False \<rparr> else None)"
proof -
  note A = arena_okD [OF ok]
  define i b p where "i = va div 2 ^ 30" and "b = va div 2097152" and "p = va div 4096"
  have tp: "table_page base (base + k * 4096 + 3) = k" if "k < 2 + pd + pt" for k
    using A(1) A(5) [OF that] by (intro table_page_entry) auto
  have fl: "present (base + k * 4096 + 3)" "writable (base + k * 4096 + 3)" "\<not> user_ok (base + k * 4096 + 3)" "\<not> large (base + k * 4096 + 3)" for k
    using A(1) by (intro flag_bits; simp)+
  have n0: "0 < 2 + pd + pt" "1 < 2 + pd + pt" by simp_all
  have e4: "E 0 (va div 2 ^ 39 mod 512) = (if va < 2 ^ 39 then base + 1 * 4096 + 3 else 0)"
  proof -
    have "va div 2 ^ 39 < 512" using va by (simp add: less_mult_imp_div_less)
    moreover have "va div 2 ^ 39 = 0 \<longleftrightarrow> va < 2 ^ 39" by (simp add: div_eq_0_iff)
    ultimately show ?thesis using E [OF n0(1), of "va div 2 ^ 39 mod 512"] by (simp add: identity_entry_def)
  qed
  have e3: "E 1 (va div 2 ^ 30 mod 512) = (if i < pd then base + (2 + i) * 4096 + 3 else 0)" if "va < 2 ^ 39"
  proof -
    have "i < 512" using that by (simp add: i_def less_mult_imp_div_less)
    then have im: "va div 2 ^ 30 mod 512 = i" by (simp add: i_def)
    show ?thesis unfolding im using E [OF n0(2) \<open>i < 512\<close>] by (simp add: identity_entry_def)
  qed
  show ?thesis
  proof (cases "va < 2 ^ 39 \<and> i < pd")
    case False
    have "pd * 1073741824 \<le> va" using False n(1) by (auto simp: i_def not_less le_div_geq less_eq_div_iff_mult_less_eq)
    then have d: "pd * 512 \<le> va div 2097152" by auto
    then have "limit \<le> va div 2097152 * 2097152" using mult_le_mono1 [OF d, of 2097152] n(4) by simp
    then have "\<not> identity_mapped m pt limit fine va" using n(3) d by (auto simp: identity_mapped_def block_mapped_def)
    moreover have "walk E base 0 va = None"
      using False e4 e3 tp [OF n0(2)] fl [of 1] unfolding walk_def Let_def by (cases "va < 2 ^ 39") simp_all
    ultimately show ?thesis by simp
  next
    case True
    have k: "2 + i < 2 + pd + pt" "i * 512 + va div 2 ^ 21 mod 512 = b" using True va_split [of va] by (simp_all add: i_def b_def)
    have e2: "E (2 + i) (va div 2 ^ 21 mod 512) = (if b < pt then base + (2 + pd + b) * 4096 + 3
        else if block_mapped m pt limit b then b * 2097152 + 131 else 0)"
      using E [OF k(1), of "va div 2 ^ 21 mod 512"] unfolding identity_entry_pd [OF conjunct2 [OF True]] k(2) by (simp del: add_2_eq_Suc)
    have up: "walk E base 0 va = (let e2 = E (2 + i) (va div 2 ^ 21 mod 512) in if \<not> present e2 then None
      else if large e2 then Some \<lparr> phys = (e2 AND ADDRESS_MASK) + va mod 2 ^ 21, may_write = writable e2, may_user = False \<rparr>
      else let e1 = E (table_page base e2) (va div 2 ^ 12 mod 512) in if \<not> present e1 then None
      else Some \<lparr> phys = (e1 AND ADDRESS_MASK) + va mod 2 ^ 12, may_write = (writable e2 \<and> writable e1), may_user = False \<rparr>)"
      using True e4 e3 tp [OF n0(2)] tp [OF k(1)] fl [of 1] fl [of "2 + i"] unfolding walk_def Let_def by simp
    show ?thesis
    proof (cases "b < pt")
      case fine: True
      have "va div 2097152 = va div 4096 div 512" by (simp add: div_mult2_eq [symmetric])
      then have kp: "2 + pd + b < 2 + pd + pt" "b * 512 + va div 2 ^ 12 mod 512 = p" using fine by (simp_all add: b_def p_def)
      have e1: "E (2 + pd + b) (va div 2 ^ 12 mod 512) = (if page_mapped m fine p then p * 4096 + 3 else 0)"
        using E [OF kp(1), of "va div 2 ^ 12 mod 512"] unfolding identity_entry_pt [OF fine] kp(2) by simp
      have ph: "(p * 4096 + 3) AND ADDRESS_MASK = p * 4096" using va by (intro address_of_entry) (auto simp: p_def)
      show ?thesis
        using fine e2 e1 tp [OF kp(1)] fl [of "2 + pd + b"] flag_bits(1,2) [of "p * 4096"] ph
        unfolding up identity_mapped_def Let_def b_def [symmetric] p_def [symmetric] by (simp add: p_def)
    next
      case large: False
      have ph: "(b * 2097152 + 131) AND ADDRESS_MASK = b * 2097152" using va
        by (intro address_of_entry) (auto simp: b_def intro: dvd_mult)
      show ?thesis
        using large e2 flag_bits(9,10,12) [of "b * 2097152"] ph
        unfolding up identity_mapped_def Let_def b_def [symmetric] by (simp add: b_def dvd_mult)
    qed
  qed
qed

section \<open>The construction as a whole\<close>

definition pds_of :: "PagingConfig \<Rightarrow> nat" where "pds_of c = div_ceil (max_identity_bytes c) 1073741824"
definition pts_of :: "PagingConfig \<Rightarrow> nat" where "pts_of c = div_ceil (fine_grained_bytes c) 2097152"

lemma div_ceil_le: "a \<le> n * b \<Longrightarrow> div_ceil a b \<le> n" for a b n :: nat
proof (cases "b = 0")
  case False
  assume "a \<le> n * b"
  then have "div_ceil a b * b < n * b + b" using div_ceil_bounds(2) [of b a] False by simp
  then have "div_ceil a b * b < Suc n * b" by simp
  then show "div_ceil a b \<le> n" by (simp only: mult_less_cancel2) simp
qed (simp add: div_ceil_def)

lemma config_bounds:
  assumes "max_identity_bytes c \<le> MAX_IDENTITY_SUPPORTED" "fine_grained_bytes c \<le> MAX_FINE_GRAINED_SUPPORTED"
  shows "pds_of c \<le> 512" "pts_of c \<le> 512" "max_identity_bytes c \<le> pds_of c * 1073741824"
    "0 < max_identity_bytes c \<Longrightarrow> 0 < pds_of c" "0 < max_identity_bytes c \<Longrightarrow> div_ceil (max_identity_bytes c) 549755813888 = 1"
proof -
  show "pds_of c \<le> 512" "pts_of c \<le> 512" using assms unfolding pds_of_def pts_of_def by (intro div_ceil_le; simp add: rust_consts)+
  show b: "max_identity_bytes c \<le> pds_of c * 1073741824" unfolding pds_of_def by (rule div_ceil_bounds) simp
  show "0 < pds_of c" if "0 < max_identity_bytes c" using b that by (cases "pds_of c") auto
  show "div_ceil (max_identity_bytes c) 549755813888 = 1" if "0 < max_identity_bytes c"
  proof -
    have "div_ceil (max_identity_bytes c) 549755813888 \<le> 1" using assms(1) by (intro div_ceil_le) (simp add: rust_consts)
    moreover have "max_identity_bytes c \<le> div_ceil (max_identity_bytes c) 549755813888 * 549755813888" by (rule div_ceil_bounds) simp
    ultimately show ?thesis using that by (cases "div_ceil (max_identity_bytes c) 549755813888") auto
  qed
qed

definition table_pages :: "PagingConfig \<Rightarrow> nat" where
  "table_pages c = 1 + div_ceil (max_identity_bytes c) 549755813888 + pds_of c + pts_of c"

lemma tables_needed_eq:
  assumes "max_identity_bytes c \<le> MAX_IDENTITY_SUPPORTED" "fine_grained_bytes c \<le> MAX_FINE_GRAINED_SUPPORTED"
  shows "tables_needed (max_identity_bytes c) (fine_grained_bytes c) = Some (table_pages c)" "table_pages c \<le> 1026"
proof -
  have "div_ceil (max_identity_bytes c) 549755813888 \<le> 1" using assms(1) by (intro div_ceil_le) (simp add: rust_consts)
  then show "table_pages c \<le> 1026" using config_bounds(1,2) [OF assms] by (simp add: table_pages_def)
  then show "tables_needed (max_identity_bytes c) (fine_grained_bytes c) = Some (table_pages c)"
    by (simp add: tables_needed_def table_pages_def pds_of_def pts_of_def uadd_def PD_COVERAGE_def PDPT_COVERAGE_def BLOCK_SIZE_def U64_MAX_def)
qed

lemma entry_cleared: "k < n \<Longrightarrow> j < 512 \<Longrightarrow> n * 4096 \<le> length a \<Longrightarrow> entry (put a 0 (replicate (n * 4096) 0)) k j = 0"
proof -
  assume *: "k < n" "j < 512" "n * 4096 \<le> length a"
  have "k * 4096 + j * 8 + 8 \<le> n * 4096" using * by linarith
  then have "sub (put a 0 (replicate (n * 4096) 0)) (k * 4096 + j * 8) 8 = replicate 8 0"
    using * by (subst sub_put_inside) (auto simp: sub_def)
  then show ?thesis by (simp add: entry_def eval_nat_numeral)
qed

text \<open>The outcome of \<open>build\<close> when nothing is wrong with its arguments.\<close>

definition build_limit :: "nat \<Rightarrow> PagingConfig \<Rightarrow> nat" where "build_limit t c = min t (max_identity_bytes c)"
definition build_fine :: "nat \<Rightarrow> PagingConfig \<Rightarrow> nat" where "build_fine t c = min (fine_grained_bytes c) (build_limit t c)"

lemma build_ok:
  assumes ok: "arena_ok base (length a) (table_pages c)" and wf: "map_wf m" and top: "ram_top m = Some (Some t)" "0 < build_limit t c"
    and cfg: "max_identity_bytes c \<le> MAX_IDENTITY_SUPPORTED" "fine_grained_bytes c \<le> MAX_FINE_GRAINED_SUPPORTED"
    and nb: "nb = card (blocks_of m (pds_of c) (pts_of c) (build_limit t c))" and np: "np = card (pages_of m (pts_of c) (build_fine t c))"
  shows "\<exists>a'. build base a m c = Some (a', Inr \<lparr> pml4_phys = base, pt_limit = build_limit t c,
      pt_mapped_bytes = 2097152 * nb + 4096 * np, pt_blocks = nb, pt_pages = np, pt_tables_used = table_pages c \<rparr>) \<and> length a' = length a \<and>
    (\<forall>k j. k < table_pages c \<longrightarrow> j < 512 \<longrightarrow>
       entry a' k j = identity_entry base m (pds_of c) (pts_of c) (build_limit t c) (build_fine t c) k j)"
proof -
  note B = config_bounds [OF cfg] and T = tables_needed_eq [OF cfg]
  have pos: "0 < max_identity_bytes c" using top(2) by (simp add: build_limit_def)
  have tp: "table_pages c = 2 + pds_of c + pts_of c" using B(5) [OF pos] by (simp add: table_pages_def)
  have len: "table_pages c * 4096 \<le> length a" using ok by (simp add: arena_ok_def)
  let ?a = "put a 0 (replicate (table_pages c * 4096) 0)"
  have l: "length ?a = length a" using len by simp
  obtain a' where a': "fill_tables base ?a m c (pds_of c) (pts_of c) (table_pages c) (build_limit t c) = Some (a', \<lparr> pml4_phys = base,
      pt_limit = build_limit t c, pt_mapped_bytes = 2097152 * nb + 4096 * np, pt_blocks = nb, pt_pages = np, pt_tables_used = table_pages c \<rparr>)"
    "length a' = length a"
    "\<forall>k j. k < table_pages c \<longrightarrow> j < 512 \<longrightarrow> entry a' k j = identity_entry base m (pds_of c) (pts_of c) (build_limit t c) (build_fine t c) k j"
    using fill_tables_eq [of base ?a "pds_of c" "pts_of c" m "build_fine t c" c "build_limit t c" nb np "table_pages c"]
      ok wf B(1,2) entry_cleared [OF _ _ len] nb np l tp by (auto simp: build_fine_def)
  have "build base a m c = Some (a', Inr \<lparr> pml4_phys = base, pt_limit = build_limit t c,
      pt_mapped_bytes = 2097152 * nb + 4096 * np, pt_blocks = nb, pt_pages = np, pt_tables_used = table_pages c \<rparr>)"
    using a'(1) T top len cfg ok
    by (simp add: build_def is_multiple_of_def arena_ok_def umul_def U64_MAX_def copy_into_def pds_of_def pts_of_def build_limit_def
        PD_COVERAGE_def BLOCK_SIZE_def PAGE_SIZE_def dvd_imp_mod_0 Let_def)
  then show ?thesis using a'(2,3) by blast
qed

lemma ram_top_wf:
  assumes "map_wf m"
  shows "ram_top m = Some (let E = region_stop ` {r \<in> set (regions_of m). is_ram (region_kind r)} in if E = {} then None else Some (Max E))"
  using assms map_wf_stop [OF assms] by (simp add: ram_top_def map_wf_regions ram_top_loop_eq)

lemma build_cases:
  assumes wf: "map_wf m" and len: "length a \<le> ISIZE_MAX" "base + length a \<le> 2 ^ 52"
  obtains (misaligned) "build base a m c = Some (a, Inl (ArenaMisaligned base))" "\<not> 4096 dvd base"
  | (config) "build base a m c = Some (a, Inl (ConfigTooLarge (max_identity_bytes c) MAX_IDENTITY_SUPPORTED))" "MAX_IDENTITY_SUPPORTED < max_identity_bytes c"
  | (fine) "build base a m c = Some (a, Inl (FineGrainedTooLarge (fine_grained_bytes c) MAX_FINE_GRAINED_SUPPORTED))"
      "MAX_FINE_GRAINED_SUPPORTED < fine_grained_bytes c"
  | (small) "build base a m c = Some (a, Inl (ArenaTooSmall (table_pages c * 4096) (length a)))" "length a < table_pages c * 4096"
  | (no_ram) "build base a m c = Some (a, Inl NoUsableRam)" "case ram_top m of Some (Some t) \<Rightarrow> build_limit t c = 0 | _ \<Rightarrow> True"
  | (ok) t where "arena_ok base (length a) (table_pages c)" "ram_top m = Some (Some t)" "0 < build_limit t c"
      "max_identity_bytes c \<le> MAX_IDENTITY_SUPPORTED" "fine_grained_bytes c \<le> MAX_FINE_GRAINED_SUPPORTED"
proof -
  have start: "build base a m c =
     (if \<not> 4096 dvd base then Some (a, Inl (ArenaMisaligned base))
      else if MAX_IDENTITY_SUPPORTED < max_identity_bytes c then Some (a, Inl (ConfigTooLarge (max_identity_bytes c) MAX_IDENTITY_SUPPORTED))
      else if MAX_FINE_GRAINED_SUPPORTED < fine_grained_bytes c
      then Some (a, Inl (FineGrainedTooLarge (fine_grained_bytes c) MAX_FINE_GRAINED_SUPPORTED))
      else if length a < table_pages c * 4096 then Some (a, Inl (ArenaTooSmall (table_pages c * 4096) (length a)))
      else build base a m c)"
    using tables_needed_eq [of c]
    by (cases "max_identity_bytes c \<le> MAX_IDENTITY_SUPPORTED"; cases "fine_grained_bytes c \<le> MAX_FINE_GRAINED_SUPPORTED")
      (simp_all add: build_def is_multiple_of_def dvd_eq_mod_eq_0 umul_def PAGE_SIZE_def U64_MAX_def Let_def not_less)
  show thesis
  proof (cases "4096 dvd base \<and> max_identity_bytes c \<le> MAX_IDENTITY_SUPPORTED \<and> fine_grained_bytes c \<le> MAX_FINE_GRAINED_SUPPORTED \<and>
      table_pages c * 4096 \<le> length a")
    case False
    then show thesis using start misaligned config fine small by (auto split: if_splits)
  next
    case True
    then have ok': "arena_ok base (length a) (table_pages c)" using len by (simp add: arena_ok_def)
    obtain r where r: "ram_top m = Some r" using ram_top_wf [OF wf] by simp
    show thesis
    proof (cases "\<exists>t. r = Some t \<and> 0 < build_limit t c")
      case yes: True
      then show thesis using ok [OF ok'] r True by blast
    next
      case no: False
      then have "build base a m c = Some (a, Inl NoUsableRam)"
        using True r tables_needed_eq [of c]
        by (cases r) (auto simp: build_def is_multiple_of_def dvd_eq_mod_eq_0 umul_def PAGE_SIZE_def U64_MAX_def build_limit_def Let_def)
      then show thesis using no r by (intro no_ram) (auto split: option.splits)
    qed
  qed
qed

lemma unit_count:
  fixes n :: nat
  assumes "finite B" "0 < n"
  shows "card ((\<lambda>(b, i). b * n + i) ` (B \<times> {..<n})) = n * card B"
proof -
  have "inj_on (\<lambda>(b, i). b * n + i) (B \<times> {..<n})"
  proof (rule inj_onI, clarify)
    fix b i b' i' assume i: "i < n" "i' < n" and eq: "b * n + i = b' * n + i'"
    have "(b * n + i) div n = b" "(b' * n + i') div n = b'" using i by simp_all
    then have "b = b'" using eq by simp
    then show "b = b' \<and> i = i'" using eq by simp
  qed
  then show ?thesis using assms by (simp add: card_image card_cartesian_product)
qed

lemma card_identity_mapped:
  assumes "pd \<le> 512" "limit \<le> pd * 1073741824" "pt \<le> pd * 512"
  shows "card {va. va < 2 ^ 48 \<and> identity_mapped m pt limit fine va} =
    2097152 * card (blocks_of m pd pt limit) + 4096 * card (pages_of m pt fine)"
proof -
  let ?B = "(\<lambda>(b, i). b * 2097152 + i) ` (blocks_of m pd pt limit \<times> {..<2097152})"
  let ?P = "(\<lambda>(p, i). p * 4096 + i) ` (pages_of m pt fine \<times> {..<4096})"
  have fin: "finite (blocks_of m pd pt limit)" "finite (pages_of m pt fine)" by (auto simp: blocks_of_def pages_of_def)
  have B: "va \<in> ?B \<longleftrightarrow> pt \<le> va div 2097152 \<and> identity_mapped m pt limit fine va" for va
  proof
    assume "pt \<le> va div 2097152 \<and> identity_mapped m pt limit fine va"
    then have b: "block_mapped m pt limit (va div 2097152)" by (simp add: identity_mapped_def)
    then have "va div 2097152 * 2097152 < pd * 1073741824" using assms(2) by (simp add: block_mapped_def)
    then have "va div 2097152 \<in> blocks_of m pd pt limit" using b by (simp add: blocks_of_def)
    then show "va \<in> ?B" by (intro image_eqI [of _ _ "(va div 2097152, va mod 2097152)"]) auto
  qed (auto simp: blocks_of_def identity_mapped_def block_mapped_def)
  have P: "va \<in> ?P \<longleftrightarrow> va div 2097152 < pt \<and> identity_mapped m pt limit fine va" for va
  proof
    have d: "va div 2097152 = va div 4096 div 512" by (simp add: div_mult2_eq [symmetric])
    assume *: "va div 2097152 < pt \<and> identity_mapped m pt limit fine va"
    then have "va div 4096 < pt * 512" unfolding d by (simp add: div_less_iff_less_mult)
    then have "va div 4096 \<in> pages_of m pt fine" using * by (simp add: pages_of_def identity_mapped_def)
    then show "va \<in> ?P" by (intro image_eqI [of _ _ "(va div 4096, va mod 4096)"]) auto
  next
    assume "va \<in> ?P"
    then obtain p i where p: "va = p * 4096 + i" "i < 4096" "p < pt * 512" "page_mapped m fine p" by (auto simp: pages_of_def)
    then have "va div 2097152 < pt" by (simp add: div_less_iff_less_mult)
    then show "va div 2097152 < pt \<and> identity_mapped m pt limit fine va" using p by (simp add: identity_mapped_def)
  qed
  have small: "va < 2 ^ 48" if "va \<in> ?B \<or> va \<in> ?P" for va
    using that assms by (auto simp: blocks_of_def pages_of_def)
  have "{va. va < 2 ^ 48 \<and> identity_mapped m pt limit fine va} = ?B \<union> ?P"
  proof (rule set_eqI)
    fix va
    show "va \<in> {va. va < 2 ^ 48 \<and> identity_mapped m pt limit fine va} \<longleftrightarrow> va \<in> ?B \<union> ?P"
      using B [of va] P [of va] small [of va] unfolding mem_Collect_eq Un_iff by (metis not_less)
  qed
  moreover have "?B \<inter> ?P = {}" unfolding disjoint_iff using B P by (metis not_less)
  ultimately show ?thesis
    using fin by (simp add: card_Un_disjoint unit_count)
qed

lemma build_summary:
  assumes wf: "map_wf m" and len: "length a \<le> ISIZE_MAX" "base + length a \<le> 2 ^ 52" and run: "build base a m c = Some (a', Inr r)"
  shows "\<exists>t. ram_top m = Some (Some t) \<and> pt_limit r = build_limit t c \<and> 0 < pt_limit r \<and> length a' = length a \<and> pml4_phys r = base \<and>
    pt_tables_used r = table_pages c \<and> table_pages c = 2 + pds_of c + pts_of c \<and> arena_ok base (length a) (table_pages c) \<and>
    pds_of c \<le> 512 \<and> pts_of c \<le> 512 \<and> 0 < pds_of c \<and> pt_limit r \<le> pds_of c * 1073741824 \<and>
    pt_mapped_bytes r = 2097152 * pt_blocks r + 4096 * pt_pages r \<and>
    pt_blocks r = card (blocks_of m (pds_of c) (pts_of c) (pt_limit r)) \<and> pt_pages r = card (pages_of m (pts_of c) (build_fine t c)) \<and>
    (\<forall>k j. k < table_pages c \<longrightarrow> j < 512 \<longrightarrow>
       entry a' k j = identity_entry base m (pds_of c) (pts_of c) (pt_limit r) (build_fine t c) k j)"
  using wf len
proof (cases rule: build_cases [where c = c])
  case (ok t)
  note B = config_bounds [OF ok(4,5)]
  have pos: "0 < max_identity_bytes c" using ok(3) by (simp add: build_limit_def)
  then have "build_limit t c \<le> pds_of c * 1073741824" using B(3) by (simp add: build_limit_def min_le_iff_disj)
  moreover have "table_pages c = 2 + pds_of c + pts_of c" using B(5) [OF pos] by (simp add: table_pages_def)
  ultimately show ?thesis
    using build_ok [OF ok(1) wf ok(2-5) refl refl] run ok(1-3) B pos by auto
qed (use run in auto)

section \<open>Properties\<close>

text \<open>
  C19.  The tables that \<open>build\<close> leaves in the arena are an identity map.  A 48-bit address is translated
  exactly when its 4 KiB page (below the fine-grained bound) or its 2 MiB block (above it) is to be
  mapped, always to itself, writable and never for user mode; every other address faults.  The root
  is the first page of the arena, and the byte count of the result is the number of addresses mapped.
\<close>

theorem build_identity_map:
  assumes "map_wf m" "length a \<le> ISIZE_MAX" "base + length a \<le> 2 ^ 52" "build base a m c = Some (a', Inr r)"
  shows "(\<forall>va < 2 ^ 48. walk (entry a') base 0 va =
      (if identity_mapped m (pts_of c) (pt_limit r) (min (fine_grained_bytes c) (pt_limit r)) va
       then Some \<lparr> phys = va, may_write = True, may_user = False \<rparr> else None)) \<and>
    pml4_phys r = base \<and> length a' = length a \<and>
    pt_mapped_bytes r = card {va. va < 2 ^ 48 \<and> walk (entry a') base 0 va \<noteq> None}"
proof -
  obtain t where t: "pt_limit r = build_limit t c" "length a' = length a" "pml4_phys r = base"
    "table_pages c = 2 + pds_of c + pts_of c" "arena_ok base (length a) (table_pages c)" "pds_of c \<le> 512" "pts_of c \<le> 512"
    "0 < pds_of c" "pt_limit r \<le> pds_of c * 1073741824" "pt_mapped_bytes r = 2097152 * pt_blocks r + 4096 * pt_pages r"
    "pt_blocks r = card (blocks_of m (pds_of c) (pts_of c) (pt_limit r))" "pt_pages r = card (pages_of m (pts_of c) (build_fine t c))"
    "\<forall>k j. k < table_pages c \<longrightarrow> j < 512 \<longrightarrow>
       entry a' k j = identity_entry base m (pds_of c) (pts_of c) (pt_limit r) (build_fine t c) k j"
    using build_summary [OF assms] by blast
  have f: "build_fine t c = min (fine_grained_bytes c) (pt_limit r)" using t(1) by (simp add: build_fine_def)
  have pp: "pts_of c \<le> pds_of c * 512" using t(7,8) by (cases "pds_of c") auto
  have w: "walk (entry a') base 0 va = (if identity_mapped m (pts_of c) (pt_limit r) (build_fine t c) va
       then Some \<lparr> phys = va, may_write = True, may_user = False \<rparr> else None)" if "va < 2 ^ 48" for va
    using t(5,13) unfolding t(4) by (intro walk_identity [OF _ t(6,7) pp t(9) _ that]) auto
  then have "{va. va < 2 ^ 48 \<and> walk (entry a') base 0 va \<noteq> None} =
      {va. va < 2 ^ 48 \<and> identity_mapped m (pts_of c) (pt_limit r) (build_fine t c) va}" by (auto split: if_splits)
  then have "pt_mapped_bytes r = card {va. va < 2 ^ 48 \<and> walk (entry a') base 0 va \<noteq> None}"
    using card_identity_mapped [OF t(6) t(9) pp, of m "build_fine t c"] t(10-12) by simp
  then show ?thesis using w t(2,3) unfolding f by blast
qed

text \<open>The arena and the map of the witnesses: seven zero pages at 2 MiB, and RAM from 1 MiB to 17 MiB.\<close>

lemma sample_top: "ram_top sample_map = Some (Some 17825792)"
proof -
  have "{r \<in> set sample_regions. is_ram (region_kind r)} = {\<lparr> region_kind = Conventional, region_base = 1048576, region_pages = 4096 \<rparr>}"
    by (auto simp: sample_regions_def)
  then show ?thesis by (simp add: ram_top_wf [OF sample_map_wf] sample_regions_of region_stop_def PAGE_SIZE_def)
qed

lemma sample_arena: "arena_ok 2097152 (length (replicate 28672 (0 :: u8))) (table_pages PagingConfig_M2)"
  by (simp add: arena_ok_def table_pages_def pds_of_def pts_of_def PagingConfig_M2_def div_ceil_def rust_consts)

lemma sample_build: "\<exists>a' r. build 2097152 (replicate 28672 0) sample_map PagingConfig_M2 = Some (a', Inr r) \<and> pt_limit r = 17825792"
proof -
  have c: "0 < build_limit 17825792 PagingConfig_M2" "max_identity_bytes PagingConfig_M2 \<le> MAX_IDENTITY_SUPPORTED"
    "fine_grained_bytes PagingConfig_M2 \<le> MAX_FINE_GRAINED_SUPPORTED" "build_limit 17825792 PagingConfig_M2 = 17825792"
    by (simp_all add: build_limit_def PagingConfig_M2_def rust_consts)
  show ?thesis using build_ok [OF sample_arena sample_map_wf sample_top c(1-3) refl refl] c(4) by auto
qed

lemma sample_lengths: "length (replicate 28672 (0 :: u8)) \<le> ISIZE_MAX" "2097152 + length (replicate 28672 (0 :: u8)) \<le> 2 ^ 52"
  by (simp_all add: ISIZE_MAX_def)

theorem build_identity_map_witness:
  "\<exists>a' r. build 2097152 (replicate 28672 0) sample_map PagingConfig_M2 = Some (a', Inr r) \<and>
     walk (entry a') 2097152 0 1048586 = Some \<lparr> phys = 1048586, may_write = True, may_user = False \<rparr>"
proof -
  obtain a' r where b: "build 2097152 (replicate 28672 0) sample_map PagingConfig_M2 = Some (a', Inr r)" "pt_limit r = 17825792"
    using sample_build by blast
  have "identity_mapped sample_map (pts_of PagingConfig_M2) (pt_limit r) (min (fine_grained_bytes PagingConfig_M2) (pt_limit r)) 1048586"
    by (simp add: b(2) identity_mapped_def page_mapped_def ram_in_def sample_regions_of pts_of_def PagingConfig_M2_def div_ceil_def
        BLOCK_SIZE_def sample_regions_def region_stop_def PAGE_SIZE_def)
  then show ?thesis
    using build_identity_map [OF sample_map_wf sample_lengths b(1)] b(1) by auto
qed

lemma m2_identity_map:
  assumes "map_wf m" "length a \<le> ISIZE_MAX" "base + length a \<le> 2 ^ 52" "build base a m PagingConfig_M2 = Some (a', Inr r)"
  shows "(\<forall>va < 4096. walk (entry a') base 0 va = None) \<and>
    (\<forall>va. 4096 \<le> va \<and> va < MAX_IDENTITY_BYTES \<and> ram_in m va (va + 1) \<longrightarrow>
      walk (entry a') base 0 va = Some \<lparr> phys = va, may_write = True, may_user = False \<rparr>) \<and>
    (\<forall>va < 2 ^ 48. walk (entry a') base 0 va \<noteq> None \<longrightarrow>
      (let unit = if va < BLOCK_SIZE then PAGE_SIZE else BLOCK_SIZE in ram_in m (va div unit * unit) (va div unit * unit + unit)))"
proof -
  obtain t where t: "ram_top m = Some (Some t)" "pt_limit r = build_limit t PagingConfig_M2"
    "table_pages PagingConfig_M2 = 2 + pds_of PagingConfig_M2 + pts_of PagingConfig_M2" "arena_ok base (length a) (table_pages PagingConfig_M2)"
    "pt_limit r \<le> pds_of PagingConfig_M2 * 1073741824"
    "\<forall>k j. k < table_pages PagingConfig_M2 \<longrightarrow> j < 512 \<longrightarrow>
       entry a' k j = identity_entry base m (pds_of PagingConfig_M2) (pts_of PagingConfig_M2) (pt_limit r) (build_fine t PagingConfig_M2) k j"
    using build_summary [OF assms] by blast
  have c: "pds_of PagingConfig_M2 = 4" "pts_of PagingConfig_M2 = 1" "pt_limit r = min t 4294967296"
    "build_fine t PagingConfig_M2 = min 2097152 (pt_limit r)"
    using t(2) by (simp_all add: pds_of_def pts_of_def PagingConfig_M2_def div_ceil_def build_fine_def build_limit_def rust_consts)
  have w: "walk (entry a') base 0 va = (if identity_mapped m 1 (pt_limit r) (min 2097152 (pt_limit r)) va
       then Some \<lparr> phys = va, may_write = True, may_user = False \<rparr> else None)" if "va < 2 ^ 48" for va
    using t(3-6) that unfolding c(1,2,4) by (intro walk_identity [of base "length a" 4 1]) auto
  have top: "region_stop g \<le> t" if "g \<in> set (regions_of m)" "is_ram (region_kind g)" for g
    using t(1) that unfolding ram_top_wf [OF assms(1)] by (auto simp: Let_def split: if_splits)
  have ram: "identity_mapped m 1 (pt_limit r) (min 2097152 (pt_limit r)) va"
    if va: "4096 \<le> va" "va < 4294967296" "ram_in m va (va + 1)" for va
  proof -
    obtain g where g: "g \<in> set (regions_of m)" "is_ram (region_kind g)" "region_base g < va + 1" "va < region_stop g"
      using va(3) by (auto simp: ram_in_def)
    have lim: "va < pt_limit r" using top [OF g(1,2)] g(4) va(2) c(3) by simp
    have unit: "ram_in m (va div u * u) (va div u * u + u)" if "0 < u" for u
    proof -
      have "va div u * u \<le> va" "va < va div u * u + u" using that by (simp, metis add.commute dividend_less_div_times)
      then show ?thesis using g unfolding ram_in_def by (intro bexI [of _ g]) (auto intro: le_less_trans [OF div_times_less_eq_dividend])
    qed
    have "va div 4096 * 4096 \<le> va" "va div 2097152 * 2097152 \<le> va" "0 < va div 4096" using va(1) by (simp_all add: div_greater_zero_iff)
    then show ?thesis
      using lim unit [of 4096] unit [of 2097152] by (auto simp: identity_mapped_def page_mapped_def block_mapped_def)
  qed
  have only: "4096 \<le> va \<and> (let unit = if va < 2097152 then 4096 else 2097152 in ram_in m (va div unit * unit) (va div unit * unit + unit))"
    if "identity_mapped m 1 (pt_limit r) (min 2097152 (pt_limit r)) va" for va
    using that by (auto simp: identity_mapped_def page_mapped_def block_mapped_def Let_def div_greater_zero_iff split: if_splits)
  show ?thesis
    unfolding MAX_IDENTITY_BYTES_def BLOCK_SIZE_def PAGE_SIZE_def
  proof (intro conjI allI impI)
    show "walk (entry a') base 0 va = None" if "va < 4096" for va
      using w [of va] only [of va] that by (auto split: if_splits)
    show "walk (entry a') base 0 va = Some \<lparr> phys = va, may_write = True, may_user = False \<rparr>"
      if "4096 \<le> va \<and> va < 4294967296 \<and> ram_in m va (va + 1)" for va
      using w [of va] ram [of va] that by simp
    show "let unit = if va < 2097152 then 4096 else 2097152 in ram_in m (va div unit * unit) (va div unit * unit + unit)"
      if "va < 2 ^ 48" "walk (entry a') base 0 va \<noteq> None" for va
      using w [OF that(1)] only [of va] that(2) by (simp split: if_splits)
  qed
qed

text \<open>
  C20.  With the configuration the kernel uses (4 GiB, 4 KiB pages in the first 2 MiB), page 0 is never
  mapped, every other RAM address below the limit is mapped, and whatever is mapped lies in a 4 KiB
  page or, from 2 MiB on, in a 2 MiB block that contains RAM.
\<close>

theorem m2_identity_policy:
  assumes "map_wf m" "length a \<le> ISIZE_MAX" "base + length a \<le> 2 ^ 52" "build base a m PagingConfig_M2 = Some (a', Inr r)"
  shows "(\<forall>va < 4096. walk (entry a') base 0 va = None) \<and>
    (\<forall>va. 4096 \<le> va \<and> va < MAX_IDENTITY_BYTES \<and> ram_in m va (va + 1) \<longrightarrow>
      walk (entry a') base 0 va = Some \<lparr> phys = va, may_write = True, may_user = False \<rparr>) \<and>
    (\<forall>va < 2 ^ 48. walk (entry a') base 0 va \<noteq> None \<longrightarrow>
      (let unit = if va < BLOCK_SIZE then PAGE_SIZE else BLOCK_SIZE in ram_in m (va div unit * unit) (va div unit * unit + unit)))"
  using m2_identity_map [OF assms] .

theorem m2_identity_policy_witness:
  "\<exists>a' r. build 2097152 (replicate 28672 0) sample_map PagingConfig_M2 = Some (a', Inr r) \<and> walk (entry a') 2097152 0 0 = None \<and>
     walk (entry a') 2097152 0 5000000 = Some \<lparr> phys = 5000000, may_write = True, may_user = False \<rparr>"
proof -
  obtain a' r where b: "build 2097152 (replicate 28672 0) sample_map PagingConfig_M2 = Some (a', Inr r)" using sample_build by blast
  have "ram_in sample_map 5000000 (5000000 + 1)"
    by (simp add: ram_in_def sample_regions_of sample_regions_def region_stop_def PAGE_SIZE_def)
  then show ?thesis
    using m2_identity_policy [OF sample_map_wf sample_lengths b] b by (auto simp: MAX_IDENTITY_BYTES_def)
qed



text \<open>The promise that page 0 is never mapped depends on the configuration: without a fine-grained area block 0 is mapped.\<close>

lemma page_zero_mapped_without_fine_area:
  assumes "ram_in m 0 2097152" "0 < limit"
  shows "identity_mapped m 0 limit 0 0"
  using assms by (simp add: identity_mapped_def block_mapped_def)

end
