(* ===== verification/User_Map.thy ===== *)
theory User_Map
  imports Paging
begin

text \<open>
  The user region of \<open>src/crates/kernel-memory/src/user_map.rs\<close>: physical pages mapped at user virtual
  addresses, in new tables behind the kernel's tables in the same arena.

  Tables are named by their offset in the arena; the arena's address is the argument \<open>address\<close>.
\<close>

section \<open>Mappings\<close>

definition USER_BASE :: u64 where [rust_consts]: "USER_BASE = 4294967296"
definition USER_MAX_BYTES :: u64 where [rust_consts]: "USER_MAX_BYTES = PD_ENTRIES * 2 * 1024 * 1024"

record Mapping =
  mp_vaddr :: u64
  mp_paddr :: u64
  mp_size :: u64
  mp_writable :: bool

definition vaddr_end :: "Mapping \<Rightarrow> u64 panics" where
  "vaddr_end x = uadd (mp_vaddr x) (mp_size x)"

record Mapped =
  um_mapped_bytes :: u64
  um_tables_used :: usize

datatype UserMapError =
    UserArenaTooSmall usize usize
  | BelowUserBase u64
  | NotPageAligned u64
  | UserOutOfRange u64
  | AlreadyMapped

section \<open>Operations\<close>

definition clear_page :: "bytes \<Rightarrow> usize \<Rightarrow> bytes panics" where
  "clear_page arena offset = do {
     stop \<leftarrow> uadd offset PAGE_SIZE;
     copy_into arena offset (replicate (stop - offset) 0)
   }"

definition read_entry_at :: "bytes \<Rightarrow> usize \<Rightarrow> usize \<Rightarrow> u64 panics" where
  "read_entry_at arena table_offset i = do {
     d \<leftarrow> umul i 8;
     offset \<leftarrow> uadd table_offset d;
     stop \<leftarrow> uadd offset 8;
     bs \<leftarrow> slice arena offset stop;
     Some (from_le_bytes bs)
   }"

definition write_entry_at :: "bytes \<Rightarrow> usize \<Rightarrow> usize \<Rightarrow> u64 \<Rightarrow> bytes panics" where
  "write_entry_at arena table_offset i v = do {
     d \<leftarrow> umul i 8;
     offset \<leftarrow> uadd table_offset d;
     _ \<leftarrow> uadd offset 8;
     copy_into arena offset (to_le_bytes 8 v)
   }"

definition check_mapping :: "u64 \<Rightarrow> Mapping \<Rightarrow> (UserMapError + unit) panics" where
  "check_mapping user_limit x =
     (if mp_vaddr x < USER_BASE then Some (Inl (BelowUserBase (mp_vaddr x)))
      else do {
        e \<leftarrow> vaddr_end x;
        if e > user_limit then Some (Inl (UserOutOfRange e))
        else if \<not> is_multiple_of (mp_vaddr x) PAGE_SIZE \<or> \<not> is_multiple_of (mp_paddr x) PAGE_SIZE \<or>
          \<not> is_multiple_of (mp_size x) PAGE_SIZE \<or> mp_size x = 0
        then Some (Inl (NotPageAligned (mp_vaddr x)))
        else Some (Inr ())
      })"

fun check_mappings :: "u64 \<Rightarrow> Mapping list \<Rightarrow> (UserMapError + unit) panics" where
  "check_mappings user_limit [] = Some (Inr ())"
| "check_mappings user_limit (x # xs) = do {
     r \<leftarrow> check_mapping user_limit x;
     case r of Inl e \<Rightarrow> Some (Inl e) | Inr _ \<Rightarrow> check_mappings user_limit xs
   }"

definition raise_slot :: "Mapping \<Rightarrow> usize \<Rightarrow> usize panics" where
  "raise_slot x highest_slot = do {
     e \<leftarrow> vaddr_end x;
     d \<leftarrow> usub e USER_BASE;
     d \<leftarrow> usub d 1;
     Some (max highest_slot (d div PAGE_SIZE div PT_ENTRIES))
   }"

definition new_table :: "u64 \<Rightarrow> usize \<Rightarrow> usize \<Rightarrow> usize \<Rightarrow> bytes \<times> usize \<times> usize list \<Rightarrow> (bytes \<times> usize \<times> usize list) panics" where
  "new_table address pd_offset first_page i st = (case st of (arena, next_page, pt_offsets) \<Rightarrow> do {
     table_offset \<leftarrow> umul next_page PAGE_SIZE;
     pt_offsets \<leftarrow> index_set pt_offsets i table_offset;
     arena \<leftarrow> clear_page arena table_offset;
     f \<leftarrow> uadd first_page 1;
     k \<leftarrow> usub next_page f;
     t \<leftarrow> uadd address table_offset;
     arena \<leftarrow> write_entry_at arena pd_offset k (t OR PRESENT OR WRITABLE OR USER);
     next_page \<leftarrow> uadd next_page 1;
     Some (arena, next_page, pt_offsets)
   })"

definition map_page :: "usize list \<Rightarrow> Mapping \<Rightarrow> u64 \<Rightarrow> bytes \<times> u64 \<Rightarrow> (bytes \<times> u64) panics" where
  "map_page pt_offsets x i st = (case st of (arena, mapped_bytes) \<Rightarrow> do {
     d \<leftarrow> umul i PAGE_SIZE;
     vaddr \<leftarrow> uadd (mp_vaddr x) d;
     u \<leftarrow> usub vaddr USER_BASE;
     let page_index = u div PAGE_SIZE;
     let slot = page_index div PT_ENTRIES;
     let entry_index = page_index mod PT_ENTRIES;
     let flags = (if mp_writable x then PRESENT OR USER OR WRITABLE else PRESENT OR USER);
     table \<leftarrow> index pt_offsets slot;
     p \<leftarrow> uadd (mp_paddr x) d;
     arena \<leftarrow> write_entry_at arena table entry_index (p OR flags);
     mapped_bytes \<leftarrow> uadd mapped_bytes PAGE_SIZE;
     Some (arena, mapped_bytes)
   })"

definition fill_user_tables :: "u64 \<Rightarrow> bytes \<Rightarrow> usize \<Rightarrow> usize \<Rightarrow> usize \<Rightarrow> usize \<Rightarrow> usize \<Rightarrow> Mapping list \<Rightarrow> (bytes \<times> Mapped) panics" where
  "fill_user_tables address arena first_free_offset first_page pt_count pdpt pdpt_index mappings = do {
     let pd_offset = first_free_offset;
     arena \<leftarrow> clear_page arena pd_offset;
     t \<leftarrow> uadd address pd_offset;
     arena \<leftarrow> write_entry_at arena pdpt pdpt_index (t OR PRESENT OR WRITABLE OR USER);
     next_page \<leftarrow> uadd first_page 1;
     (arena, next_page, pt_offsets) \<leftarrow>
       for_list [0..<min PD_ENTRIES pt_count] (new_table address pd_offset first_page) (arena, next_page, replicate PD_ENTRIES 0);
     (arena, mapped_bytes) \<leftarrow>
       for_list mappings (\<lambda>x. for_list [0..<mp_size x div PAGE_SIZE] (map_page pt_offsets x)) (arena, 0);
     tables_used \<leftarrow> usub next_page first_page;
     Some (arena, \<lparr> um_mapped_bytes = mapped_bytes, um_tables_used = tables_used \<rparr>)
   }"

definition map_user_region :: "u64 \<Rightarrow> bytes \<Rightarrow> usize \<Rightarrow> usize \<Rightarrow> Mapping list \<Rightarrow> (bytes \<times> (UserMapError + Mapped)) panics" where
  "map_user_region address arena pml4_offset first_free_offset mappings =
     (if \<not> is_multiple_of address PAGE_SIZE then Some (arena, Inl (NotPageAligned address))
      else if \<not> is_multiple_of first_free_offset PAGE_SIZE \<or> \<not> is_multiple_of pml4_offset PAGE_SIZE
      then Some (arena, Inl (NotPageAligned first_free_offset))
      else do {
        let pages = length arena div PAGE_SIZE;
        user_limit \<leftarrow> uadd USER_BASE USER_MAX_BYTES;
        if mappings = [] then Some (arena, Inr \<lparr> um_mapped_bytes = 0, um_tables_used = 0 \<rparr>)
        else do {
          r \<leftarrow> check_mappings user_limit mappings;
          case r of
            Inl e \<Rightarrow> Some (arena, Inl e)
          | Inr _ \<Rightarrow> do {
              pdpt_entry \<leftarrow> read_entry_at arena pml4_offset 0;
              if pdpt_entry AND PRESENT = 0 then Some (arena, Inl (BelowUserBase pml4_offset))
              else do {
                arena \<leftarrow> (if pdpt_entry AND USER = 0 then write_entry_at arena pml4_offset 0 (pdpt_entry OR USER) else Some arena);
                pdpt \<leftarrow> usub (pdpt_entry AND ADDRESS_MASK) address;
                let pdpt_index = and (drop_bit 30 USER_BASE) 511;
                e \<leftarrow> read_entry_at arena pdpt pdpt_index;
                if e AND PRESENT \<noteq> 0 then Some (arena, Inl AlreadyMapped)
                else do {
                  highest_slot \<leftarrow> for_list mappings raise_slot 0;
                  pt_count \<leftarrow> uadd highest_slot 1;
                  let first_page = first_free_offset div PAGE_SIZE;
                  n \<leftarrow> uadd first_page 1;
                  needed \<leftarrow> uadd n pt_count;
                  if pages < needed then Some (arena, Inl (UserArenaTooSmall needed pages))
                  else do {
                    (arena, r) \<leftarrow> fill_user_tables address arena first_free_offset first_page pt_count pdpt pdpt_index mappings;
                    Some (arena, Inr r)
                  }
                }
              }
            }
        }
      })"

section \<open>Entries\<close>

definition cleared :: "bytes \<Rightarrow> nat \<Rightarrow> bytes" where
  "cleared a k = put a (k * 4096) (replicate 4096 0)"

lemma page_inside: "k < n \<Longrightarrow> n * 4096 \<le> len \<Longrightarrow> k * 4096 + 4096 \<le> len" for len :: nat
  by linarith

lemma clear_page_eq:
  assumes "k < n" "n * 4096 \<le> length a" "length a \<le> ISIZE_MAX"
  shows "clear_page a (k * 4096) = Some (cleared a k)"
  using page_inside [OF assms(1,2)] assms(3)
  by (simp add: clear_page_def uadd_def copy_into_def cleared_def PAGE_SIZE_def rust_consts)

lemma length_cleared [simp]: "k < n \<Longrightarrow> n * 4096 \<le> length a \<Longrightarrow> length (cleared a k) = length a"
  using page_inside [of k n "length a"] by (simp add: cleared_def)

lemma entry_cleared_page:
  assumes "k < n" "n * 4096 \<le> length a" "j < 512"
  shows "entry (cleared a k) k' j = (if k' = k then 0 else entry a k' j)"
proof (cases "k' = k")
  case True
  have "sub (cleared a k) (k * 4096 + j * 8) 8 = replicate 8 0"
    using page_inside [OF assms(1,2)] assms(3) unfolding cleared_def by (subst sub_put_inside) (auto simp: sub_def)
  then show ?thesis using True by (simp add: entry_def eval_nat_numeral)
next
  case False
  then have "k' * 4096 + j * 8 + 8 \<le> k * 4096 \<or> k * 4096 + 4096 \<le> k' * 4096 + j * 8"
    using assms(3) by (cases "k' < k") linarith+
  then show ?thesis using False page_inside [OF assms(1,2)] by (simp add: entry_def cleared_def sub_put_disjoint)
qed

lemma write_entry_at_eq:
  assumes "j < 512" "k < n" "n * 4096 \<le> length a" "length a \<le> ISIZE_MAX"
  shows "write_entry_at a (k * 4096) j v = Some (set_entry a k j v)"
proof -
  have "k * 4096 + j * 8 + 8 \<le> length a" using entry_in_page assms by blast
  then show ?thesis
    using assms(4) by (simp add: write_entry_at_def umul_def uadd_def copy_into_def set_entry_def rust_consts)
qed

lemma read_entry_at_eq:
  assumes "j < 512" "k < n" "n * 4096 \<le> length a" "length a \<le> ISIZE_MAX"
  shows "read_entry_at a (k * 4096) j = Some (entry a k j)"
proof -
  have "k * 4096 + j * 8 + 8 \<le> length a" using entry_in_page assms by blast
  then show ?thesis
    using assms(4) by (simp add: read_entry_at_def umul_def uadd_def slice_def entry_def rust_consts)
qed

section \<open>The checks\<close>

definition mapping_ok :: "Mapping \<Rightarrow> bool" where
  "mapping_ok x \<longleftrightarrow> USER_BASE \<le> mp_vaddr x \<and> mp_vaddr x + mp_size x \<le> USER_BASE + USER_MAX_BYTES \<and> 4096 dvd mp_vaddr x \<and>
     4096 dvd mp_paddr x \<and> 4096 dvd mp_size x \<and> 0 < mp_size x"

text \<open>The first defect of a mapping whose end does not overflow.\<close>

definition mapping_fault :: "Mapping \<Rightarrow> UserMapError option" where
  "mapping_fault x =
     (if mp_vaddr x < USER_BASE then Some (BelowUserBase (mp_vaddr x))
      else if USER_BASE + USER_MAX_BYTES < mp_vaddr x + mp_size x then Some (UserOutOfRange (mp_vaddr x + mp_size x))
      else if mapping_ok x then None
      else Some (NotPageAligned (mp_vaddr x)))"

lemma check_mapping_eq:
  assumes "mp_vaddr x + mp_size x \<le> U64_MAX"
  shows "check_mapping (USER_BASE + USER_MAX_BYTES) x = Some (case mapping_fault x of None \<Rightarrow> Inr () | Some e \<Rightarrow> Inl e)"
  using assms
  by (auto simp: check_mapping_def vaddr_end_def uadd_def is_multiple_of_def dvd_eq_mod_eq_0 mapping_fault_def mapping_ok_def PAGE_SIZE_def not_less)

lemma check_mappings_eq:
  assumes "\<forall>x \<in> set xs. mp_vaddr x + mp_size x \<le> U64_MAX"
  shows "check_mappings (USER_BASE + USER_MAX_BYTES) xs = Some (case List.map_filter mapping_fault xs of [] \<Rightarrow> Inr () | e # _ \<Rightarrow> Inl e)"
  using assms by (induction xs) (auto simp: check_mapping_eq map_filter_simps split: option.splits)

lemma mapping_fault_None: "mapping_fault x = None \<longleftrightarrow> mapping_ok x"
  by (auto simp: mapping_fault_def mapping_ok_def)

lemma no_faults: "List.map_filter mapping_fault xs = [] \<longleftrightarrow> (\<forall>x \<in> set xs. mapping_ok x)"
  by (induction xs) (auto simp: map_filter_simps mapping_fault_None [symmetric] split: option.splits)

text \<open>The page numbers of a mapping inside the user region, and the last table any mapping needs.\<close>

definition page_no :: "Mapping \<Rightarrow> nat \<Rightarrow> nat" where
  "page_no x i = (mp_vaddr x - USER_BASE) div 4096 + i"

definition last_slot :: "Mapping \<Rightarrow> nat" where
  "last_slot x = (mp_vaddr x + mp_size x - USER_BASE - 1) div 4096 div 512"

lemma raise_slot_eq: "mapping_ok x \<Longrightarrow> raise_slot x h = Some (max (last_slot x) h)"
proof -
  assume "mapping_ok x"
  then have "USER_BASE < mp_vaddr x + mp_size x" "mp_vaddr x + mp_size x \<le> U64_MAX" by (auto simp: mapping_ok_def rust_consts)
  then show ?thesis
    by (simp add: raise_slot_def vaddr_end_def uadd_ok usub_ok last_slot_def PAGE_SIZE_def PT_ENTRIES_def max.commute Suc_leI)
qed

lemma raise_slots:
  assumes "\<forall>x \<in> set xs. mapping_ok x"
  shows "for_list xs raise_slot h = Some (fold (\<lambda>x. max (last_slot x)) xs h)"
  using assms
proof (induction xs arbitrary: h)
  case (Cons x xs)
  then show ?case by (simp add: raise_slot_eq)
qed simp

definition slots :: "Mapping list \<Rightarrow> nat" where
  "slots xs = fold (\<lambda>x. max (last_slot x)) xs 0 + 1"

lemma fold_max_ge: "h \<le> fold (\<lambda>x. max (f x)) xs h" "x \<in> set xs \<Longrightarrow> f x \<le> fold (\<lambda>x. max (f x)) xs h" for h :: nat
proof (induction xs arbitrary: h)
  case (Cons y xs)
  { case 1 show ?case using Cons(1) [of "max (f y) h"] by simp }
  { case 2 then show ?case using Cons(1) [of "max (f y) h"] Cons(2) [of "max (f y) h"] by auto }
qed simp_all

lemma slots_bound: "\<forall>x \<in> set xs. mapping_ok x \<Longrightarrow> slots xs \<le> 512"
proof -
  assume ok: "\<forall>x \<in> set xs. mapping_ok x"
  have "last_slot x < 512" if "mapping_ok x" for x
  proof -
    have "mp_vaddr x + mp_size x - USER_BASE - 1 < 1073741824" using that by (auto simp: mapping_ok_def rust_consts)
    then show ?thesis by (simp add: last_slot_def less_mult_imp_div_less)
  qed
  then have "fold (\<lambda>x. max (last_slot x)) xs h < 512" if "h < 512" for h using ok that by (induction xs arbitrary: h) auto
  from this [of 0] show ?thesis by (simp add: slots_def)
qed

lemma page_no_facts:
  assumes "mapping_ok x" "i < mp_size x div 4096"
  shows "mp_vaddr x + i * 4096 = USER_BASE + page_no x i * 4096" "page_no x i div 512 \<le> last_slot x" "page_no x i < 262144"
proof -
  obtain v s where v: "mp_vaddr x = USER_BASE + v * 4096" "mp_size x = s * 4096" "i < s" "v + s \<le> 262144"
  proof -
    have "4096 dvd mp_vaddr x - USER_BASE" using assms(1) by (simp add: mapping_ok_def USER_BASE_def dvd_diff_nat)
    then obtain v where v: "mp_vaddr x - USER_BASE = v * 4096" by (metis dvd_def mult.commute)
    obtain s where s: "mp_size x = s * 4096" using assms(1) by (metis dvd_def mapping_ok_def mult.commute)
    show thesis using that [of v s] v s assms by (auto simp: mapping_ok_def rust_consts)
  qed
  show "mp_vaddr x + i * 4096 = USER_BASE + page_no x i * 4096" by (simp add: page_no_def v)
  have "USER_BASE + v * 4096 + s * 4096 - USER_BASE - 1 = (v + s - 1) * 4096 + 4095" using v(3) by simp
  then have "last_slot x = (v + s - 1) div 512" by (simp add: last_slot_def v)
  moreover have "v + i \<le> v + s - 1" using v(3) by linarith
  ultimately show "page_no x i div 512 \<le> last_slot x" by (simp add: page_no_def v div_le_mono)
  show "page_no x i < 262144" using v(3,4) by (simp add: page_no_def v(1))
qed

section \<open>The new tables\<close>

lemma table_loop:
  assumes ok: "arena_ok base (length a) (F + 1 + n)" and n: "q \<le> n" "n \<le> 512"
  shows "\<exists>a'. for_list [0..<q] (new_table base (F * 4096) F) (a, F + 1, replicate 512 0) =
      Some (a', F + 1 + q, map (\<lambda>i. (F + 1 + i) * 4096) [0..<q] @ replicate (512 - q) 0) \<and> length a' = length a \<and>
    (\<forall>k j. j < 512 \<longrightarrow> entry a' k j =
      (if k = F \<and> j < q then base + (F + 1 + j) * 4096 + 7 else if F + 1 \<le> k \<and> k < F + 1 + q then 0 else entry a k j))"
  using n(1)
proof (induction q)
  case 0
  then show ?case by simp
next
  case (Suc q)
  then obtain a1 where a1: "for_list [0..<q] (new_table base (F * 4096) F) (a, F + 1, replicate 512 0) =
      Some (a1, F + 1 + q, map (\<lambda>i. (F + 1 + i) * 4096) [0..<q] @ replicate (512 - q) 0)" "length a1 = length a"
    "\<forall>k j. j < 512 \<longrightarrow> entry a1 k j =
      (if k = F \<and> j < q then base + (F + 1 + j) * 4096 + 7 else if F + 1 \<le> k \<and> k < F + 1 + q then 0 else entry a k j)" by auto
  note A = arena_okD [OF ok]
  have q: "q < 512" "F + 1 + q < F + 1 + n" using Suc.prems n(2) by simp_all
  have b: "base + (F + 1 + q) * 4096 + 7 \<le> U64_MAX" "base + (F + 1 + q) * 4096 \<le> U64_MAX" "(F + 1 + q) * 4096 \<le> U64_MAX" "F + 1 + q + 1 \<le> U64_MAX"
    using A(4) [of "F + 1 + q"] q by (simp_all add: U64_MAX_def)
  let ?t = "base + (F + 1 + q) * 4096" and ?c = "cleared a1 (F + 1 + q)"
  let ?a = "set_entry ?c F q (?t + 7)"
  have c: "clear_page a1 ((F + 1 + q) * 4096) = Some ?c" "length ?c = length a"
    using A(2,3) a1(2) q clear_page_eq [of "F + 1 + q" "F + 1 + n" a1] by (simp_all add: length_cleared [of _ "F + 1 + n"])
  have w: "write_entry_at ?c (F * 4096) q v = Some (set_entry ?c F q v)" for v
    using A(2,3) c(2) q by (intro write_entry_at_eq [of _ _ "F + 1 + n"]) auto
  have f: "?t OR PRESENT OR WRITABLE OR USER = ?t + 7" using A(1) by (intro or_flags) simp
  have ix: "index_set (map (\<lambda>i. (F + 1 + i) * 4096) [0..<q] @ replicate (512 - q) 0) q ((F + 1 + q) * 4096) =
      Some (map (\<lambda>i. (F + 1 + i) * 4096) [0..<Suc q] @ replicate (512 - Suc q) 0)"
    using q(1) by (cases "512 - q") (auto simp: index_set_def list_update_append Suc_diff_Suc)
  have run: "new_table base (F * 4096) F q (a1, F + 1 + q, map (\<lambda>i. (F + 1 + i) * 4096) [0..<q] @ replicate (512 - q) 0) =
      Some (?a, F + 1 + Suc q, map (\<lambda>i. (F + 1 + i) * 4096) [0..<Suc q] @ replicate (512 - Suc q) 0)"
    unfolding new_table_def PAGE_SIZE_def split_conv umul_ok [OF b(3)] uadd_ok [OF b(2)] uadd_ok [OF b(4)] Option.bind.simps ix c(1)
    using b w f by (simp add: uadd_def usub_def)
  have e1: "entry ?a k j = (if k = F \<and> j = q then ?t + 7 else entry ?c k j)" if "j < 512" for k j
    using that A(2) c(2) q b(1) by (intro entry_set_entry [of _ _ "F + 1 + n"]) auto
  have e2: "entry ?c k j = (if k = F + 1 + q then 0 else entry a1 k j)" if "j < 512" for k j
    using that A(2) a1(2) q by (intro entry_cleared_page [of _ "F + 1 + n"]) auto
  have "entry ?a k j = (if k = F \<and> j < Suc q then base + (F + 1 + j) * 4096 + 7 else if F + 1 \<le> k \<and> k < F + 1 + Suc q then 0 else entry a k j)"
    if "j < 512" for k j
    using e1 [OF that] e2 [OF that] a1(3) that by (auto simp: less_Suc_eq)
  moreover have "length ?a = length a" using A(2) c(2) q by (subst length_set_entry [of _ _ "F + 1 + n"]) auto
  ultimately show ?case using a1(1) run by (intro exI [of _ ?a]) (simp add: for_list_append)
qed

text \<open>Mappings that do not overlap; physical ranges inside the address space of the processor.\<close>

definition mappings_apart :: "Mapping list \<Rightarrow> bool" where
  "mappings_apart xs \<longleftrightarrow> distinct xs \<and> (\<forall>x \<in> set xs. \<forall>y \<in> set xs. x \<noteq> y \<longrightarrow>
     {mp_vaddr x ..< mp_vaddr x + mp_size x} \<inter> {mp_vaddr y ..< mp_vaddr y + mp_size y} = {})"

definition mapping_pages :: "Mapping list \<Rightarrow> (Mapping \<times> nat) list" where
  "mapping_pages xs = concat (map (\<lambda>x. map (Pair x) [0..<mp_size x div 4096]) xs)"

definition leaf :: "Mapping \<Rightarrow> nat \<Rightarrow> nat" where
  "leaf x i = mp_paddr x + i * 4096 + (if mp_writable x then 7 else 5)"

lemma set_mapping_pages: "(x, i) \<in> set (mapping_pages xs) \<longleftrightarrow> x \<in> set xs \<and> i < mp_size x div 4096"
  by (force simp: mapping_pages_def)

lemma ball_mapping_pages: "(\<forall>xi \<in> set (mapping_pages xs). P xi) \<longleftrightarrow> (\<forall>x \<in> set xs. \<forall>i < mp_size x div 4096. P (x, i))"
  by (force simp: mapping_pages_def)

lemma distinct_mapping_pages: "distinct xs \<Longrightarrow> distinct (mapping_pages xs)"
  by (induction xs) (auto simp: mapping_pages_def distinct_map inj_on_def)

lemma length_mapping_pages: "length (mapping_pages xs) = (\<Sum>x \<leftarrow> xs. mp_size x div 4096)"
  by (induction xs) (auto simp: mapping_pages_def)

lemma page_in_size: "i < n div 4096 \<Longrightarrow> i * 4096 + 4096 \<le> n" for i n :: nat
  using mult_le_mono1 [of "Suc i" "n div 4096" 4096] div_times_less_eq_dividend [of n 4096] by simp

lemma page_no_inj:
  assumes apart: "mappings_apart xs" and ok: "\<forall>x \<in> set xs. mapping_ok x"
    and x: "x \<in> set xs" "i < mp_size x div 4096" and y: "y \<in> set xs" "j < mp_size y div 4096" and eq: "page_no x i = page_no y j"
  shows "x = y \<and> i = j"
proof -
  have a: "mp_vaddr x + i * 4096 = mp_vaddr y + j * 4096"
    using page_no_facts(1) [of x i] page_no_facts(1) [of y j] ok x y eq by simp
  have "mp_vaddr x + i * 4096 \<in> {mp_vaddr x ..< mp_vaddr x + mp_size x}" "mp_vaddr y + j * 4096 \<in> {mp_vaddr y ..< mp_vaddr y + mp_size y}"
    using page_in_size [OF x(2)] page_in_size [OF y(2)] by auto
  then have "x = y" using apart x(1) y(1) a unfolding mappings_apart_def by (metis disjoint_iff)
  then show ?thesis using a by simp
qed

lemma map_page_eq:
  assumes ok: "arena_ok base (length a) (F + 1 + n)" and x: "mapping_ok x" "i < mp_size x div 4096" "last_slot x < n" "n \<le> 512"
    and p: "mp_paddr x + mp_size x \<le> 2 ^ 52" and mb: "mb + 4096 \<le> U64_MAX"
  shows "map_page (map (\<lambda>i. (F + 1 + i) * 4096) [0..<n] @ rest) x i (a, mb) =
    Some (set_entry a (F + 1 + page_no x i div 512) (page_no x i mod 512) (leaf x i), mb + 4096)"
proof -
  note A = arena_okD [OF ok] and P = page_no_facts [OF x(1,2)]
  define k v where "k = page_no x i" and "v = mp_vaddr x"
  have k: "v + i * 4096 = USER_BASE + k * 4096" "k div 512 < n" "k < 262144" using P x(3) by (simp_all add: k_def v_def)
  have i: "i * 4096 + 4096 \<le> mp_size x" using page_in_size [OF x(2)] .
  have b: "i * 4096 \<le> U64_MAX" "USER_BASE + k * 4096 \<le> U64_MAX" "mp_paddr x + i * 4096 \<le> U64_MAX"
    using p i k(3) by (simp_all add: rust_consts)
  have ix: "index (map (\<lambda>i. (F + 1 + i) * 4096) [0..<n] @ rest) (k div 512) = Some ((F + 1 + k div 512) * 4096)"
    using k(2) by (intro index_tables) simp
  have w: "write_entry_at a ((F + 1 + k div 512) * 4096) (k mod 512) v = Some (set_entry a (F + 1 + k div 512) (k mod 512) v)" for v
    using A(2,3) k(2) by (intro write_entry_at_eq [of _ _ "F + 1 + n"]) auto
  have "4096 dvd mp_paddr x + i * 4096" using x(1) by (simp add: mapping_ok_def)
  note f = or_flags(4,5) [OF this]
  have l: "leaf x i = (mp_paddr x + i * 4096) OR (if mp_writable x then PRESENT OR USER OR WRITABLE else PRESENT OR USER)"
    using f by (simp add: leaf_def)
  show ?thesis
    unfolding l k_def [symmetric]
    using b k(1) w ix mb
    by (simp add: map_page_def v_def [symmetric] uadd_ok umul_ok usub_ok PAGE_SIZE_def PT_ENTRIES_def Let_def del: mult_Suc)
qed

lemma leaf_loop:
  assumes ok: "arena_ok base (length a) (F + 1 + n)" and xs: "\<forall>x \<in> set xs. mapping_ok x \<and> last_slot x < n \<and> mp_paddr x + mp_size x \<le> 2 ^ 52"
    and apart: "mappings_apart xs" and n: "n \<le> 512"
  shows "\<exists>a'. for_list xs (\<lambda>x. for_list [0..<mp_size x div 4096] (map_page (map (\<lambda>i. (F + 1 + i) * 4096) [0..<n] @ rest) x)) (a, 0) =
      Some (a', 4096 * length (mapping_pages xs)) \<and> length a' = length a \<and>
    (\<forall>x \<in> set xs. \<forall>i < mp_size x div 4096. entry a' (F + 1 + page_no x i div 512) (page_no x i mod 512) = leaf x i) \<and>
    (\<forall>k j. j < 512 \<longrightarrow> (\<forall>x \<in> set xs. \<forall>i < mp_size x div 4096. (F + 1 + page_no x i div 512, page_no x i mod 512) \<noteq> (k, j)) \<longrightarrow>
       entry a' k j = entry a k j)"
proof -
  let ?offs = "map (\<lambda>i. (F + 1 + i) * 4096) [0..<n] @ rest"
  let ?key = "\<lambda>(x, i). (F + 1 + page_no x i div 512, page_no x i mod 512)"
  have len: "length (mapping_pages xs) \<le> 262144"
  proof -
    have "inj_on (\<lambda>(x, i). page_no x i) (set (mapping_pages xs))"
      using page_no_inj [OF apart] xs by (auto simp: inj_on_def set_mapping_pages)
    then have "card (set (mapping_pages xs)) \<le> card {..<262144 :: nat}"
      using page_no_facts(3) xs by (intro card_inj_on_le) (auto simp: set_mapping_pages)
    then show ?thesis using apart by (simp add: distinct_card distinct_mapping_pages mappings_apart_def)
  qed
  have "\<exists>a'. for_list (mapping_pages xs) (\<lambda>(x, i). map_page ?offs x i) (a, 0) = Some (a', fold (\<lambda>_ c. c + 4096) (mapping_pages xs) 0) \<and>
    length a' = length a \<and> (\<forall>x \<in> set (mapping_pages xs). True \<longrightarrow> entry a' (fst (?key x)) (snd (?key x)) = (\<lambda>(x, i). leaf x i) x) \<and>
    (\<forall>k j. j < 512 \<longrightarrow> (\<forall>x \<in> set (mapping_pages xs). True \<longrightarrow> ?key x \<noteq> (k, j)) \<longrightarrow> entry a' k j = entry a k j)"
  proof (rule for_list_writes [where budget = "\<lambda>k c. c + 4096 * k \<le> U64_MAX" and N = "F + 1 + n"])
    fix xi :: "Mapping \<times> nat" and a1 :: bytes and c k :: nat
    assume xi: "xi \<in> set (mapping_pages xs)" and l: "length a1 = length a" and c: "c + 4096 * Suc k \<le> U64_MAX"
    obtain x i where "xi = (x, i)" "x \<in> set xs" "i < mp_size x div 4096" by (cases xi) (use xi in \<open>auto simp: set_mapping_pages\<close>)
    then show "(\<lambda>(x, i). map_page ?offs x i) xi (a1, c) = Some (if True then set_entry a1 (fst (?key xi)) (snd (?key xi)) ((\<lambda>(x, i). leaf x i) xi) else a1, c + 4096) \<and>
        c + 4096 + 4096 * k \<le> U64_MAX"
      using map_page_eq [of base a1 F n x i c rest] ok xs n l c by simp
  next
    fix xi assume xi: "xi \<in> set (mapping_pages xs)"
    obtain x i where x: "xi = (x, i)" "x \<in> set xs" "i < mp_size x div 4096" by (cases xi) (use xi in \<open>auto simp: set_mapping_pages\<close>)
    have "leaf x i \<le> U64_MAX" using page_in_size [OF x(3)] xs x(2) by (auto simp: leaf_def U64_MAX_def)
    moreover have "page_no x i div 512 < n" using page_no_facts(2) [of x i] xs x by fastforce
    ultimately show "fst (?key xi) < F + 1 + n \<and> snd (?key xi) < 512 \<and> (\<lambda>(x, i). leaf x i) xi \<le> U64_MAX" by (simp add: x(1))
  next
    show "inj_on ?key (set (mapping_pages xs))"
      using page_no_inj [OF apart] xs by (auto simp: inj_on_def set_mapping_pages) (metis div_mod_decomp)+
  qed (use arena_okD(2) [OF ok] apart len in \<open>auto simp: distinct_mapping_pages mappings_apart_def U64_MAX_def\<close>)
  then obtain a' where a': "for_list (mapping_pages xs) (\<lambda>(x, i). map_page ?offs x i) (a, 0) = Some (a', fold (\<lambda>_ c. c + 4096) (mapping_pages xs) 0)"
    "length a' = length a" "\<forall>x \<in> set (mapping_pages xs). entry a' (fst (?key x)) (snd (?key x)) = (\<lambda>(x, i). leaf x i) x"
    "\<forall>k j. j < 512 \<longrightarrow> (\<forall>x \<in> set (mapping_pages xs). ?key x \<noteq> (k, j)) \<longrightarrow> entry a' k j = entry a k j" by auto
  have c: "fold (\<lambda>_ c. c + 4096) ys c = c + 4096 * length ys" for ys :: "(Mapping \<times> nat) list" and c :: nat
    by (induction ys arbitrary: c) auto
  show ?thesis
  proof (intro exI [of _ a'] conjI ballI allI impI)
    show "for_list xs (\<lambda>x. for_list [0..<mp_size x div 4096] (map_page ?offs x)) (a, 0) = Some (a', 4096 * length (mapping_pages xs))"
      using a'(1) unfolding for_list_nested_dep mapping_pages_def [symmetric] c by simp
    show "entry a' (F + 1 + page_no x i div 512) (page_no x i mod 512) = leaf x i" if "x \<in> set xs" "i < mp_size x div 4096" for x i
      using bspec [OF a'(3), of "(x, i)"] that by (simp add: set_mapping_pages)
    show "entry a' k j = entry a k j"
      if "j < 512" "\<forall>x \<in> set xs. \<forall>i < mp_size x div 4096. (F + 1 + page_no x i div 512, page_no x i mod 512) \<noteq> (k, j)" for k j
    proof -
      have "\<forall>xi \<in> set (mapping_pages xs). ?key xi \<noteq> (k, j)"
        using that(2) by (simp add: ball_mapping_pages)
      then show ?thesis using a'(4) that(1) by blast
    qed
  qed (rule a'(2))
qed

text \<open>
  The entries after the construction: \<open>P\<close> is the page of the second-level table, \<open>F\<close> the first free
  page, \<open>n\<close> the number of fourth-level tables and \<open>E\<close> the entries before.
\<close>

definition user_leaf :: "Mapping list \<Rightarrow> nat \<Rightarrow> nat option" where
  "user_leaf xs p = map_option (\<lambda>(x, i). leaf x i) (List.find (\<lambda>(x, i). page_no x i = p) (mapping_pages xs))"

definition user_entry :: "nat \<Rightarrow> nat \<Rightarrow> nat \<Rightarrow> nat \<Rightarrow> Mapping list \<Rightarrow> (nat \<Rightarrow> nat \<Rightarrow> nat) \<Rightarrow> nat \<Rightarrow> nat \<Rightarrow> nat" where
  "user_entry base P F n xs E k j =
     (if k = P \<and> j = 4 then base + F * 4096 + 7
      else if k = F then (if j < n then base + (F + 1 + j) * 4096 + 7 else 0)
      else if F < k \<and> k < F + 1 + n then (case user_leaf xs ((k - F - 1) * 512 + j) of None \<Rightarrow> 0 | Some v \<Rightarrow> v)
      else E k j)"

lemma user_leaf_Some:
  assumes "mappings_apart xs" "\<forall>x \<in> set xs. mapping_ok x" "x \<in> set xs" "i < mp_size x div 4096"
  shows "user_leaf xs (page_no x i) = Some (leaf x i)"
proof -
  have "List.find (\<lambda>(y, j). page_no y j = page_no x i) (mapping_pages xs) \<noteq> None"
    using assms(3,4) by (auto simp: find_None_iff set_mapping_pages)
  then obtain y j where f: "List.find (\<lambda>(y, j). page_no y j = page_no x i) (mapping_pages xs) = Some (y, j)" by auto
  then have "(y, j) \<in> set (mapping_pages xs)" "page_no y j = page_no x i"
    unfolding find_Some_iff by (metis nth_mem, force)
  then have "y = x \<and> j = i" using page_no_inj [OF assms(1,2) _ _ assms(3,4)] by (auto simp: set_mapping_pages)
  then show ?thesis using f by (simp add: user_leaf_def)
qed

lemma user_leaf_None: "user_leaf xs p = None \<longleftrightarrow> (\<forall>x \<in> set xs. \<forall>i < mp_size x div 4096. page_no x i \<noteq> p)"
  by (auto simp: user_leaf_def find_None_iff set_mapping_pages)

lemma fill_user_tables_eq:
  assumes ok: "arena_ok base (length a) (F + 1 + n)" and P: "P < F"
    and xs: "\<forall>x \<in> set xs. mapping_ok x \<and> last_slot x < n \<and> mp_paddr x + mp_size x \<le> 2 ^ 52"
    and apart: "mappings_apart xs" and n: "n \<le> 512"
  shows "\<exists>a'. fill_user_tables base a (F * 4096) F n (P * 4096) 4 xs =
      Some (a', \<lparr> um_mapped_bytes = 4096 * length (mapping_pages xs), um_tables_used = n + 1 \<rparr>) \<and> length a' = length a \<and>
    (\<forall>k j. j < 512 \<longrightarrow> entry a' k j = user_entry base P F n xs (entry a) k j)"
proof -
  note A = arena_okD [OF ok]
  let ?c = "cleared a F" and ?t = "base + F * 4096"
  let ?a1 = "set_entry ?c P 4 (?t + 7)"
  have c: "clear_page a (F * 4096) = Some ?c" "length ?c = length a"
    using A(2,3) clear_page_eq [of F "F + 1 + n" a] by (simp_all add: length_cleared [of _ "F + 1 + n"])
  have w: "write_entry_at ?c (P * 4096) 4 v = Some (set_entry ?c P 4 v)" for v
    using A(2,3) c(2) P by (intro write_entry_at_eq [of _ _ "F + 1 + n"]) auto
  have f: "?t OR PRESENT OR WRITABLE OR USER = ?t + 7" using A(1) by (intro or_flags) simp
  have b: "?t + 7 \<le> U64_MAX" "?t \<le> U64_MAX" "F + 1 \<le> U64_MAX" using A(4) [of F] by (simp_all add: U64_MAX_def)
  have l1: "length ?a1 = length a" using A(2) c(2) P by (subst length_set_entry [of _ _ "F + 1 + n"]) auto
  have e1: "entry ?a1 k j = (if k = P \<and> j = 4 then ?t + 7 else if k = F then 0 else entry a k j)" if "j < 512" for k j
    using entry_set_entry [of 4 P "F + 1 + n" ?c "?t + 7" j k] entry_cleared_page [of F "F + 1 + n" a j k] A(2) c(2) P b(1) that by auto
  obtain a2 where a2: "for_list [0..<n] (new_table base (F * 4096) F) (?a1, F + 1, replicate 512 0) =
      Some (a2, F + 1 + n, map (\<lambda>i. (F + 1 + i) * 4096) [0..<n] @ replicate (512 - n) 0)" "length a2 = length a"
    "\<forall>k j. j < 512 \<longrightarrow> entry a2 k j =
      (if k = F \<and> j < n then base + (F + 1 + j) * 4096 + 7 else if F + 1 \<le> k \<and> k < F + 1 + n then 0 else entry ?a1 k j)"
    using table_loop [of base ?a1 F n n] ok n l1 by auto
  obtain a3 where a3: "for_list xs (\<lambda>x. for_list [0..<mp_size x div 4096]
      (map_page (map (\<lambda>i. (F + 1 + i) * 4096) [0..<n] @ replicate (512 - n) 0) x)) (a2, 0) = Some (a3, 4096 * length (mapping_pages xs))"
    "length a3 = length a"
    "\<forall>x \<in> set xs. \<forall>i < mp_size x div 4096. entry a3 (F + 1 + page_no x i div 512) (page_no x i mod 512) = leaf x i"
    "\<forall>k j. j < 512 \<longrightarrow> (\<forall>x \<in> set xs. \<forall>i < mp_size x div 4096. (F + 1 + page_no x i div 512, page_no x i mod 512) \<noteq> (k, j)) \<longrightarrow>
       entry a3 k j = entry a2 k j"
    using leaf_loop [of base a2 F n xs "replicate (512 - n) 0"] ok xs apart n a2(2) by auto
  have run: "fill_user_tables base a (F * 4096) F n (P * 4096) 4 xs =
      Some (a3, \<lparr> um_mapped_bytes = 4096 * length (mapping_pages xs), um_tables_used = n + 1 \<rparr>)"
    using a2(1) a3(1) c(1) w f b n
    by (simp add: fill_user_tables_def uadd_def usub_def PAGE_SIZE_def PD_ENTRIES_def min_absorb2 Let_def)
  have "entry a3 k j = user_entry base P F n xs (entry a) k j" if j: "j < 512" for k j
  proof (cases "\<exists>x \<in> set xs. \<exists>i < mp_size x div 4096. k = F + 1 + page_no x i div 512 \<and> j = page_no x i mod 512")
    case True
    then obtain x i where x: "x \<in> set xs" "i < mp_size x div 4096" "k = F + 1 + page_no x i div 512" "j = page_no x i mod 512" by blast
    have "page_no x i div 512 < n" using page_no_facts(2) [of x i] xs x by fastforce
    moreover have "(k - F - 1) * 512 + j = page_no x i" using x(3,4) by simp
    ultimately show ?thesis
      using a3(3) x P user_leaf_Some [OF apart _ x(1,2)] xs by (simp add: user_entry_def)
  next
    case False
    then have "entry a3 k j = entry a2 k j" by (intro a3(4) [rule_format] j) auto
    moreover have "user_leaf xs ((k - F - 1) * 512 + j) = None" if "F < k"
      unfolding user_leaf_None
    proof (intro ballI allI impI notI)
      fix x i assume x: "x \<in> set xs" "i < mp_size x div 4096" and e: "page_no x i = (k - F - 1) * 512 + j"
      then have "page_no x i div 512 = k - F - 1" "page_no x i mod 512 = j" using j by auto
      moreover have "k = F + 1 + (k - F - 1)" using that by simp
      ultimately show False using False x by metis
    qed
    ultimately show ?thesis using a2(3) e1 j P by (auto simp: user_entry_def)
  qed
  then show ?thesis using run a3(2) by blast
qed

section \<open>The operation as a whole\<close>

lemma and_flag: "e AND PRESENT = 0 \<longleftrightarrow> \<not> present e" "e AND USER = 0 \<longleftrightarrow> \<not> user_ok e" for e :: nat
  by (simp_all add: PRESENT_def present_def USER_def user_ok_def bit_iff_and_push_bit_not_eq_0 push_bit_eq_mult)

lemma or_user: "4096 dvd t \<Longrightarrow> (t + 3) OR USER = t + 7" for t :: nat
proof -
  assume t: "4096 dvd t"
  have "t + 3 = t OR 3" using or_low_bits [OF t, of 3] by simp
  then have "(t + 3) OR USER = t OR 7" by (simp add: or.assoc USER_def)
  then show ?thesis using or_low_bits [OF t, of 7] by simp
qed

text \<open>The tables of the kernel: the root is page 0, its first entry leads to page 1; \<open>F\<close> is the first free page, its offset a machine word.\<close>

definition kernel_tables :: "nat \<Rightarrow> bytes \<Rightarrow> nat \<Rightarrow> bool" where
  "kernel_tables base a F \<longleftrightarrow> arena_ok base (length a) 2 \<and> 1 < F \<and> F * 4096 \<le> U64_MAX \<and> entry a 0 0 \<in> {base + 4096 + 3, base + 4096 + 7}"

definition open_root :: "nat \<Rightarrow> bytes \<Rightarrow> bytes" where
  "open_root base a = (if entry a 0 0 = base + 4096 + 3 then set_entry a 0 0 (base + 4096 + 7) else a)"

lemma map_user_region_eq:
  assumes k: "kernel_tables base a F" and ends: "\<forall>x \<in> set xs. mp_vaddr x + mp_size x \<le> U64_MAX"
  shows "map_user_region base a 0 (F * 4096) xs =
    (if xs = [] then Some (a, Inr \<lparr> um_mapped_bytes = 0, um_tables_used = 0 \<rparr>)
     else case List.map_filter mapping_fault xs of
       e # _ \<Rightarrow> Some (a, Inl e)
     | [] \<Rightarrow>
         if present (entry a 1 4) then Some (open_root base a, Inl AlreadyMapped)
         else if length a div 4096 < F + 1 + slots xs
         then Some (open_root base a, Inl (UserArenaTooSmall (F + 1 + slots xs) (length a div 4096)))
         else map_option (\<lambda>(a', r). (a', Inr r)) (fill_user_tables base (open_root base a) (F * 4096) F (slots xs) (1 * 4096) 4 xs))"
proof -
  have ok: "arena_ok base (length a) 2" "1 < F" "entry a 0 0 \<in> {base + 4096 + 3, base + 4096 + 7}" using k by (auto simp: kernel_tables_def)
  note A = arena_okD [OF ok(1)]
  have d: "4096 dvd base + 4096" using A(1) by simp
  have r: "read_entry_at a 0 0 = Some (entry a 0 0)" using read_entry_at_eq [of 0 0 2 a] A ok(2) by simp
  have w: "write_entry_at a 0 0 v = Some (set_entry a 0 0 v)" for v using write_entry_at_eq [of 0 0 2 a v] A ok(2) by simp
  have op: "(if entry a 0 0 AND USER = 0 then write_entry_at a 0 0 (entry a 0 0 OR USER) else Some a) = Some (open_root base a)"
    using ok(3) flag_bits(3,7) [OF d] or_user [OF d] w by (auto simp: open_root_def and_flag)
  have pr: "present (entry a 0 0)" using ok(3) flag_bits(1,5) [OF d] by auto
  have ad: "(entry a 0 0) AND ADDRESS_MASK = base + 4096"
    using ok(3) A(5) [of 1] address_of_entry [OF d, of 3] address_of_entry [OF d, of 7] by auto
  have lo: "length (open_root base a) = length a" using A(2) ok(2) by (auto simp: open_root_def length_set_entry [of 0 0 2])
  have eo: "entry (open_root base a) 1 4 = entry a 1 4"
    using A(2) A(4) [of 1] ok(2) by (auto simp: open_root_def entry_set_entry [of 0 0 2] U64_MAX_def)
  have ro: "read_entry_at (open_root base a) (1 * 4096) 4 = Some (entry a 1 4)"
    using read_entry_at_eq [of 4 1 2 "open_root base a"] A(2,3) ok(2) eo lo by simp
  have ix: "and (drop_bit 30 USER_BASE) 511 = 4" by (simp add: USER_BASE_def drop_bit_eq_div)
  have F: "F \<le> 2 ^ 52" using k by (simp add: kernel_tables_def U64_MAX_def)
  have u: "uadd USER_BASE USER_MAX_BYTES = Some (USER_BASE + USER_MAX_BYTES)" by (simp add: uadd_def rust_consts)
  note chk = check_mappings_eq [OF ends]
  have start: "map_user_region base a 0 (F * 4096) xs =
      (if xs = [] then Some (a, Inr \<lparr> um_mapped_bytes = 0, um_tables_used = 0 \<rparr>)
       else case List.map_filter mapping_fault xs of e # _ \<Rightarrow> Some (a, Inl e) | [] \<Rightarrow> map_user_region base a 0 (F * 4096) xs)"
    using A(1) by (auto simp: map_user_region_def is_multiple_of_def PAGE_SIZE_def u chk Let_def split: list.splits)
  show ?thesis
  proof (cases "xs \<noteq> [] \<and> List.map_filter mapping_fault xs = []")
    case False
    then show ?thesis by (subst start) (auto split: list.splits)
  next
    case True
    then have ok': "\<forall>x \<in> set xs. mapping_ok x" by (simp add: no_faults)
    note raise = raise_slots [OF ok', of 0] and sl = slots_bound [OF ok']
    have n: "uadd (fold (\<lambda>x. max (last_slot x)) xs 0) 1 = Some (slots xs)" "uadd F 1 = Some (F + 1)" "uadd (F + 1) (slots xs) = Some (F + 1 + slots xs)"
      using sl F by (simp_all add: uadd_def slots_def U64_MAX_def)
    have p: "usub (base + 4096) base = Some (1 * 4096)" by (simp add: usub_def)
    show ?thesis
      using True A(1) pr
      by (simp add: map_user_region_def is_multiple_of_def PAGE_SIZE_def u chk Let_def r and_flag(1) op ad p [simplified] ix ro [simplified]
          raise n [simplified] map_option_case split: option.splits)
  qed
qed

section \<open>Translation after the operation\<close>

text \<open>The entries of the kernel's tables, and those of the same arena after a user region was added behind them.\<close>

definition kernel_entries :: "nat \<Rightarrow> MemoryMap \<Rightarrow> nat \<Rightarrow> nat \<Rightarrow> nat \<Rightarrow> nat \<Rightarrow> (nat \<Rightarrow> nat \<Rightarrow> nat) \<Rightarrow> bool" where
  "kernel_entries base m pd pt limit fine E \<longleftrightarrow> (\<forall>k j. k < 2 + pd + pt \<longrightarrow> j < 512 \<longrightarrow> E k j = identity_entry base m pd pt limit fine k j)"

definition opened :: "nat \<Rightarrow> (nat \<Rightarrow> nat \<Rightarrow> nat) \<Rightarrow> nat \<Rightarrow> nat \<Rightarrow> nat" where
  "opened base E k j = (if k = 0 \<and> j = 0 then base + 4096 + 7 else E k j)"

definition user_entries :: "nat \<Rightarrow> nat \<Rightarrow> nat \<Rightarrow> Mapping list \<Rightarrow> (nat \<Rightarrow> nat \<Rightarrow> nat) \<Rightarrow> (nat \<Rightarrow> nat \<Rightarrow> nat) \<Rightarrow> bool" where
  "user_entries base F n xs E E' \<longleftrightarrow> (\<forall>k j. j < 512 \<longrightarrow> E' k j = user_entry base 1 F n xs (opened base E) k j)"

lemma walk_below_user:
  assumes ok: "arena_ok base len (F + 1 + n)" and F: "2 + pd + pt \<le> F" and E: "kernel_entries base m pd pt limit fine E"
    and E': "user_entries base F n xs E E'" and va: "va < USER_BASE"
  shows "walk E' base 0 va = walk E base 0 va"
proof -
  note A = arena_okD [OF ok]
  define i j where "i = va div 2 ^ 30" and "j = va div 2 ^ 21 mod 512"
  have i: "i < 4" "va div 2 ^ 39 = 0" "va div 2 ^ 30 mod 512 = i" "j < 512"
    using va by (simp_all add: i_def j_def USER_BASE_def less_mult_imp_div_less)
  have tp: "table_page base (base + k * 4096 + f) = k" if "k < F" "f < 4096" for k f
    using A(1) A(5) [of k] that by (intro table_page_entry) auto
  have fl: "present (base + k * 4096 + 3)" "writable (base + k * 4096 + 3)" "\<not> user_ok (base + k * 4096 + 3)" "\<not> large (base + k * 4096 + 3)"
    "present (base + k * 4096 + 7)" "writable (base + k * 4096 + 7)" for k
    using A(1) by (intro flag_bits; simp)+
  have same: "E' k q = E k q" if "k < F" "q < 512" "(k, q) \<notin> {(0, 0), (1, 4)}" for k q
    using E' that by (auto simp: user_entries_def user_entry_def opened_def)
  have e4: "E 0 0 = base + 1 * 4096 + 3" "E' 0 0 = base + 1 * 4096 + 7"
    using E E' F by (simp_all add: kernel_entries_def identity_entry_def user_entries_def user_entry_def opened_def)
  have e3: "E 1 i = (if i < pd then base + (2 + i) * 4096 + 3 else 0)"
    using E i by (simp add: kernel_entries_def identity_entry_def)
  have s3: "E' 1 i = E 1 i" using i F by (intro same) auto
  have r: "table_page base (E 0 0) = 1" "table_page base (E' 0 0) = 1" "present (E 0 0)" "present (E' 0 0)" "writable (E 0 0)" "writable (E' 0 0)"
    "\<not> user_ok (E 0 0)"
    using e4 tp [of 1 3] tp [of 1 7] fl [of 1] F by simp_all
  show ?thesis
  proof (cases "i < pd")
    case False
    then show ?thesis using r e3 s3 i unfolding walk_def Let_def by simp
  next
    case True
    have t: "table_page base (E 1 i) = 2 + i" "present (E 1 i)" "writable (E 1 i)" "\<not> user_ok (E 1 i)"
      using e3 True tp [of "2 + i" 3] fl [of "2 + i"] F by (simp_all del: add_2_eq_Suc)
    have s2: "E' (2 + i) j = E (2 + i) j" using True F i by (intro same) auto
    have e2: "E (2 + i) j = identity_entry base m pd pt limit fine (2 + i) j" using E True i by (simp add: kernel_entries_def)
    have leaf: "E' (table_page base e) q = E (table_page base e) q" if "e = E (2 + i) j" "present e" "\<not> large e" "q < 512" for e q
    proof -
      have "i * 512 + j < pt \<and> e = base + (2 + pd + (i * 512 + j)) * 4096 + 3"
        using that e2 flag_bits(12) [of "(i * 512 + j) * 2097152"] unfolding identity_entry_pd [OF True]
        by (auto simp: block_mapped_def dvd_mult split: if_splits)
      then show ?thesis using tp [of "2 + pd + (i * 512 + j)" 3] F that(4) by (auto intro!: same)
    qed
    show ?thesis
      using s3 s2 leaf [OF refl] i r t unfolding walk_def Let_def j_def by (simp del: add_2_eq_Suc)
  qed
qed

lemma user_page_split:
  assumes "va div 2 ^ 30 = 4"
  shows "va div 2 ^ 21 mod 512 * 512 + va div 2 ^ 12 mod 512 = (va - USER_BASE) div 4096" "va mod 2 ^ 12 = (va - USER_BASE) mod 4096"
    "va div 2 ^ 39 = 0" "va < USER_BASE + 1073741824"
proof -
  have va: "USER_BASE \<le> va" "va < USER_BASE + 1073741824" using assms by (auto simp: USER_BASE_def div_eq_dividend_iff intro: ccontr)
  define u where "u = va - USER_BASE"
  have u: "va = u + 1048576 * 4096" "va = u + 2048 * 2097152" "u < 1073741824" using va by (simp_all add: u_def USER_BASE_def)
  have d: "va div 2 ^ 21 = u div 2097152 + 2048" "va div 2 ^ 12 = u div 4096 + 1048576"
    using div_mult_self1 [of 2097152 u 2048] div_mult_self1 [of 4096 u 1048576] u by simp_all
  have "u div 2097152 < 512" using u(3) by (simp add: less_mult_imp_div_less)
  moreover have "u div 2097152 = u div 4096 div 512" by (simp add: div_mult2_eq [symmetric])
  ultimately show "va div 2 ^ 21 mod 512 * 512 + va div 2 ^ 12 mod 512 = (va - USER_BASE) div 4096"
    unfolding d u_def [symmetric] by (simp add: mod_add_right_eq [symmetric])
  have "va mod 4096 = u mod 4096" using mod_mult_self1 [of u 1048576 4096] u(1) by simp
  then show "va mod 2 ^ 12 = (va - USER_BASE) mod 4096" by (simp add: u_def)
  show "va div 2 ^ 39 = 0" "va < USER_BASE + 1073741824" using va by (simp_all add: USER_BASE_def)
qed

lemma walk_user_region:
  assumes ok: "arena_ok base len (F + 1 + n)" and F: "2 + pd + pt \<le> F" "pd \<le> 4" and E: "kernel_entries base m pd pt limit fine E"
    and E': "user_entries base F n xs E E'" and va: "USER_BASE \<le> va" "va < 2 ^ 48"
    and xs: "\<forall>x \<in> set xs. mapping_ok x \<and> last_slot x < n" "n \<le> 512"
  shows "walk E' base 0 va = (case user_leaf xs ((va - USER_BASE) div 4096) of None \<Rightarrow> None
    | Some v \<Rightarrow> if present v then Some \<lparr> phys = (v AND ADDRESS_MASK) + (va - USER_BASE) mod 4096, may_write = writable v, may_user = user_ok v \<rparr> else None)"
proof -
  note A = arena_okD [OF ok]
  define i j where "i = va div 2 ^ 30" and "j = va div 2 ^ 21 mod 512"
  have tp: "table_page base (base + k * 4096 + f) = k" if "k < F + 1 + n" "f < 4096" for k f
    using A(1) A(5) [OF that(1)] that(2) by (intro table_page_entry) auto
  have fl: "present (base + k * 4096 + 7)" "writable (base + k * 4096 + 7)" "user_ok (base + k * 4096 + 7)" "\<not> large (base + k * 4096 + 7)" for k
    using A(1) by (intro flag_bits; simp)+
  have far: "user_leaf xs p = None" if "n * 512 \<le> p" for p
    unfolding user_leaf_None
  proof (intro ballI allI impI notI)
    fix x i assume "x \<in> set xs" "i < mp_size x div 4096" "page_no x i = p"
    then have "p div 512 < n" using xs(1) page_no_facts(2) [of x i] by fastforce
    then show False using that by (simp add: less_eq_div_iff_mult_less_eq)
  qed
  have e4: "E' 0 0 = base + 1 * 4096 + 7" and e3: "E' 1 4 = base + F * 4096 + 7"
    using E' F by (simp_all add: user_entries_def user_entry_def opened_def)
  have r: "table_page base (E' 0 0) = 1" "present (E' 0 0)" "writable (E' 0 0)" "user_ok (E' 0 0)"
    using e4 tp [of 1 7] fl [of 1] F by simp_all
  show ?thesis
  proof (cases "i = 4")
    case False
    have "4 \<le> i" using va(1) by (simp add: i_def USER_BASE_def less_eq_div_iff_mult_less_eq)
    then have i: "5 \<le> i" using False by simp
    then have "5 * 1073741824 \<le> va" by (simp add: i_def less_eq_div_iff_mult_less_eq)
    then have "262144 \<le> (va - USER_BASE) div 4096" by (simp add: USER_BASE_def less_eq_div_iff_mult_less_eq)
    then have none: "user_leaf xs ((va - USER_BASE) div 4096) = None" using far xs(2) by simp
    show ?thesis
    proof (cases "va < 2 ^ 39")
      case True
      then have i': "va div 2 ^ 39 = 0" "i < 512" "va div 2 ^ 30 mod 512 = i" by (simp_all add: i_def less_mult_imp_div_less)
      then have "E' 1 i = 0"
        using E E' F i by (simp add: user_entries_def user_entry_def opened_def kernel_entries_def identity_entry_def)
      then show ?thesis using r i' none unfolding walk_def Let_def by simp
    next
      case far: False
      define q where "q = va div 2 ^ 39"
      have q: "va div 2 ^ 39 mod 512 = q" "q < 512" using va(2) by (simp_all add: q_def less_mult_imp_div_less)
      have "q \<noteq> 0" using far by (simp add: q_def div_eq_0_iff)
      then have "E' 0 q = 0"
        using E E' F q by (simp add: user_entries_def user_entry_def opened_def kernel_entries_def identity_entry_def)
      then show ?thesis using none unfolding walk_def Let_def q(1) by simp
    qed
  next
    case True
    note S = user_page_split [OF True [unfolded i_def]]
    define q where "q = va div 2 ^ 12 mod 512"
    have p: "j * 512 + q = (va - USER_BASE) div 4096" "j < 512" "q < 512" using S(1) by (simp_all add: j_def q_def)
    have t3: "table_page base (E' 1 4) = F" "present (E' 1 4)" "writable (E' 1 4)" "user_ok (E' 1 4)"
      using e3 tp [of F 7] fl [of F] by simp_all
    have e2: "E' F j = (if j < n then base + (F + 1 + j) * 4096 + 7 else 0)" using E' F p(2) by (simp add: user_entries_def user_entry_def)
    have up: "walk E' base 0 va = (let e2 = E' F j in if \<not> present e2 then None
      else if large e2 then Some \<lparr> phys = (e2 AND ADDRESS_MASK) + va mod 2 ^ 21, may_write = writable e2, may_user = user_ok e2 \<rparr>
      else let e1 = E' (table_page base e2) q in if \<not> present e1 then None
      else Some \<lparr> phys = (e1 AND ADDRESS_MASK) + (va - USER_BASE) mod 4096, may_write = (writable e2 \<and> writable e1), may_user = (user_ok e2 \<and> user_ok e1) \<rparr>)"
      using r t3 True S(2,3) unfolding walk_def Let_def i_def j_def q_def by simp
    show ?thesis
    proof (cases "j < n")
      case False
      then have "n * 512 \<le> (va - USER_BASE) div 4096" unfolding p(1) [symmetric] by simp
      then show ?thesis using False e2 far unfolding up by simp
    next
      case jn: True
      have t2: "table_page base (E' F j) = F + 1 + j" "present (E' F j)" "writable (E' F j)" "user_ok (E' F j)" "\<not> large (E' F j)"
        using e2 jn tp [of "F + 1 + j" 7] fl [of "F + 1 + j"] by (simp_all del: add_Suc_right add_Suc)
      have "E' (F + 1 + j) q = (case user_leaf xs ((va - USER_BASE) div 4096) of None \<Rightarrow> 0 | Some v \<Rightarrow> v)"
        using E' F jn p unfolding p(1) [symmetric] by (simp add: user_entries_def user_entry_def)
      then show ?thesis using t2 unfolding up Let_def by (simp split: option.splits)
    qed
  qed
qed

lemma check_mappings_ends: "check_mappings l xs = Some (Inr ()) \<Longrightarrow> \<forall>x \<in> set xs. mp_vaddr x + mp_size x \<le> U64_MAX"
  by (induction xs)
    (auto simp: check_mapping_def vaddr_end_def uadd_def bind_eq_Some_conv split: if_splits sum.splits)

lemma map_user_region_ends:
  assumes "map_user_region base a p f xs = Some (a', Inr u)"
  shows "\<forall>x \<in> set xs. mp_vaddr x + mp_size x \<le> U64_MAX"
proof (cases "xs = []")
  case False
  have u: "uadd USER_BASE USER_MAX_BYTES = Some (USER_BASE + USER_MAX_BYTES)" by (simp add: uadd_def rust_consts)
  have "check_mappings (USER_BASE + USER_MAX_BYTES) xs = Some (Inr ())"
  proof (cases "check_mappings (USER_BASE + USER_MAX_BYTES) xs")
    case None
    then show ?thesis using assms False by (simp add: map_user_region_def u Let_def split: if_splits)
  next
    case (Some r)
    then show ?thesis using assms False by (cases r) (simp_all add: map_user_region_def u Let_def split: if_splits)
  qed
  then show ?thesis by (rule check_mappings_ends)
qed simp

lemma entry_open_root:
  assumes "kernel_tables base a F" "j < 512"
  shows "entry (open_root base a) k j = opened base (entry a) k j" "length (open_root base a) = length a"
proof -
  have ok: "arena_ok base (length a) 2" "1 < F" "entry a 0 0 \<in> {base + 4096 + 3, base + 4096 + 7}" using assms(1) by (auto simp: kernel_tables_def)
  note A = arena_okD [OF ok(1)]
  show "entry (open_root base a) k j = opened base (entry a) k j"
    using A(2) A(4) [of 1] ok(2,3) assms(2) by (auto simp: open_root_def opened_def entry_set_entry [of 0 0 2] U64_MAX_def)
  show "length (open_root base a) = length a" using A(2) ok(2) by (auto simp: open_root_def length_set_entry [of 0 0 2])
qed

text \<open>A run with mappings that pass the checks, on an arena that has room for the tables.\<close>

lemma map_user_region_ok:
  assumes k: "kernel_tables base a F" and room: "F + 1 + slots xs \<le> length a div 4096" and free: "\<not> present (entry a 1 4)"
    and xs: "xs \<noteq> []" "\<forall>x \<in> set xs. mapping_ok x \<and> mp_paddr x + mp_size x \<le> 2 ^ 52" "mappings_apart xs"
  shows "\<exists>a'. map_user_region base a 0 (F * 4096) xs =
      Some (a', Inr \<lparr> um_mapped_bytes = (\<Sum>x \<leftarrow> xs. mp_size x), um_tables_used = slots xs + 1 \<rparr>) \<and> length a' = length a \<and>
    user_entries base F (slots xs) xs (entry a) (entry a')"
proof -
  have ok: "\<forall>x \<in> set xs. mapping_ok x" using xs(2) by blast
  then have faults: "List.map_filter mapping_fault xs = []" by (simp add: no_faults)
  have ends: "\<forall>x \<in> set xs. mp_vaddr x + mp_size x \<le> U64_MAX" using ok by (auto simp: mapping_ok_def rust_consts)
  have len: "length (open_root base a) = length a" using entry_open_root(2) [OF k, of 0] by simp
  have ar: "arena_ok base (length (open_root base a)) (F + 1 + slots xs)"
    using k room len by (simp add: kernel_tables_def arena_ok_def less_eq_div_iff_mult_less_eq)
  have sl: "\<forall>x \<in> set xs. mapping_ok x \<and> last_slot x < slots xs \<and> mp_paddr x + mp_size x \<le> 2 ^ 52"
    using xs(2) fold_max_ge(2) [of _ xs last_slot 0] by (simp add: slots_def less_Suc_eq_le)
  have F: "1 < F" using k by (simp add: kernel_tables_def)
  obtain a' where a': "fill_user_tables base (open_root base a) (F * 4096) F (slots xs) (1 * 4096) 4 xs =
      Some (a', \<lparr> um_mapped_bytes = 4096 * length (mapping_pages xs), um_tables_used = slots xs + 1 \<rparr>)" "length a' = length a"
    "\<forall>k j. j < 512 \<longrightarrow> entry a' k j = user_entry base 1 F (slots xs) xs (entry (open_root base a)) k j"
    using fill_user_tables_eq [OF ar F sl xs(3) slots_bound [OF ok]] len by auto
  have "4096 * length (mapping_pages xs) = (\<Sum>x \<leftarrow> xs. mp_size x)"
    using ok by (induction xs) (auto simp: mapping_pages_def mapping_ok_def)
  moreover have "user_entries base F (slots xs) xs (entry a) (entry a')"
    using a'(3) entry_open_root(1) [OF k] by (simp add: user_entries_def user_entry_def)
  ultimately show ?thesis
    using a' room free faults xs(1) by (intro exI [of _ a']) (simp add: map_user_region_eq [OF k ends] not_less [symmetric])
qed

lemma leaf_translation:
  assumes "mapping_ok x" "i < mp_size x div 4096" "mp_paddr x + mp_size x \<le> 2 ^ 52"
  shows "present (leaf x i)" "writable (leaf x i) = mp_writable x" "user_ok (leaf x i)" "leaf x i AND ADDRESS_MASK = mp_paddr x + i * 4096"
proof -
  have d: "4096 dvd mp_paddr x + i * 4096" using assms(1) by (simp add: mapping_ok_def)
  have b: "mp_paddr x + i * 4096 < 2 ^ 52" using page_in_size [OF assms(2)] assms(3) by simp
  show "present (leaf x i)" "writable (leaf x i) = mp_writable x" "user_ok (leaf x i)" using flag_bits [OF d] by (simp_all add: leaf_def)
  show "leaf x i AND ADDRESS_MASK = mp_paddr x + i * 4096"
    using address_of_entry [OF d b, of 5] address_of_entry [OF d b, of 7] by (simp add: leaf_def)
qed

lemma built_tables:
  assumes "map_wf m" "length a \<le> ISIZE_MAX" "base + length a \<le> 2 ^ 52" "build base a m c = Some (a1, Inr r)"
    and "max_identity_bytes c \<le> USER_BASE" "pt_tables_used r \<le> F" "F * 4096 \<le> U64_MAX"
  obtains fine where "kernel_tables base a1 F" "kernel_entries base m (pds_of c) (pts_of c) (pt_limit r) fine (entry a1)"
    "2 + pds_of c + pts_of c \<le> F" "pds_of c \<le> 4" "\<not> present (entry a1 1 4)"
proof -
  obtain t where t: "length a1 = length a" "pt_tables_used r = table_pages c" "table_pages c = 2 + pds_of c + pts_of c"
    "arena_ok base (length a) (table_pages c)" "\<forall>k j. k < table_pages c \<longrightarrow> j < 512 \<longrightarrow>
       entry a1 k j = identity_entry base m (pds_of c) (pts_of c) (pt_limit r) (build_fine t c) k j"
    using build_summary [OF assms(1-4)] by blast
  have E: "kernel_entries base m (pds_of c) (pts_of c) (pt_limit r) (build_fine t c) (entry a1)" using t(3,5) by (simp add: kernel_entries_def)
  have pd: "pds_of c \<le> 4" unfolding pds_of_def using assms(5) by (intro div_ceil_le) (simp add: USER_BASE_def)
  have "entry a1 0 0 = base + 4096 + 3" "entry a1 1 4 = 0"
    using E pd by (simp_all add: kernel_entries_def identity_entry_def)
  then show thesis
    using that [OF _ E] t pd assms(6,7) by (auto simp: kernel_tables_def arena_ok_def)
qed

lemma region_tables:
  assumes k: "kernel_tables base a1 F" and run: "map_user_region base a1 0 (F * 4096) xs = Some (a2, Inr u)"
    and xs: "xs \<noteq> []" "mappings_apart xs" "\<forall>x \<in> set xs. mp_paddr x + mp_size x \<le> 2 ^ 52"
  shows "\<forall>x \<in> set xs. mapping_ok x \<and> last_slot x < slots xs" "arena_ok base (length a1) (F + 1 + slots xs)" "length a2 = length a1"
    "user_entries base F (slots xs) xs (entry a1) (entry a2)"
proof -
  note eq = run [unfolded map_user_region_eq [OF k map_user_region_ends [OF run]]]
  have f: "List.map_filter mapping_fault xs = []" using eq xs(1) by (auto split: list.splits)
  then show ok: "\<forall>x \<in> set xs. mapping_ok x \<and> last_slot x < slots xs"
    using no_faults fold_max_ge(2) [of _ xs last_slot 0] by (simp add: slots_def less_Suc_eq_le)
  have room: "\<not> present (entry a1 1 4)" "F + 1 + slots xs \<le> length a1 div 4096" using eq f xs(1) by (auto split: if_splits)
  then show "arena_ok base (length a1) (F + 1 + slots xs)"
    using k by (simp add: kernel_tables_def arena_ok_def less_eq_div_iff_mult_less_eq)
  show "length a2 = length a1" "user_entries base F (slots xs) xs (entry a1) (entry a2)"
    using map_user_region_ok [OF k room(2,1) xs(1) _ xs(2)] ok xs(3) run by auto
qed

section \<open>Properties\<close>

lemma user_region_walk:
  assumes "map_wf m" "length a \<le> ISIZE_MAX" "base + length a \<le> 2 ^ 52" "build base a m c = Some (a1, Inr r)"
    and "max_identity_bytes c \<le> USER_BASE" "pt_tables_used r \<le> F" "F * 4096 \<le> U64_MAX"
    and "map_user_region base a1 0 (F * 4096) xs = Some (a2, Inr u)" "xs \<noteq> []" "mappings_apart xs" "\<forall>x \<in> set xs. mp_paddr x + mp_size x \<le> 2 ^ 52"
  shows "(\<forall>x \<in> set xs. \<forall>d < mp_size x. walk (entry a2) base 0 (mp_vaddr x + d) =
      Some \<lparr> phys = mp_paddr x + d, may_write = mp_writable x, may_user = True \<rparr>) \<and>
    (\<forall>va. USER_BASE \<le> va \<and> va < 2 ^ 48 \<and> (\<forall>x \<in> set xs. va \<notin> {mp_vaddr x ..< mp_vaddr x + mp_size x}) \<longrightarrow> walk (entry a2) base 0 va = None) \<and>
    (\<forall>va < USER_BASE. walk (entry a2) base 0 va = walk (entry a1) base 0 va)"
proof -
  obtain fine where K: "kernel_tables base a1 F" "kernel_entries base m (pds_of c) (pts_of c) (pt_limit r) fine (entry a1)"
    "2 + pds_of c + pts_of c \<le> F" "pds_of c \<le> 4" using built_tables [OF assms(1-7)] by metis
  note R = region_tables [OF K(1) assms(8-11)]
  have n: "slots xs \<le> 512" using R(1) by (intro slots_bound) blast
  note walk = walk_user_region [OF R(2) K(3,4,2) R(4) _ _ R(1) n]
  have "walk (entry a2) base 0 (mp_vaddr x + d) = Some \<lparr> phys = mp_paddr x + d, may_write = mp_writable x, may_user = True \<rparr>"
    if x: "x \<in> set xs" "d < mp_size x" for x d
  proof -
    have ok: "mapping_ok x" using R(1) x(1) by blast
    have i: "d div 4096 < mp_size x div 4096" using ok x(2) by (auto simp: mapping_ok_def intro: less_mult_imp_div_less)
    have va: "mp_vaddr x + d - USER_BASE = page_no x (d div 4096) * 4096 + d mod 4096"
      using page_no_facts(1) [OF ok i] div_mult_mod_eq [of d 4096] by linarith
    have "user_leaf xs ((mp_vaddr x + d - USER_BASE) div 4096) = Some (leaf x (d div 4096))"
      using user_leaf_Some [OF assms(10) _ x(1) i] R(1) unfolding va by simp
    moreover have "USER_BASE \<le> mp_vaddr x + d" "mp_vaddr x + d < 2 ^ 48" using ok x(2) by (auto simp: mapping_ok_def rust_consts)
    ultimately show ?thesis
      using leaf_translation [OF ok i] assms(11) x(1) by (simp add: walk va)
  qed
  moreover have "walk (entry a2) base 0 va = None"
    if va: "USER_BASE \<le> va" "va < 2 ^ 48" "\<forall>x \<in> set xs. va \<notin> {mp_vaddr x ..< mp_vaddr x + mp_size x}" for va
  proof -
    have "user_leaf xs ((va - USER_BASE) div 4096) = None"
      unfolding user_leaf_None
    proof (intro ballI allI impI notI)
      fix x i assume x: "x \<in> set xs" "i < mp_size x div 4096" "page_no x i = (va - USER_BASE) div 4096"
      then have "mp_vaddr x + i * 4096 + (va - USER_BASE) mod 4096 = va"
        using page_no_facts(1) [of x i] R(1) va(1) div_mult_mod_eq [of "va - USER_BASE" 4096] by fastforce
      moreover have "(va - USER_BASE) mod 4096 < 4096" by simp
      ultimately have "va \<in> {mp_vaddr x ..< mp_vaddr x + mp_size x}" using page_in_size [OF x(2)] by simp
      then show False using va(3) x(1) by blast
    qed
    then show ?thesis using walk [OF va(1,2)] by simp
  qed
  moreover have "walk (entry a2) base 0 va = walk (entry a1) base 0 va" if "va < USER_BASE" for va
    by (rule walk_below_user [OF R(2) K(3,2) R(4) that])
  ultimately show ?thesis by blast
qed

text \<open>
  C22.  A user region added to the kernel's identity map, with mappings that do not overlap: every address
  of a mapping is translated to its place in the mapping's physical range, for user mode, and is
  writable exactly when the mapping is; every other address from \<open>USER_BASE\<close> on faults; every address
  below \<open>USER_BASE\<close> is translated exactly as before, so never for user mode.
\<close>

theorem user_region_maps:
  assumes "map_wf m" "length a \<le> ISIZE_MAX" "base + length a \<le> 2 ^ 52" "build base a m c = Some (a1, Inr r)"
    and "max_identity_bytes c \<le> USER_BASE" "pt_tables_used r \<le> F" "F * 4096 \<le> U64_MAX"
    and "map_user_region base a1 0 (F * 4096) xs = Some (a2, Inr u)" "xs \<noteq> []" "mappings_apart xs" "\<forall>x \<in> set xs. mp_paddr x + mp_size x \<le> 2 ^ 52"
  shows "(\<forall>x \<in> set xs. \<forall>d < mp_size x. walk (entry a2) base 0 (mp_vaddr x + d) =
      Some \<lparr> phys = mp_paddr x + d, may_write = mp_writable x, may_user = True \<rparr>) \<and>
    (\<forall>va. USER_BASE \<le> va \<and> va < 2 ^ 48 \<and> (\<forall>x \<in> set xs. va \<notin> {mp_vaddr x ..< mp_vaddr x + mp_size x}) \<longrightarrow> walk (entry a2) base 0 va = None) \<and>
    (\<forall>va < USER_BASE. walk (entry a2) base 0 va = walk (entry a1) base 0 va)"
  using user_region_walk [OF assms] .

text \<open>The regions of the witnesses, on ten zero pages at 2 MiB: a read-only image page and a stack of four pages.\<close>

definition sample_mappings :: "Mapping list" where
  "sample_mappings = [\<lparr> mp_vaddr = USER_BASE, mp_paddr = 1048576, mp_size = 4096, mp_writable = False \<rparr>,
     \<lparr> mp_vaddr = USER_BASE + 2097152, mp_paddr = 1052672, mp_size = 16384, mp_writable = True \<rparr>]"

lemma sample_mappings_ok:
  "sample_mappings \<noteq> []" "\<forall>x \<in> set sample_mappings. mapping_ok x \<and> mp_paddr x + mp_size x \<le> 2 ^ 52" "mappings_apart sample_mappings"
  "slots sample_mappings = 2" "(\<Sum>x \<leftarrow> sample_mappings. mp_size x) = 20480"
  by (auto simp: sample_mappings_def mapping_ok_def mappings_apart_def slots_def last_slot_def rust_consts)

lemma sample_region:
  "\<exists>a1 r a2. build 2097152 (replicate 40960 0) sample_map PagingConfig_M2 = Some (a1, Inr r) \<and> pt_tables_used r = 7 \<and>
     kernel_tables 2097152 a1 7 \<and> \<not> present (entry a1 1 4) \<and> length a1 = 40960 \<and>
     map_user_region 2097152 a1 0 (7 * 4096) sample_mappings = Some (a2, Inr \<lparr> um_mapped_bytes = 20480, um_tables_used = 3 \<rparr>)"
proof -
  have c: "0 < build_limit 17825792 PagingConfig_M2" "max_identity_bytes PagingConfig_M2 \<le> MAX_IDENTITY_SUPPORTED"
    "fine_grained_bytes PagingConfig_M2 \<le> MAX_FINE_GRAINED_SUPPORTED" "table_pages PagingConfig_M2 = 7" "max_identity_bytes PagingConfig_M2 \<le> USER_BASE"
    by (simp_all add: build_limit_def PagingConfig_M2_def table_pages_def pds_of_def pts_of_def div_ceil_def rust_consts)
  have l: "arena_ok 2097152 (length (replicate 40960 (0 :: u8))) (table_pages PagingConfig_M2)"
    "length (replicate 40960 (0 :: u8)) \<le> ISIZE_MAX" "2097152 + length (replicate 40960 (0 :: u8)) \<le> 2 ^ 52"
    by (simp_all add: arena_ok_def c(4) ISIZE_MAX_def)
  obtain a1 r where b: "build 2097152 (replicate 40960 0) sample_map PagingConfig_M2 = Some (a1, Inr r)" "pt_tables_used r = 7" "length a1 = 40960"
    using build_ok [OF l(1) sample_map_wf sample_top c(1-3) refl refl] c(4) by auto
  obtain fine where k: "kernel_tables 2097152 a1 7" "\<not> present (entry a1 1 4)"
    using built_tables [OF sample_map_wf l(2,3) b(1) c(5), of 7] b(2) by (auto simp: U64_MAX_def)
  have "7 + 1 + slots sample_mappings \<le> length a1 div 4096" by (simp add: b(3) sample_mappings_ok(4))
  then show ?thesis using map_user_region_ok [OF k(1) _ k(2) sample_mappings_ok(1-3)] b k unfolding sample_mappings_ok(4,5) by auto
qed

theorem user_region_maps_witness:
  "\<exists>a1 r a2 u. build 2097152 (replicate 40960 0) sample_map PagingConfig_M2 = Some (a1, Inr r) \<and>
     map_user_region 2097152 a1 0 (7 * 4096) sample_mappings = Some (a2, Inr u) \<and>
     walk (entry a2) 2097152 0 (USER_BASE + 5) = Some \<lparr> phys = 1048581, may_write = False, may_user = True \<rparr> \<and>
     walk (entry a2) 2097152 0 (USER_BASE + 4096) = None"
proof -
  obtain a1 r a2 where s: "build 2097152 (replicate 40960 0) sample_map PagingConfig_M2 = Some (a1, Inr r)" "pt_tables_used r = 7"
    "map_user_region 2097152 a1 0 (7 * 4096) sample_mappings = Some (a2, Inr \<lparr> um_mapped_bytes = 20480, um_tables_used = 3 \<rparr>)"
    using sample_region by blast
  have "(\<forall>x \<in> set sample_mappings. \<forall>d < mp_size x. walk (entry a2) 2097152 0 (mp_vaddr x + d) =
      Some \<lparr> phys = mp_paddr x + d, may_write = mp_writable x, may_user = True \<rparr>) \<and>
    (\<forall>va. USER_BASE \<le> va \<and> va < 2 ^ 48 \<and> (\<forall>x \<in> set sample_mappings. va \<notin> {mp_vaddr x ..< mp_vaddr x + mp_size x}) \<longrightarrow>
      walk (entry a2) 2097152 0 va = None) \<and>
    (\<forall>va < USER_BASE. walk (entry a2) 2097152 0 va = walk (entry a1) 2097152 0 va)"
    using s sample_mappings_ok
    by (intro user_region_maps [OF sample_map_wf _ _ s(1)]) (auto simp: PagingConfig_M2_def MAX_IDENTITY_BYTES_def U64_MAX_def ISIZE_MAX_def USER_BASE_def)
  then have "\<forall>d < 4096. walk (entry a2) 2097152 0 (USER_BASE + d) = Some \<lparr> phys = 1048576 + d, may_write = False, may_user = True \<rparr>"
    "walk (entry a2) 2097152 0 (USER_BASE + 4096) = None"
    by (auto simp: sample_mappings_def USER_BASE_def)
  moreover from this(1) have "walk (entry a2) 2097152 0 (USER_BASE + 5) = Some \<lparr> phys = 1048581, may_write = False, may_user = True \<rparr>"
    by (auto dest: spec [of _ 5])
  ultimately show ?thesis using s by blast
qed



text \<open>
  The end of a mapping is computed without a check: a mapping from the user region whose end is
  beyond the 64-bit address space is not reported as out of range, the addition overflows.
\<close>

theorem mapping_end_overflows:
  assumes "4096 dvd base" "4096 dvd p" "4096 dvd f" "USER_BASE \<le> mp_vaddr x" "U64_MAX < mp_vaddr x + mp_size x"
  shows "map_user_region base a p f (x # xs) = None"
proof -
  have "uadd USER_BASE USER_MAX_BYTES = Some (USER_BASE + USER_MAX_BYTES)" by (simp add: uadd_def rust_consts)
  then show ?thesis
    using assms by (simp add: map_user_region_def is_multiple_of_def PAGE_SIZE_def dvd_eq_mod_eq_0 check_mapping_def vaddr_end_def uadd_def Let_def)
qed

theorem mapping_end_overflows_witness:
  "map_user_region 0 [] 0 0 [\<lparr> mp_vaddr = USER_BASE, mp_paddr = 0, mp_size = 18446744073709547520, mp_writable = True \<rparr>] = None"
  by (rule mapping_end_overflows) (simp_all add: rust_consts)

end
