(* ===== verification/Kernel_Memory.thy ===== *)
theory Kernel_Memory
  imports Lock Frame_Allocator Heap_Contract Boot_Info User_Map
begin

text \<open>
  The kernel's memory initialisation and its shared allocators: \<^verbatim>\<open>src/crates/kernel/src/memory.rs\<close> and
  \<^verbatim>\<open>src/crates/kernel/src/heap.rs\<close>.

  The machine is a record: the processor with its lock counter, the control registers the code reads and
  writes, physical memory as a function from addresses to bytes, and the statics of the two modules.
  The page-table arena and the frame bitmap are statics with an address of their own; every other access
  through a raw pointer goes to \<open>k_mem\<close>.
\<close>

section \<open>The machine\<close>

record HeapState =
  heap_list :: FreeList
  heap_base :: u64
  heap_len :: usize

record Kernel =
  k_cpu :: Cpu
  k_cr0 :: u64
  k_cr3 :: u64
  k_cr4 :: u64
  k_efer :: u64
  k_mem :: "nat \<Rightarrow> u8"
  k_arena_at :: u64
  k_arena :: bytes
  k_bitmap_at :: u64
  k_bitmap :: bytes
  k_frames :: "FrameAllocator option SpinLock"
  k_free_after_init :: u64
  k_heap :: "HeapState SpinLock"

text \<open>A slice made from an address and a length, and the effect of writing one.\<close>

definition raw_slice :: "(nat \<Rightarrow> u8) \<Rightarrow> u64 \<Rightarrow> usize \<Rightarrow> bytes" where
  "raw_slice m a n = map m [a..<a + n]"

definition raw_store :: "(nat \<Rightarrow> u8) \<Rightarrow> u64 \<Rightarrow> bytes \<Rightarrow> nat \<Rightarrow> u8" where
  "raw_store m a bs x = (if a \<le> x \<and> x < a + length bs then bs ! (x - a) else m x)"

text \<open>The \<open>?\<close> operator on a computation that also changes a state.\<close>

definition try_then :: "('s \<times> ('e + 'a)) panics \<Rightarrow> ('s \<Rightarrow> 'a \<Rightarrow> ('s \<times> ('e + 'b)) panics) \<Rightarrow> ('s \<times> ('e + 'b)) panics" where
  "try_then p f = do { (s, r) \<leftarrow> p; case r of Inl e \<Rightarrow> Some (s, Inl e) | Inr v \<Rightarrow> f s v }"

section \<open>Constants and errors\<close>

definition KERNEL_TABLE_PAGES :: usize where [rust_consts]: "KERNEL_TABLE_PAGES = the (tables_needed MAX_IDENTITY_BYTES BLOCK_SIZE)"
definition USER_TABLE_PAGES :: usize where [rust_consts]: "USER_TABLE_PAGES = 4"
definition ARENA_PAGES :: usize where [rust_consts]: "ARENA_PAGES = KERNEL_TABLE_PAGES + USER_TABLE_PAGES"
definition ARENA_BYTES :: usize where [rust_consts]: "ARENA_BYTES = ARENA_PAGES * PAGE_SIZE"
definition FRAME_BITMAP_BYTES :: usize where [rust_consts]: "FRAME_BITMAP_BYTES = the (bitmap_bytes ((MAX_IDENTITY_BYTES - MIN_FREE_ADDR) div PAGE_SIZE))"
definition OWNED_RANGES :: usize where [rust_consts]: "OWNED_RANGES = MAX_RESERVED_RANGES"
definition HEAP_SIZE :: usize where [rust_consts]: "HEAP_SIZE = 1024 * 1024"

definition CR0_PG :: u64 where [rust_consts]: "CR0_PG = push_bit 31 1"
definition CR4_PAE :: u64 where [rust_consts]: "CR4_PAE = push_bit 5 1"
definition CR4_LA57 :: u64 where [rust_consts]: "CR4_LA57 = push_bit 12 1"
definition CR4_PCIDE :: u64 where [rust_consts]: "CR4_PCIDE = push_bit 17 1"
definition CR4_OSFXSR :: u64 where [rust_consts]: "CR4_OSFXSR = push_bit 9 1"
definition EFER_LMA :: u64 where [rust_consts]: "EFER_LMA = push_bit 10 1"

datatype CpuModeProblem = PagingOff | PaeOff | FiveLevelPaging | NotInLongMode | PcideEnabled

text \<open>The invariants a self-check can report, one constructor per message.\<close>

datatype Invariant = NoFreeFrame | SameFrameTwice | FreeFailed | NotLowestFirst | DoubleFreeAccepted
  | ReservedFrameFree | OwnedFrameFree | HeapFrameCount
  | HeapLength | BlockLength | BlockOutside | BlocksOverlap | ReadBackDiffers | SurvivorDamaged | ReplacementOutside
  | ReplacementOverlaps | NotMerged | OversizeLayout | OversizeAccepted

datatype MemoryError = UnexpectedCpuMode CpuModeProblem | ArenaOutsideKernel u64 | MapFailed MapError | BuildFailed BuildError
  | BootInfoLostAfterSwitch | FramesFailed FrameInitError | HeapRegionUnavailable usize | SelfCheck nat Invariant u64

record MemoryLayout =
  layout_limit :: u64
  layout_frames :: FrameStats
  layout_heap :: "u64 \<times> usize"

section \<open>Page tables\<close>

definition check_cpu_mode :: "Kernel \<Rightarrow> MemoryError + unit" where
  "check_cpu_mode k = (let
     problem =
       (if k_cr0 k AND CR0_PG = 0 then Some PagingOff
        else if k_cr4 k AND CR4_PAE = 0 then Some PaeOff
        else if k_cr4 k AND CR4_LA57 \<noteq> 0 then Some FiveLevelPaging
        else if k_efer k AND EFER_LMA = 0 then Some NotInLongMode
        else if k_cr4 k AND CR4_PCIDE \<noteq> 0 then Some PcideEnabled
        else None) in
     case problem of Some detail \<Rightarrow> Inl (UnexpectedCpuMode detail) | None \<Rightarrow> Inr ())"

definition cr4_osfxsr :: "Kernel \<Rightarrow> bool" where
  "cr4_osfxsr k = (k_cr4 k AND CR4_OSFXSR \<noteq> 0)"

definition boot_info_memory_map :: "Kernel \<Rightarrow> BootInfo \<Rightarrow> (MemoryError + MemoryMap) panics" where
  "boot_info_memory_map k bi =
     (if mmap_desc_size bi < DESCRIPTOR_MIN_SIZE then Some (Inl (MapFailed (StrideTooSmall (mmap_desc_size bi))))
      else case buffer_len (mmap_len bi) (mmap_desc_size bi) of
        None \<Rightarrow> Some (Inl (MapFailed (TooLarge (mmap_len bi) (mmap_desc_size bi))))
      | Some n \<Rightarrow> do {
          r \<leftarrow> from_bytes (raw_slice (k_mem k) (mmap_ptr bi) n) (mmap_len bi) (mmap_desc_size bi) (mmap_desc_ver bi);
          Some (case r of Inl e \<Rightarrow> Inl (MapFailed e) | Inr m \<Rightarrow> Inr m)
        })"

definition write_cr3 :: "Kernel \<Rightarrow> u64 \<Rightarrow> Kernel" where
  "write_cr3 k v = k\<lparr>k_cr3 := v\<rparr>"

definition install_tables :: "Kernel \<Rightarrow> BootInfo \<Rightarrow> MemoryMap \<Rightarrow> (Kernel \<times> (MemoryError + PageTables)) panics" where
  "install_tables k bi m = do {
     (a, r) \<leftarrow> build (k_arena_at k) (k_arena k) m PagingConfig_M2;
     let k = k\<lparr>k_arena := a\<rparr>;
     case r of
       Inl e \<Rightarrow> Some (k, Inl (BuildFailed e))
     | Inr tables \<Rightarrow> (let k = write_cr3 k (pml4_phys tables) in
         Some (k, case boot_info_validate bi of Inl _ \<Rightarrow> Inl BootInfoLostAfterSwitch | Inr _ \<Rightarrow> Inr tables))
   }"

definition install :: "Kernel \<Rightarrow> BootInfo \<Rightarrow> (Kernel \<times> (MemoryError + PageTables)) panics" where
  "install k bi =
     (case check_cpu_mode k of
        Inl e \<Rightarrow> Some (k, Inl e)
      | Inr _ \<Rightarrow> (let arena_address = k_arena_at k; kernel_end = saturating_add (kernel_base bi) (kernel_size bi) in
          if arena_address < kernel_base bi \<or> arena_address \<ge> kernel_end then Some (k, Inl (ArenaOutsideKernel arena_address))
          else do {
            r \<leftarrow> boot_info_memory_map k bi;
            case r of Inl e \<Rightarrow> Some (k, Inl e) | Inr m \<Rightarrow> install_tables k bi m
          }))"

definition page_arena :: "Kernel \<Rightarrow> u64 \<times> bytes \<times> usize \<times> usize" where
  "page_arena k = (k_arena_at k, k_arena k, 0, KERNEL_TABLE_PAGES * PAGE_SIZE)"

section \<open>Frames\<close>

definition with_frames :: "(FrameAllocator option \<Rightarrow> (FrameAllocator option \<times> 'r) panics) \<Rightarrow> Kernel \<Rightarrow> (Kernel \<times> 'r) panics" where
  "with_frames f k = do {
     ((c, l), r) \<leftarrow> with_lock f (k_cpu k) (k_frames k);
     Some (k\<lparr>k_cpu := c, k_frames := l\<rparr>, r)
   }"

text \<open>The body of an access after \<open>as_mut().expect(...)\<close>.\<close>

definition expect_frames :: "(FrameAllocator \<Rightarrow> (FrameAllocator \<times> 'r) panics) \<Rightarrow> FrameAllocator option \<Rightarrow> (FrameAllocator option \<times> 'r) panics" where
  "expect_frames f slot = do { fa \<leftarrow> slot; (fa, r) \<leftarrow> f fa; Some (Some fa, r) }"

definition alloc_frames :: "Kernel \<Rightarrow> usize \<Rightarrow> (Kernel \<times> PhysRange option) panics" where
  "alloc_frames k n = with_frames (expect_frames (\<lambda>fa. alloc_contiguous fa n)) k"

function free_loop :: "FrameAllocator \<Rightarrow> u64 \<Rightarrow> u64 \<Rightarrow> (FrameAllocator \<times> (FreeError + unit)) panics" where
  "free_loop fa address stop =
     (if address < stop then
        try_then (frame_free fa \<lparr> frame_address = address \<rparr>) (\<lambda>fa _. do {
          address \<leftarrow> uadd address PAGE_SIZE;
          free_loop fa address stop
        })
      else Some (fa, Inr ()))"
  by pat_completeness auto

termination
  by (relation "measure (\<lambda>(fa, address, stop). stop - address)") (auto simp: panic_simps rust_consts)

declare free_loop.simps [simp del]

definition free_frames :: "Kernel \<Rightarrow> PhysRange \<Rightarrow> (Kernel \<times> (FreeError + unit)) panics" where
  "free_frames k g = with_frames (expect_frames (\<lambda>fa. do { stop \<leftarrow> range_end g; free_loop fa (range_start g) stop })) k"

definition frames_free :: "Kernel \<Rightarrow> (Kernel \<times> u64) panics" where
  "frames_free k = with_frames (expect_frames (\<lambda>fa. Some (fa, stat_free (frame_stats fa)))) k"

definition page_range :: "u64 \<Rightarrow> u64 \<Rightarrow> ReservedRange" where
  "page_range start n =
     (if n = 0 then \<lparr> rsv_start = 0, rsv_end = 0 \<rparr>
      else let first = and_not start (PAGE_SIZE - 1);
               last = and_not (saturating_add (saturating_add start n) (PAGE_SIZE - 1)) (PAGE_SIZE - 1) in
        \<lparr> rsv_start = first, rsv_end = last \<rparr>)"

definition owned_ranges :: "Kernel \<Rightarrow> u64 \<Rightarrow> BootInfo \<Rightarrow> ReservedRange list" where
  "owned_ranges k bi_at bi = (let
     arena = k_arena_at k;
     bitmap = k_bitmap_at k;
     mmap_bytes = saturating_mul (mmap_len bi) (mmap_desc_size bi);
     boot_info_page = and_not bi_at (PAGE_SIZE - 1);
     stack_start = saturating_sub (stack_top bi) (stack_size bi) in
     [page_range (kernel_base bi) (kernel_size bi),
      page_range stack_start (stack_size bi),
      page_range boot_info_page PAGE_SIZE,
      page_range (mmap_ptr bi) mmap_bytes,
      page_range arena ARENA_BYTES,
      page_range bitmap FRAME_BITMAP_BYTES,
      \<lparr> rsv_start = 0, rsv_end = 0 \<rparr>,
      \<lparr> rsv_start = 0, rsv_end = 0 \<rparr>])"

section \<open>The kernel heap\<close>

definition heap_new :: "HeapState SpinLock" where
  "heap_new = spin_lock_new \<lparr> heap_list = fl_empty, heap_base = 0, heap_len = 0 \<rparr>"

definition with_heap :: "(HeapState \<times> (nat \<Rightarrow> u8) \<Rightarrow> ((HeapState \<times> (nat \<Rightarrow> u8)) \<times> 'r) panics) \<Rightarrow> Kernel \<Rightarrow> (Kernel \<times> 'r) panics" where
  "with_heap f k = do {
     ((c, l), m, r) \<leftarrow> with_lock (\<lambda>h. do { ((h, m), r) \<leftarrow> f (h, k_mem k); Some (h, m, r) }) (k_cpu k) (k_heap k);
     Some (k\<lparr>k_cpu := c, k_heap := l, k_mem := m\<rparr>, r)
   }"

definition heap_init :: "Kernel \<Rightarrow> u64 \<Rightarrow> usize \<Rightarrow> (Kernel \<times> unit) panics" where
  "heap_init k base n = with_heap (\<lambda>(h, m). do {
     (fl, arena) \<leftarrow> fl_init (raw_slice m base n);
     Some ((\<lparr> heap_list = fl, heap_base = base, heap_len = n \<rparr>, raw_store m base arena), ())
   }) k"

definition heap_region :: "Kernel \<Rightarrow> (Kernel \<times> u64 \<times> usize) panics" where
  "heap_region k = with_heap (\<lambda>(h, m). Some ((h, m), heap_base h, heap_len h)) k"

definition heap_alloc :: "Kernel \<Rightarrow> usize \<Rightarrow> usize \<Rightarrow> (Kernel \<times> u64) panics" where
  "heap_alloc k sz align = with_heap (\<lambda>(h, m).
     if heap_len h = 0 \<or> heap_base h = 0 then Some ((h, m), 0)
     else do {
       (fl, arena, r) \<leftarrow> fl_alloc (heap_list h) (raw_slice m (heap_base h) (heap_len h)) sz align;
       p \<leftarrow> (case r of Some offset \<Rightarrow> uadd (heap_base h) offset | None \<Rightarrow> Some 0);
       Some ((h\<lparr>heap_list := fl\<rparr>, raw_store m (heap_base h) arena), p)
     }) k"

definition heap_dealloc :: "Kernel \<Rightarrow> u64 \<Rightarrow> (Kernel \<times> unit) panics" where
  "heap_dealloc k address = with_heap (\<lambda>(h, m).
     if heap_len h = 0 \<or> heap_base h = 0 \<or> address = 0 then Some ((h, m), ())
     else do {
       outside \<leftarrow> (if address < heap_base h then Some True else do { e \<leftarrow> uadd (heap_base h) (heap_len h); Some (address \<ge> e) });
       if outside then Some ((h, m), ())
       else do {
         offset \<leftarrow> usub address (heap_base h);
         (fl, arena, _) \<leftarrow> fl_dealloc (heap_list h) (raw_slice m (heap_base h) (heap_len h)) offset;
         Some ((h\<lparr>heap_list := fl\<rparr>, raw_store m (heap_base h) arena), ())
       }
     }) k"

definition heap_stats :: "Kernel \<Rightarrow> (Kernel \<times> HeapStats) panics" where
  "heap_stats k = with_heap (\<lambda>(h, m). Some ((h, m), fl_stats (heap_list h))) k"

section \<open>Initialisation\<close>

definition take_heap :: "Kernel \<Rightarrow> u64 \<Rightarrow> FrameStats \<Rightarrow> (Kernel \<times> (MemoryError + MemoryLayout)) panics" where
  "take_heap k limit stats_before = do {
     let heap_frames = HEAP_SIZE div PAGE_SIZE;
     (k, region) \<leftarrow> alloc_frames k heap_frames;
     case region of
       None \<Rightarrow> Some (k, Inl (HeapRegionUnavailable heap_frames))
     | Some region \<Rightarrow> do {
         (k, _) \<leftarrow> heap_init k (range_start region) HEAP_SIZE;
         (k, free) \<leftarrow> frames_free k;
         Some (k, Inr \<lparr> layout_limit = limit, layout_frames = \<lparr> stat_managed = stat_managed stats_before, stat_free = free \<rparr>,
           layout_heap = (range_start region, HEAP_SIZE) \<rparr>)
       }
   }"

definition init_allocators :: "Kernel \<Rightarrow> u64 \<Rightarrow> BootInfo \<Rightarrow> u64 \<Rightarrow> (Kernel \<times> (MemoryError + MemoryLayout)) panics" where
  "init_allocators k bi_at bi limit = do {
     r \<leftarrow> boot_info_memory_map k bi;
     case r of
       Inl e \<Rightarrow> Some (k, Inl e)
     | Inr m \<Rightarrow> do {
         let owned = owned_ranges k bi_at bi;
         r \<leftarrow> frame_init (k_bitmap k) m owned (config_new (min limit MAX_IDENTITY_BYTES));
         case r of
           Inl e \<Rightarrow> Some (k, Inl (FramesFailed e))
         | Inr allocator \<Rightarrow> do {
             let stats_before = frame_stats allocator;
             let k = k\<lparr>k_free_after_init := stat_free stats_before\<rparr>;
             (k, _) \<leftarrow> with_frames (\<lambda>_. Some (Some allocator, ())) k;
             take_heap k limit stats_before
           }
       }
   }"

section \<open>The self-check of the frame allocator\<close>

definition failure :: "nat \<Rightarrow> Invariant \<Rightarrow> u64 \<Rightarrow> MemoryError" where
  "failure step what address = SelfCheck step what address"

definition check_alloc :: "FrameAllocator \<Rightarrow> (FrameAllocator \<times> (MemoryError + PhysFrame)) panics" where
  "check_alloc fa = do {
     (fa, r) \<leftarrow> frame_alloc fa;
     Some (fa, case r of None \<Rightarrow> Inl (failure 6 NoFreeFrame 0) | Some f \<Rightarrow> Inr f)
   }"

definition check_free :: "FrameAllocator \<Rightarrow> PhysFrame \<Rightarrow> (FrameAllocator \<times> (MemoryError + unit)) panics" where
  "check_free fa f = do {
     (fa, r) \<leftarrow> frame_free fa f;
     Some (fa, case r of Inl _ \<Rightarrow> Inl (failure 6 FreeFailed (frame_address f)) | Inr _ \<Rightarrow> Inr ())
   }"

fun check_none_free :: "Invariant \<Rightarrow> FrameAllocator \<Rightarrow> ReservedRange list \<Rightarrow> (MemoryError + unit) panics" where
  "check_none_free what fa [] = Some (Inr ())"
| "check_none_free what fa (r # rs) = do {
     found \<leftarrow> first_free_in fa (rsv_start r) (rsv_end r);
     case found of
       Some f \<Rightarrow> Some (Inl (failure 6 what (frame_address f)))
     | None \<Rightarrow> check_none_free what fa rs
   }"

definition check_counts :: "u64 \<Rightarrow> FrameAllocator \<Rightarrow> (MemoryError + unit) panics" where
  "check_counts before fa = do {
     let expected = HEAP_SIZE div PAGE_SIZE;
     let stats = frame_stats fa;
     n \<leftarrow> uadd (stat_free stats) expected;
     Some (if n \<noteq> before then Inl (failure 6 HeapFrameCount (stat_free stats)) else Inr ())
   }"

definition check_ranges :: "ReservedRange list \<Rightarrow> u64 \<Rightarrow> FrameAllocator \<Rightarrow> (FrameAllocator \<times> (MemoryError + unit)) panics" where
  "check_ranges owned before fa = do {
     rs \<leftarrow> reserved_ranges fa;
     r \<leftarrow> check_none_free ReservedFrameFree fa rs;
     case r of
       Inl e \<Rightarrow> Some (fa, Inl e)
     | Inr _ \<Rightarrow> do {
         r \<leftarrow> check_none_free OwnedFrameFree fa owned;
         case r of
           Inl e \<Rightarrow> Some (fa, Inl e)
         | Inr _ \<Rightarrow> do { r \<leftarrow> check_counts before fa; Some (fa, r) }
       }
   }"

definition frame_checks :: "ReservedRange list \<Rightarrow> u64 \<Rightarrow> FrameAllocator \<Rightarrow> (FrameAllocator \<times> (MemoryError + unit)) panics" where
  "frame_checks owned before fa =
     try_then (check_alloc fa) (\<lambda>fa first.
     try_then (check_alloc fa) (\<lambda>fa second.
     if first = second then Some (fa, Inl (failure 6 SameFrameTwice (frame_address first)))
     else
     try_then (check_free fa first) (\<lambda>fa _.
     try_then (check_free fa second) (\<lambda>fa _.
     try_then (check_alloc fa) (\<lambda>fa again.
     if again \<noteq> first then Some (fa, Inl (failure 6 NotLowestFirst (frame_address again)))
     else
     try_then (check_free fa again) (\<lambda>fa _. do {
       (fa, r) \<leftarrow> frame_free fa again;
       if \<not> isl r then Some (fa, Inl (failure 6 DoubleFreeAccepted (frame_address again)))
       else check_ranges owned before fa
     }))))))"

definition frame_self_check :: "Kernel \<Rightarrow> u64 \<Rightarrow> BootInfo \<Rightarrow> (Kernel \<times> (MemoryError + unit)) panics" where
  "frame_self_check k bi_at bi =
     with_frames (expect_frames (frame_checks (owned_ranges k bi_at bi) (k_free_after_init k))) k"

section \<open>Locked access\<close>

definition kernel_idle :: "Kernel \<Rightarrow> bool" where
  "kernel_idle k \<longleftrightarrow> cpu_ok (k_cpu k) \<and> \<not> locked (k_frames k) \<and> \<not> locked (k_heap k)"

definition frames_of :: "Kernel \<Rightarrow> FrameAllocator option" where
  "frames_of k = lock_value (k_frames k)"

definition set_frames :: "FrameAllocator option \<Rightarrow> Kernel \<Rightarrow> Kernel" where
  "set_frames fa k = k\<lparr>k_frames := (k_frames k)\<lparr>lock_value := fa\<rparr>\<rparr>"

definition set_heap :: "HeapState \<Rightarrow> (nat \<Rightarrow> u8) \<Rightarrow> Kernel \<Rightarrow> Kernel" where
  "set_heap h m k = k\<lparr>k_heap := (k_heap k)\<lparr>lock_value := h\<rparr>, k_mem := m\<rparr>"

text \<open>With the locks free, a locked access is the access.\<close>

lemma with_frames_eq: "kernel_idle k \<Longrightarrow> with_frames f k = map_option (\<lambda>(fa, r). (set_frames fa k, r)) (f (frames_of k))"
  by (cases "f (frames_of k)")
    (auto simp: with_frames_def kernel_idle_def with_lock_eq frames_of_def set_frames_def)

lemma with_heap_eq: "kernel_idle k \<Longrightarrow>
    with_heap f k = map_option (\<lambda>((h, m), r). (set_heap h m k, r)) (f (lock_value (k_heap k), k_mem k))"
  by (cases "f (lock_value (k_heap k), k_mem k)")
    (auto simp: with_heap_def kernel_idle_def with_lock_eq set_heap_def)

lemma idle_updates [simp]:
  "kernel_idle (set_frames fa k) = kernel_idle k" "kernel_idle (set_heap h m k) = kernel_idle k"
  "kernel_idle (k\<lparr>k_free_after_init := n\<rparr>) = kernel_idle k"
  "frames_of (set_frames fa k) = fa" "frames_of (set_heap h m k) = frames_of k" "frames_of (k\<lparr>k_free_after_init := n\<rparr>) = frames_of k"
  "lock_value (k_heap (set_heap h m k)) = h" "k_mem (set_heap h m k) = m" "lock_value (k_heap (set_frames fa k)) = lock_value (k_heap k)"
  "k_mem (set_frames fa k) = k_mem k"
  by (simp_all add: kernel_idle_def set_frames_def set_heap_def frames_of_def)

lemma alloc_frames_eq: "kernel_idle k \<Longrightarrow> frames_of k = Some fa \<Longrightarrow>
    alloc_frames k n = map_option (\<lambda>(fa, r). (set_frames (Some fa) k, r)) (alloc_contiguous fa n)"
  by (cases "alloc_contiguous fa n") (auto simp: alloc_frames_def with_frames_eq expect_frames_def)

lemma frames_free_eq: "kernel_idle k \<Longrightarrow> frames_of k = Some fa \<Longrightarrow> frames_free k = Some (k, fa_free_frames fa)"
  by (auto simp: frames_free_def with_frames_eq expect_frames_def frame_stats_def set_frames_def frames_of_def)

lemma raw_slice_store: "length bs = n \<Longrightarrow> raw_slice (raw_store m a bs) a n = bs"
  by (rule nth_equalityI) (simp_all add: raw_slice_def raw_store_def)

lemma length_raw_slice [simp]: "length (raw_slice m a n) = n"
  by (simp add: raw_slice_def)

section \<open>The memory map\<close>

lemma memory_map_cases:
  obtains (error) e where "boot_info_memory_map k bi = Some (Inl (MapFailed e))"
  | (map) m where "boot_info_memory_map k bi = Some (Inr m)" "map_wf m"
proof (cases "DESCRIPTOR_MIN_SIZE \<le> mmap_desc_size bi \<and> 0 < mmap_len bi \<and> mmap_len bi * mmap_desc_size bi \<le> U64_MAX")
  case True
  let ?bs = "raw_slice (k_mem k) (mmap_ptr bi) (mmap_len bi * mmap_desc_size bi)"
  obtain r where r: "from_bytes ?bs (mmap_len bi) (mmap_desc_size bi) (mmap_desc_ver bi) = Some r"
    using True by (subst (asm) from_bytes_shape) (auto simp: Let_def)
  then have "boot_info_memory_map k bi = Some (case r of Inl e \<Rightarrow> Inl (MapFailed e) | Inr m \<Rightarrow> Inr m)"
    using True by (simp add: boot_info_memory_map_def buffer_len_def umul_def not_less)
  moreover have "map_wf m" if "r = Inr m" for m using from_bytes_wf(1) [OF r [unfolded that]] True by simp
  ultimately show thesis using error map by (cases r) auto
next
  case False
  then have "\<exists>e. boot_info_memory_map k bi = Some (Inl (MapFailed e))"
    by (auto simp: boot_info_memory_map_def buffer_len_def umul_def from_bytes_def not_le)
  then show thesis using error by blast
qed

lemma arena_constants: "KERNEL_TABLE_PAGES = 7" "ARENA_BYTES = 45056" "FRAME_BITMAP_BYTES = 262080"
  by (simp_all add: ARENA_BYTES_def ARENA_PAGES_def KERNEL_TABLE_PAGES_def FRAME_BITMAP_BYTES_def tables_needed_def bitmap_bytes_def
      uadd_def umul_def div_ceil_def rust_consts)

lemma install_tables_eq:
  assumes m: "map_wf m" and arena: "length (k_arena k) = ARENA_BYTES" "k_arena_at k + ARENA_BYTES \<le> 2 ^ 52"
  shows "\<exists>a r. build (k_arena_at k) (k_arena k) m PagingConfig_M2 = Some (a, r) \<and> length a = ARENA_BYTES \<and>
    install_tables k bi m = Some (case r of
        Inl e \<Rightarrow> (k, Inl (BuildFailed e))
      | Inr t \<Rightarrow> (k\<lparr>k_arena := a, k_cr3 := k_arena_at k\<rparr>,
          case boot_info_validate bi of Inl _ \<Rightarrow> Inl BootInfoLostAfterSwitch | Inr _ \<Rightarrow> Inr t))"
proof -
  have l: "length (k_arena k) \<le> ISIZE_MAX" "k_arena_at k + length (k_arena k) \<le> 2 ^ 52"
    using arena by (simp_all add: arena_constants ISIZE_MAX_def)
  have same: "k\<lparr>k_arena := k_arena k\<rparr> = k" by simp
  from m l show ?thesis
  proof (cases rule: build_cases [where c = PagingConfig_M2])
    case (ok t)
    then obtain a r where b: "build (k_arena_at k) (k_arena k) m PagingConfig_M2 = Some (a, Inr r)" "length a = length (k_arena k)" "pml4_phys r = k_arena_at k"
      using build_ok [OF ok(1) m ok(2-5) refl refl] by auto
    then show ?thesis using arena by (auto simp: install_tables_def write_cr3_def Let_def)
  qed (auto simp: install_tables_def same arena)
qed

section \<open>Properties\<close>


text \<open>
  The machine of the witnesses: the kernel at 2 MiB with its statics, the stack above it, then the boot
  record and the memory map, 16 MiB of RAM from 1 MiB.
\<close>

definition sample_boot :: BootInfo where
  "sample_boot = boot_info_new\<lparr>mmap_ptr := 3215360, mmap_len := 2, mmap_desc_size := 48, mmap_desc_ver := 1,
     kernel_base := 2097152, kernel_size := 1048576, stack_top := 3211264, stack_size := 65536\<rparr>"

definition zeroes :: "nat \<Rightarrow> bytes" where
  "zeroes n = replicate n 0"

lemma length_zeroes [simp]: "length (zeroes n) = n"
  by (simp add: zeroes_def)

definition sample_kernel :: Kernel where
  "sample_kernel = \<lparr> k_cpu = \<lparr> rflags = 2, held = 0 \<rparr>, k_cr0 = 2147483649, k_cr3 = 1052672, k_cr4 = 544, k_efer = 1280,
     k_mem = raw_store (\<lambda>_. 0) 3215360 sample_bytes, k_arena_at = 2097152, k_arena = zeroes 45056,
     k_bitmap_at = 2142208, k_bitmap = zeroes 262080, k_frames = spin_lock_new None, k_free_after_init = 0, k_heap = heap_new \<rparr>"

lemma sample_memory_map: "boot_info_memory_map sample_kernel sample_boot = Some (Inr sample_map)"
proof -
  have l: "length sample_bytes = 96" by (simp add: sample_bytes_def length_encoded) (simp add: sample_regions_def)
  then have bs: "raw_slice (k_mem sample_kernel) 3215360 96 = sample_bytes" by (simp add: sample_kernel_def raw_slice_store)
  have m: "\<lparr> map_bytes = sub sample_bytes 0 (2 * 48), map_entries = 2, map_stride = 48, map_version = 1 \<rparr> = sample_map"
    by (simp add: sample_map_def sub_def l)
  have "from_bytes sample_bytes 2 48 1 = Some (Inr sample_map)"
    by (subst from_bytes_shape)
      (simp_all only: m Let_def sample_regions_of, simp_all add: l rust_consts upt_rec sample_regions_def region_stop_def)
  then show ?thesis
    using bs by (simp add: boot_info_memory_map_def sample_boot_def buffer_len_def umul_def DESCRIPTOR_MIN_SIZE_def U64_MAX_def)
qed

lemma sample_install: "\<exists>k t. install sample_kernel sample_boot = Some (k, Inr t)"
proof -
  have v: "check_cpu_mode sample_kernel = Inr ()"
    by (simp add: check_cpu_mode_def sample_kernel_def rust_consts push_bit_eq_mult)
  have b: "boot_info_validate sample_boot = Inr ()"
    by (simp add: boot_info_validate_def sample_boot_def boot_info_new_def boot_info_default_def expected_size_def BOOT_INFO_VERSION_def)
  have c: "0 < build_limit 17825792 PagingConfig_M2" "max_identity_bytes PagingConfig_M2 \<le> MAX_IDENTITY_SUPPORTED"
    "fine_grained_bytes PagingConfig_M2 \<le> MAX_FINE_GRAINED_SUPPORTED" "table_pages PagingConfig_M2 = 7"
    by (simp_all add: build_limit_def PagingConfig_M2_def table_pages_def pds_of_def pts_of_def div_ceil_def rust_consts)
  have "arena_ok (k_arena_at sample_kernel) (length (k_arena sample_kernel)) (table_pages PagingConfig_M2)"
    by (simp add: arena_ok_def sample_kernel_def c(4) ISIZE_MAX_def)
  then obtain a r where "build (k_arena_at sample_kernel) (k_arena sample_kernel) sample_map PagingConfig_M2 = Some (a, Inr r)"
    using build_ok [OF _ sample_map_wf sample_top c(1-3) refl refl] by blast
  then show ?thesis
    using v b sample_memory_map
    by (simp add: install_def install_tables_def Let_def) (simp add: sample_kernel_def sample_boot_def saturating_add_def U64_MAX_def)
qed


end
