(* ===== verification/Kernel_Allocators.thy ===== *)
theory Kernel_Allocators
  imports Kernel_Memory
begin

text \<open>
  What the allocators promise once \<open>init_allocators\<close> of \<^verbatim>\<open>src/crates/kernel/src/memory.rs\<close> has run: the
  memory the kernel owns, the heap and the free frames are apart, the frame allocator passes its
  self-check, and the heap of \<^verbatim>\<open>src/crates/kernel/src/heap.rs\<close> serves aligned areas.
\<close>

section \<open>Reserved ranges cover what they are made from\<close>

lemma page_floor: "x \<le> U64_MAX \<Longrightarrow> and_not x (PAGE_SIZE - 1) = x div 4096 * 4096"
  using and_not_mask [of x 12] by (simp add: PAGE_SIZE_def)

lemma page_range_covers:
  assumes "start + n + PAGE_SIZE \<le> U64_MAX" "0 < n"
  shows "rsv_start (page_range start n) \<le> start" "start + n \<le> rsv_end (page_range start n)"
proof -
  have f: "and_not start (PAGE_SIZE - 1) = start div 4096 * 4096" using assms by (intro page_floor) simp
  have l: "and_not (start + n + 4095) (PAGE_SIZE - 1) = (start + n + 4095) div 4096 * 4096" using assms by (intro page_floor) (simp add: PAGE_SIZE_def)
  have s: "saturating_add (saturating_add start n) (PAGE_SIZE - 1) = start + n + 4095" using assms by (simp add: saturating_add_def PAGE_SIZE_def)
  have "start + n \<le> (start + n + 4095) div 4096 * 4096" using div_mult_mod_eq [of "start + n + 4095" 4096] mod_less_divisor [of 4096 "start + n + 4095"] by linarith
  then show "rsv_start (page_range start n) \<le> start" "start + n \<le> rsv_end (page_range start n)"
    using assms(2) by (simp_all add: page_range_def Let_def f [simplified] s [simplified] l [simplified])
qed

lemma page_range_end: "rsv_end (page_range start n) \<le> U64_MAX"
proof -
  have "and_not x (PAGE_SIZE - 1) \<le> U64_MAX" if "x \<le> U64_MAX" for x
    using page_floor [OF that] div_times_less_eq_dividend [of x 4096] that by linarith
  then show ?thesis by (simp add: page_range_def Let_def saturating_add_def)
qed

text \<open>The byte ranges the kernel must never hand out.\<close>

definition owned_bytes :: "Kernel \<Rightarrow> u64 \<Rightarrow> BootInfo \<Rightarrow> (nat \<times> nat) list" where
  "owned_bytes k bi_at bi =
     [(kernel_base bi, kernel_size bi), (stack_top bi - stack_size bi, stack_size bi), (bi_at div PAGE_SIZE * PAGE_SIZE, PAGE_SIZE),
      (mmap_ptr bi, mmap_len bi * mmap_desc_size bi), (k_arena_at k, ARENA_BYTES), (k_bitmap_at k, FRAME_BITMAP_BYTES)]"

definition owned_fit :: "Kernel \<Rightarrow> u64 \<Rightarrow> BootInfo \<Rightarrow> bool" where
  "owned_fit k bi_at bi \<longleftrightarrow> bi_at \<le> U64_MAX \<and> (\<forall>(s, n) \<in> set (owned_bytes k bi_at bi). s + n + PAGE_SIZE \<le> U64_MAX)"

lemma owned_ranges_eq:
  assumes "owned_fit k bi_at bi"
  shows "owned_ranges k bi_at bi = map (\<lambda>(s, n). page_range s n) (owned_bytes k bi_at bi) @ replicate 2 \<lparr> rsv_start = 0, rsv_end = 0 \<rparr>"
proof -
  have "and_not bi_at (PAGE_SIZE - 1) = bi_at div PAGE_SIZE * PAGE_SIZE"
    using page_floor [of bi_at] assms by (simp add: owned_fit_def PAGE_SIZE_def)
  moreover have "saturating_mul (mmap_len bi) (mmap_desc_size bi) = mmap_len bi * mmap_desc_size bi"
    using assms by (simp add: owned_fit_def owned_bytes_def saturating_mul_def)
  ultimately show ?thesis by (simp add: owned_ranges_def owned_bytes_def saturating_sub_def Let_def numeral_2_eq_2)
qed

lemma unreserved_apart:
  assumes fit: "owned_fit k bi_at bi" and free: "\<forall>q \<in> set (owned_ranges k bi_at bi). \<not> rsv_overlaps q a (a + PAGE_SIZE)"
    and own: "(s, n) \<in> set (owned_bytes k bi_at bi)"
  shows "{s ..< s + n} \<inter> {a ..< a + PAGE_SIZE} = {}"
proof (cases "n = 0")
  case False
  have "\<not> rsv_overlaps (page_range s n) a (a + PAGE_SIZE)" using free own unfolding owned_ranges_eq [OF fit] by force
  moreover have "rsv_start (page_range s n) \<le> s" "s + n \<le> rsv_end (page_range s n)"
    using fit own False by (auto simp: owned_fit_def intro!: page_range_covers)
  ultimately show ?thesis by (auto simp: rsv_overlaps_def)
qed simp

section \<open>Initialisation of the frame allocator\<close>

lemma frame_init_kernel:
  assumes "map_wf m" "disjoint_conventional (regions_of m)" "length bitmap = FRAME_BITMAP_BYTES" "length rsv = 8"
  obtains (error) e where "frame_init bitmap m rsv (config_new (min limit MAX_IDENTITY_BYTES)) = Some (Inl e)"
    "\<forall>i < min limit MAX_IDENTITY_BYTES div PAGE_SIZE - 256. \<not> usable_frame m rsv 1048576 ((256 + i) * PAGE_SIZE)"
  | (frames) fa where "frame_init bitmap m rsv (config_new (min limit MAX_IDENTITY_BYTES)) = Some (Inr fa)" "fa_inv fa"
    "fa_first_frame fa = 256" "fa_frames fa = min limit MAX_IDENTITY_BYTES div PAGE_SIZE - 256" "take (fa_reserved_len fa) (fa_reserved fa) = rsv"
    "free_set fa = {i. i < fa_frames fa \<and> usable_frame m rsv 1048576 (frame_addr fa i)}"
proof -
  let ?c = "config_new (min limit MAX_IDENTITY_BYTES)"
  have c: "div_ceil (managed_start ?c) PAGE_SIZE = 256" "config_limit ?c = min limit MAX_IDENTITY_BYTES"
    by (simp_all add: config_new_def div_ceil_def rust_consts)
  have l: "config_limit ?c \<le> U64_MAX" "config_limit ?c div PAGE_SIZE \<le> 1048576"
    unfolding c by (auto simp: rust_consts min_def intro!: div_le_mono [of _ 4294967296 4096, simplified])
  show thesis
  proof (cases "256 < config_limit ?c div PAGE_SIZE")
    case True
    have "div_ceil (config_limit ?c div PAGE_SIZE - 256) 8 \<le> 131040" using l(2) by (intro div_ceil_le) simp
    then have "2 * div_ceil (config_limit ?c div PAGE_SIZE - div_ceil (managed_start ?c) PAGE_SIZE) 8 \<le> length bitmap"
      using assms(3) unfolding c(1) by (simp add: arena_constants)
    then obtain fa where fa: "frame_init bitmap m rsv ?c = Some (if free_set fa = {} then Inl NoUsableMemory else Inr fa)" "fa_inv fa"
      "fa_first_frame fa = 256" "fa_frames fa = config_limit ?c div PAGE_SIZE - 256" "take (fa_reserved_len fa) (fa_reserved fa) = rsv"
      "free_set fa = {i. i < fa_frames fa \<and> usable_frame m rsv (256 * PAGE_SIZE) (frame_addr fa i)}"
      using frame_init_eq [OF assms(1,2) _ l(1), of rsv bitmap] assms(4) True unfolding c(1) by auto
    have "256 * PAGE_SIZE = 1048576" by (simp add: PAGE_SIZE_def)
    note free = fa(6) [unfolded this] and n = fa(4) [unfolded c(2)]
    show thesis
    proof (cases "free_set fa = {}")
      case True
      then have "\<forall>i < fa_frames fa. \<not> usable_frame m rsv 1048576 (frame_addr fa i)" using free by blast
      then show thesis using error [of NoUsableMemory] fa(1,3) True unfolding n frame_addr_def by simp
    next
      case False
      then show thesis using frames [OF _ fa(2,3) n fa(5) free] fa(1) by simp
    qed
  next
    case False
    then have "frame_init bitmap m rsv ?c = Some (Inl (EmptyRange (managed_start ?c) (config_limit ?c)))"
      using assms(4) c(1) by (simp add: frame_init_def MAX_RESERVED_RANGES_def)
    then show thesis using False by (intro error) (auto simp: c(2))
  qed
qed

section \<open>Taking the heap\<close>

lemma set_frames_same: "frames_of k = fa \<Longrightarrow> set_frames fa k = k"
  by (auto simp: set_frames_def frames_of_def)

lemma heap_constants: "HEAP_SIZE div PAGE_SIZE = 256" "256 * PAGE_SIZE = HEAP_SIZE"
  by (simp_all add: rust_consts)

lemma heap_init_eq:
  assumes "kernel_idle k"
  shows "\<exists>fl a. heap_init k b HEAP_SIZE =
      Some (set_heap \<lparr> heap_list = fl, heap_base = b, heap_len = HEAP_SIZE \<rparr> (raw_store (k_mem k) b a) k, ()) \<and>
    length a = HEAP_SIZE \<and> heap_reach fl a {}"
proof -
  have l: "length (raw_slice (k_mem k) b HEAP_SIZE) \<le> ISIZE_MAX" "40 \<le> length (raw_slice (k_mem k) b HEAP_SIZE) div 8 * 8"
    by (simp_all add: rust_consts)
  obtain fl a where f: "fl_init (raw_slice (k_mem k) b HEAP_SIZE) = Some (fl, a)" "length a = HEAP_SIZE"
    using fl_init_eq(2) [OF l] by auto
  then show ?thesis
    using heap_reach.init [OF l f(1)] by (intro exI [of _ fl] exI [of _ a]) (simp add: heap_init_def with_heap_eq [OF assms])
qed

lemma take_heap_cases:
  assumes k: "kernel_idle k" and fa: "frames_of k = Some fa" "fa_inv fa"
  obtains (none) "take_heap k limit st = Some (k, Inl (HeapRegionUnavailable 256))" "\<forall>s. \<not> is_run (free_set fa) 256 s"
  | (heap) s fa' fl a where "take_heap k limit st =
      Some (set_heap \<lparr> heap_list = fl, heap_base = frame_addr fa s, heap_len = HEAP_SIZE \<rparr> (raw_store (k_mem k) (frame_addr fa s) a)
          (set_frames (Some fa') k),
        Inr \<lparr> layout_limit = limit, layout_frames = \<lparr> stat_managed = stat_managed st, stat_free = fa_free_frames fa' \<rparr>,
          layout_heap = (frame_addr fa s, HEAP_SIZE) \<rparr>)"
      "is_run (free_set fa) 256 s" "fa_inv fa'" "fa_frame fa' = fa_frame fa" "free_set fa' = free_set fa - {s..<s + 256}"
      "length a = HEAP_SIZE" "heap_reach fl a {}"
proof -
  obtain fa' r where r: "alloc_contiguous fa 256 = Some (fa', r)" "fa_inv fa'" "fa_frame fa' = fa_frame fa"
    "case r of None \<Rightarrow> fa' = fa \<and> (\<forall>s. \<not> is_run (free_set fa) 256 s)
      | Some g \<Rightarrow> \<exists>s. first_run (free_set fa) 256 (Some s) \<and> g = \<lparr> range_start = frame_addr fa s, range_len = 256 * PAGE_SIZE \<rparr> \<and>
         free_set fa' = free_set fa - {s..<s + 256}"
    using alloc_contiguous_eq [OF fa(2), of 256] by auto
  note al = alloc_frames_eq [OF k fa(1), of 256, unfolded r(1)]
  show thesis
  proof (cases r)
    case None
    then show thesis using none r(4) al by (simp add: take_heap_def heap_constants set_frames_same fa(1) Let_def)
  next
    case (Some g)
    then obtain s where s: "is_run (free_set fa) 256 s" "g = \<lparr> range_start = frame_addr fa s, range_len = 256 * PAGE_SIZE \<rparr>"
      "free_set fa' = free_set fa - {s..<s + 256}" using r(4) by (auto simp: first_run_def)
    let ?k = "set_frames (Some fa') k"
    have k': "kernel_idle ?k" using k by simp
    obtain fl a where h: "heap_init ?k (frame_addr fa s) HEAP_SIZE =
        Some (set_heap \<lparr> heap_list = fl, heap_base = frame_addr fa s, heap_len = HEAP_SIZE \<rparr> (raw_store (k_mem k) (frame_addr fa s) a) ?k, ())"
      "length a = HEAP_SIZE" "heap_reach fl a {}" using heap_init_eq [OF k', of "frame_addr fa s"] by (auto simp: idle_updates)
    have "frames_free (set_heap h m ?k) = Some (set_heap h m ?k, fa_free_frames fa')" for h m
      using k by (intro frames_free_eq) simp_all
    then show thesis
      using heap [OF _ s(1) r(2,3) s(3) h(2,3)] al h(1) by (simp add: take_heap_def heap_constants Some s(2) Let_def)
  qed
qed

section \<open>Where the heap lies\<close>

abbreviation frame_bytes :: "FrameAllocator \<Rightarrow> nat \<Rightarrow> nat set" where
  "frame_bytes fa i \<equiv> {frame_addr fa i ..< frame_addr fa i + 4096}"

lemma frame_bytes_disjoint: "i \<noteq> j \<Longrightarrow> frame_bytes fa i \<inter> frame_bytes fa j = {}"
  by (cases "i < j") (auto simp: frame_addr_def PAGE_SIZE_def)

lemma run_bytes: "{frame_addr fa s ..< frame_addr fa s + c * 4096} = (\<Union>i \<in> {s ..< s + c}. frame_bytes fa i)"
proof (intro set_eqI iffI)
  fix x assume x: "x \<in> {frame_addr fa s ..< frame_addr fa s + c * 4096}"
  let ?i = "s + (x - frame_addr fa s) div 4096"
  have "(x - frame_addr fa s) div 4096 < c" using x by (auto intro: less_mult_imp_div_less)
  moreover have "x \<in> frame_bytes fa ?i"
    using x div_mult_mod_eq [of "x - frame_addr fa s" 4096] mod_less_divisor [of 4096 "x - frame_addr fa s"]
    by (simp add: frame_addr_def PAGE_SIZE_def) linarith
  ultimately show "x \<in> (\<Union>i \<in> {s ..< s + c}. frame_bytes fa i)" by auto
qed (auto simp: frame_addr_def PAGE_SIZE_def)

lemma run_subset: "is_run F c s \<Longrightarrow> {s ..< s + c} \<subseteq> F"
  by (simp add: is_run_def)

lemma heap_placement:
  assumes fit: "owned_fit k bi_at bi" and run: "is_run (free_set fa) 256 s"
    and free: "free_set fa = {i. i < fa_frames fa \<and> usable_frame m (owned_ranges k bi_at bi) 1048576 (frame_addr fa i)}"
  shows "\<forall>p < 256. \<exists>g \<in> set (regions_of m). region_kind g = Conventional \<and>
      region_base g \<le> frame_addr fa s + p * 4096 \<and> frame_addr fa s + p * 4096 < region_stop g"
    and "\<forall>(x, l) \<in> set (owned_bytes k bi_at bi). {x ..< x + l} \<inter> {frame_addr fa s ..< frame_addr fa s + HEAP_SIZE} = {}"
    and "\<forall>i \<in> free_set fa - {s ..< s + 256}. \<forall>(x, l) \<in> set ((frame_addr fa s, HEAP_SIZE) # owned_bytes k bi_at bi).
      {x ..< x + l} \<inter> frame_bytes fa i = {}"
proof -
  let ?b = "frame_addr fa s"
  note sub = run_subset [OF run]
  have usable: "\<forall>q \<in> set (owned_ranges k bi_at bi). \<not> rsv_overlaps q (frame_addr fa i) (frame_addr fa i + PAGE_SIZE)"
    "\<exists>g \<in> set (regions_of m). region_kind g = Conventional \<and> region_base g \<le> frame_addr fa i \<and> frame_addr fa i < region_stop g"
    if "i \<in> free_set fa" for i
    using that unfolding free usable_frame_def by blast+
  have apart: "{x ..< x + l} \<inter> frame_bytes fa i = {}" if "i \<in> free_set fa" "(x, l) \<in> set (owned_bytes k bi_at bi)" for i x l
    using unreserved_apart [OF fit usable(1) [OF that(1)] that(2)] by (simp add: PAGE_SIZE_def)
  have bytes: "{?b ..< ?b + HEAP_SIZE} = (\<Union>i \<in> {s ..< s + 256}. frame_bytes fa i)"
    using run_bytes [of fa s 256] by (simp add: HEAP_SIZE_def)
  have heap_apart: "{x ..< x + l} \<inter> {?b ..< ?b + HEAP_SIZE} = {}" if "(x, l) \<in> set (owned_bytes k bi_at bi)" for x l
    using apart [OF _ that] sub unfolding bytes by blast
  have free_apart: "{x ..< x + l} \<inter> frame_bytes fa i = {}" if "i \<in> free_set fa - {s ..< s + 256}" "(x, l) \<in> set ((?b, HEAP_SIZE) # owned_bytes k bi_at bi)" for i x l
  proof (cases "(x, l) = (?b, HEAP_SIZE)")
    case True
    have "frame_bytes fa j \<inter> frame_bytes fa i = {}" if "j \<in> {s ..< s + 256}" for j
      using \<open>i \<in> free_set fa - {s ..< s + 256}\<close> that by (intro frame_bytes_disjoint) auto
    then have "{?b ..< ?b + HEAP_SIZE} \<inter> frame_bytes fa i = {}" unfolding bytes by blast
    then show ?thesis using True by simp
  next
    case False
    then show ?thesis using apart [of i x l] that by auto
  qed
  have pages: "\<exists>g \<in> set (regions_of m). region_kind g = Conventional \<and> region_base g \<le> ?b + p * 4096 \<and> ?b + p * 4096 < region_stop g"
    if "p < 256" for p
  proof -
    have "s + p \<in> free_set fa" "frame_addr fa (s + p) = ?b + p * 4096" using sub that by (auto simp: frame_addr_def PAGE_SIZE_def)
    then show ?thesis using usable(2) [of "s + p"] by simp
  qed
  show "\<forall>p < 256. \<exists>g \<in> set (regions_of m). region_kind g = Conventional \<and> region_base g \<le> ?b + p * 4096 \<and> ?b + p * 4096 < region_stop g"
    using pages by blast
  show "\<forall>(x, l) \<in> set (owned_bytes k bi_at bi). {x ..< x + l} \<inter> {?b ..< ?b + HEAP_SIZE} = {}" using heap_apart by blast
  show "\<forall>i \<in> free_set fa - {s ..< s + 256}. \<forall>(x, l) \<in> set ((?b, HEAP_SIZE) # owned_bytes k bi_at bi). {x ..< x + l} \<inter> frame_bytes fa i = {}"
    using free_apart by blast
qed

text \<open>A megabyte of usable frames below the limit, from the \<open>s\<close>-th frame above 1 MiB on.\<close>

definition usable_run :: "MemoryMap \<Rightarrow> ReservedRange list \<Rightarrow> nat \<Rightarrow> nat \<Rightarrow> bool" where
  "usable_run m rsv limit s \<longleftrightarrow> (\<forall>i < 256. s + i < min limit MAX_IDENTITY_BYTES div PAGE_SIZE - 256 \<and>
     usable_frame m rsv 1048576 ((256 + (s + i)) * PAGE_SIZE))"

lemma usable_run_eq:
  assumes "fa_first_frame fa = 256" "fa_frames fa = min limit MAX_IDENTITY_BYTES div PAGE_SIZE - 256"
    "free_set fa = {i. i < fa_frames fa \<and> usable_frame m rsv 1048576 (frame_addr fa i)}"
  shows "usable_run m rsv limit s \<longleftrightarrow> is_run (free_set fa) 256 s"
proof -
  have "{s ..< s + 256} \<subseteq> F \<longleftrightarrow> (\<forall>i < 256. s + i \<in> F)" for F
  proof (intro iffI subsetI)
    fix x assume "\<forall>i < 256. s + i \<in> F" "x \<in> {s ..< s + 256}"
    then show "x \<in> F" using spec [of "\<lambda>i. i < 256 \<longrightarrow> s + i \<in> F" "x - s"] by auto
  qed auto
  then show ?thesis using assms by (simp add: usable_run_def frame_addr_def is_run_def)
qed

lemma init_allocators_cases:
  assumes k: "kernel_idle k" "length (k_bitmap k) = FRAME_BITMAP_BYTES"
    and m: "boot_info_memory_map k bi = Some (Inr m)" "disjoint_conventional (regions_of m)"
  obtains (error) k' e where "init_allocators k bi_at bi limit = Some (k', Inl e)" "kernel_idle k'"
      "\<forall>s. \<not> usable_run m (owned_ranges k bi_at bi) limit s"
  | (ok) fa s fa' fl a lay k' where "init_allocators k bi_at bi limit = Some (k', Inr lay)"
      "k' = set_heap \<lparr> heap_list = fl, heap_base = frame_addr fa s, heap_len = HEAP_SIZE \<rparr> (raw_store (k_mem k) (frame_addr fa s) a)
          (set_frames (Some fa') (k\<lparr>k_free_after_init := fa_free_frames fa\<rparr>))"
      "layout_heap lay = (frame_addr fa s, HEAP_SIZE)" "stat_free (layout_frames lay) = fa_free_frames fa'"
      "is_run (free_set fa) 256 s" "fa_inv fa" "fa_inv fa'" "fa_frame fa' = fa_frame fa" "free_set fa' = free_set fa - {s..<s + 256}"
      "length a = HEAP_SIZE" "heap_reach fl a {}" "take (fa_reserved_len fa) (fa_reserved fa) = owned_ranges k bi_at bi"
      "free_set fa = {i. i < fa_frames fa \<and> usable_frame m (owned_ranges k bi_at bi) 1048576 (frame_addr fa i)}"
      "usable_run m (owned_ranges k bi_at bi) limit s"
      "fa_first_frame fa = 256" "fa_frames fa = min limit MAX_IDENTITY_BYTES div PAGE_SIZE - 256"
proof -
  have wf: "map_wf m" using m(1) by (cases rule: memory_map_cases [of k bi]) auto
  have len: "length (owned_ranges k bi_at bi) = 8" by (simp add: owned_ranges_def Let_def)
  from wf m(2) k(2) len show thesis
  proof (cases rule: frame_init_kernel [where limit = limit])
    case (error e)
    then show thesis using that(1) [of k] k m(1) by (simp add: init_allocators_def Let_def usable_run_def) (metis add.right_neutral zero_less_numeral)
  next
    case (frames fa)
    let ?k = "set_frames (Some fa) (k\<lparr>k_free_after_init := fa_free_frames fa\<rparr>)"
    have k': "kernel_idle ?k" "frames_of ?k = Some fa" using k(1) by simp_all
    have eq: "init_allocators k bi_at bi limit = take_heap ?k limit (frame_stats fa)"
      using m(1) frames(1) k(1) by (simp add: init_allocators_def with_frames_eq frame_stats_def Let_def)
    have two: "set_frames x (set_frames y K) = set_frames x K" "k_mem ?k = k_mem k" for x y K by (simp_all add: set_frames_def)
    from k' frames(2) show thesis
    proof (cases rule: take_heap_cases [where limit = limit and st = "frame_stats fa"])
      case none
      then show thesis using that(1) k'(1) eq usable_run_eq [OF frames(3,4,6)] by simp
    next
      case (heap s fa' fl a)
      then show thesis using that(2) [OF _ refl _ _ heap(2) frames(2) heap(3-7) frames(5,6)] eq heap(1,2) usable_run_eq [OF frames(3,4,6)] frames(3,4) unfolding two by simp
    qed
  qed
qed

section \<open>The self-check\<close>

lemma first_free_loop_none:
  assumes shape: "fa_shape fa" and fs: "\<forall>f \<in> set fs. f * PAGE_SIZE \<le> U64_MAX \<and> (\<forall>i < fa_frames fa. frame_addr fa i = f * PAGE_SIZE \<longrightarrow> i \<notin> free_set fa)"
  shows "first_free_loop fa fs = Some None"
  using fs
proof (induction fs)
  case (Cons f fs)
  have "do { i \<leftarrow> frame_index fa (f * PAGE_SIZE); case i of None \<Rightarrow> Some False | Some i \<Rightarrow> is_free fa i } = Some False"
  proof (cases "\<exists>i < fa_frames fa. frame_addr fa i = f * PAGE_SIZE")
    case True
    then obtain i where i: "i < fa_frames fa" "frame_addr fa i = f * PAGE_SIZE" by blast
    then show ?thesis using frame_index_addr [OF shape i(1)] is_free_eq [OF shape i(1)] Cons.prems by simp
  next
    case False
    then show ?thesis using frame_index_eq [OF shape, of "f * PAGE_SIZE"] by (auto split: option.splits)
  qed
  then show ?case using Cons by (cases "frame_index fa (f * PAGE_SIZE)") (auto simp: umul_def)
qed simp

lemma check_none_free_ok:
  assumes inv: "fa_inv fa" and rs: "set rs \<subseteq> set (take (fa_reserved_len fa) (fa_reserved fa))" "\<forall>r \<in> set rs. rsv_end r \<le> U64_MAX"
  shows "check_none_free what fa rs = Some (Inr ())"
  using rs
proof (induction rs)
  case (Cons r rs)
  have r: "r \<in> set (take (fa_reserved_len fa) (fa_reserved fa))" using Cons.prems by simp
  have "first_free_in fa (rsv_start r) (rsv_end r) = Some None"
    unfolding first_free_in_def
  proof (intro first_free_loop_none ballI conjI allI impI)
    show "fa_shape fa" using inv by (simp add: fa_inv_def)
    fix f assume "f \<in> set [rsv_start r div PAGE_SIZE ..< div_ceil (rsv_end r) PAGE_SIZE]"
    then have f: "rsv_start r div 4096 \<le> f" "f < div_ceil (rsv_end r) 4096" by (simp_all add: PAGE_SIZE_def)
    have "div_ceil (rsv_end r) 4096 * 4096 < rsv_end r + 4096" by (rule div_ceil_bounds) simp
    then have e: "f * 4096 < rsv_end r" using f(2) by linarith
    have b: "rsv_start r < f * 4096 + 4096" using f(1) div_mult_mod_eq [of "rsv_start r" 4096] mod_less_divisor [of 4096 "rsv_start r"] by linarith
    show "f * PAGE_SIZE \<le> U64_MAX" using e Cons.prems by (simp add: PAGE_SIZE_def)
    fix i assume "i < fa_frames fa" "frame_addr fa i = f * PAGE_SIZE"
    moreover have "reserved_at fa (f * PAGE_SIZE)"
      using r e b by (auto simp: reserved_at_def list_ex_iff rsv_overlaps_def PAGE_SIZE_def)
    ultimately show "i \<notin> free_set fa" using inv by (auto simp: fa_inv_def free_set_def free_at_def)
  qed
  then show ?case using Cons by simp
qed simp

lemma check_alloc_eq:
  assumes "fa_inv fa" "free_set fa \<noteq> {}"
  shows "\<exists>fa'. check_alloc fa = Some (fa', Inr \<lparr> frame_address = frame_addr fa (Min (free_set fa)) \<rparr>) \<and> fa_inv fa' \<and>
    fa_frame fa' = fa_frame fa \<and> free_set fa' = free_set fa - {Min (free_set fa)}"
proof -
  obtain fa' r where r: "frame_alloc fa = Some (fa', r)" "fa_inv fa'" "fa_frame fa' = fa_frame fa"
    "case r of None \<Rightarrow> fa' = fa \<and> free_set fa = {}
     | Some f \<Rightarrow> \<exists>i \<in> free_set fa. (\<forall>j \<in> free_set fa. i \<le> j) \<and> frame_address f = frame_addr fa i \<and> free_set fa' = free_set fa - {i}"
    using frame_alloc_eq [OF assms(1)] by blast
  then obtain f i where f: "r = Some f" "i \<in> free_set fa" "\<forall>j \<in> free_set fa. i \<le> j" "frame_address f = frame_addr fa i" "free_set fa' = free_set fa - {i}"
    using assms(2) by (auto split: option.splits)
  have "i = Min (free_set fa)" using f(2,3) by (intro Min_eqI [symmetric]) auto
  then show ?thesis using r(1-3) f by (auto simp: check_alloc_def)
qed

lemma check_free_eq:
  assumes "fa_inv fa" "i < fa_frames fa" "bm (fa_allocatable fa) i" "i \<notin> free_set fa"
  shows "\<exists>fa'. check_free fa \<lparr> frame_address = frame_addr fa i \<rparr> = Some (fa', Inr ()) \<and> fa_inv fa' \<and>
    fa_frame fa' = fa_frame fa \<and> free_set fa' = insert i (free_set fa)"
  using frame_free_used [OF assms] by (auto simp: check_free_def)

lemma check_ranges_ok:
  assumes inv: "fa_inv fa" and count: "fa_free_frames fa + 256 = before" "before \<le> U64_MAX"
    and own: "take (fa_reserved_len fa) (fa_reserved fa) = owned" "\<forall>r \<in> set owned. rsv_end r \<le> U64_MAX"
  shows "check_ranges owned before fa = Some (fa, Inr ())"
proof -
  have "fa_reserved_len fa \<le> length (fa_reserved fa)" using inv by (auto simp: fa_inv_def fa_shape_def)
  then have "reserved_ranges fa = Some owned" using own(1) by (simp add: reserved_ranges_def slice_def sub_def)
  moreover have "check_none_free what fa owned = Some (Inr ())" for what
    using own by (intro check_none_free_ok [OF inv]) simp_all
  moreover have "check_counts before fa = Some (Inr ())"
    using count by (simp add: check_counts_def heap_constants frame_stats_def uadd_def)
  ultimately show ?thesis by (simp add: check_ranges_def)
qed

lemma free_again:
  assumes "fa_inv fa" "i \<in> free_set fa"
  shows "frame_free fa \<lparr> frame_address = frame_addr fa i \<rparr> = Some (fa, Inl (AlreadyFree (frame_addr fa i)))"
proof -
  have "free_error fa (frame_addr fa i) = Some (AlreadyFree (frame_addr fa i))"
    using assms addr_index [of fa i] by (auto simp: free_error_def fa_inv_def free_set_def free_at_def)
  then show ?thesis using frame_free_eq [OF assms(1), of "\<lparr> frame_address = frame_addr fa i \<rparr>"] by simp
qed

lemma free_frames_le: "fa_inv fa \<Longrightarrow> fa_free_frames fa \<le> U64_MAX"
proof -
  assume inv: "fa_inv fa"
  have "free_set fa \<subseteq> {..<fa_frames fa}" by (auto simp: free_set_def)
  then have "card (free_set fa) \<le> fa_frames fa" using card_mono [of "{..<fa_frames fa}"] by fastforce
  then show ?thesis using inv by (auto simp: fa_inv_def fa_shape_def PAGE_SIZE_def)
qed

lemma frame_checks_ok:
  assumes inv: "fa_inv fa" and two: "2 \<le> card (free_set fa)" and count: "fa_free_frames fa + 256 = before" "before \<le> U64_MAX"
    and own: "take (fa_reserved_len fa) (fa_reserved fa) = owned" "\<forall>r \<in> set owned. rsv_end r \<le> U64_MAX"
  shows "\<exists>fa'. frame_checks owned before fa = Some (fa', Inr ()) \<and> fa_inv fa' \<and> fa_frame fa' = fa_frame fa \<and> free_set fa' = free_set fa"
proof -
  let ?F = "free_set fa"
  define i j where "i = Min ?F" and "j = Min (?F - {i})"
  have "?F \<noteq> {}" "\<not> ?F \<subseteq> {i}" using two card_mono [of "{i}" ?F] by auto
  then have F: "?F \<noteq> {}" "?F - {i} \<noteq> {}" by auto
  have ij: "i \<in> ?F" "j \<in> ?F" "i \<noteq> j" using F Min_in [of ?F] Min_in [of "?F - {i}"] by (auto simp: i_def j_def)
  have sets: "insert i (?F - {i} - {j}) = ?F - {j}" "insert j (?F - {j}) = ?F" "insert i (?F - {i}) = ?F" using ij by auto
  have al: "k \<in> ?F \<Longrightarrow> k < fa_frames fa \<and> bm (fa_allocatable fa) k" for k by (simp add: free_set_def free_at_def)
  obtain fa1 where f1: "check_alloc fa = Some (fa1, Inr \<lparr> frame_address = frame_addr fa i \<rparr>)" "fa_inv fa1" "fa_frame fa1 = fa_frame fa"
    "free_set fa1 = ?F - {i}" using check_alloc_eq [OF inv F(1)] unfolding i_def by blast
  note s1 = fa_frame_simps [OF f1(3)]
  obtain fa2 where f2: "check_alloc fa1 = Some (fa2, Inr \<lparr> frame_address = frame_addr fa j \<rparr>)" "fa_inv fa2" "fa_frame fa2 = fa_frame fa"
    "free_set fa2 = ?F - {i} - {j}" using check_alloc_eq [OF f1(2)] F(2) f1(3,4) s1(2) unfolding j_def by auto
  note s2 = fa_frame_simps [OF f2(3)]
  obtain fa3 where f3: "check_free fa2 \<lparr> frame_address = frame_addr fa i \<rparr> = Some (fa3, Inr ())" "fa_inv fa3" "fa_frame fa3 = fa_frame fa"
    "free_set fa3 = ?F - {j}" using check_free_eq [OF f2(2), of i] al [OF ij(1)] f2(3,4) s2(2,4,5) sets(1) by auto
  note s3 = fa_frame_simps [OF f3(3)]
  obtain fa4 where f4: "check_free fa3 \<lparr> frame_address = frame_addr fa j \<rparr> = Some (fa4, Inr ())" "fa_inv fa4" "fa_frame fa4 = fa_frame fa"
    "free_set fa4 = ?F" using check_free_eq [OF f3(2), of j] al [OF ij(2)] f3(3,4) s3(2,4,5) sets(2) by auto
  note s4 = fa_frame_simps [OF f4(3)]
  obtain fa5 where f5: "check_alloc fa4 = Some (fa5, Inr \<lparr> frame_address = frame_addr fa i \<rparr>)" "fa_inv fa5" "fa_frame fa5 = fa_frame fa"
    "free_set fa5 = ?F - {i}" using check_alloc_eq [OF f4(2)] F(1) f4(3,4) s4(2) unfolding i_def by auto
  note s5 = fa_frame_simps [OF f5(3)]
  obtain fa6 where f6: "check_free fa5 \<lparr> frame_address = frame_addr fa i \<rparr> = Some (fa6, Inr ())" "fa_inv fa6" "fa_frame fa6 = fa_frame fa"
    "free_set fa6 = ?F" using check_free_eq [OF f5(2), of i] al [OF ij(1)] f5(3,4) s5(2,4,5) sets(3) by auto
  note s6 = fa_frame_simps [OF f6(3)]
  have f7: "frame_free fa6 \<lparr> frame_address = frame_addr fa i \<rparr> = Some (fa6, Inl (AlreadyFree (frame_addr fa i)))"
    using free_again [OF f6(2), of i] ij(1) f6(4) s6 by simp
  have "check_ranges owned before fa6 = Some (fa6, Inr ())"
    using inv f6 count own by (intro check_ranges_ok) (auto simp: fa_inv_def fa_frame_def)
  moreover have "frame_addr fa i \<noteq> frame_addr fa j" using ij by (auto simp: frame_addr_inj)
  ultimately have "frame_checks owned before fa = Some (fa6, Inr ())"
    by (simp add: frame_checks_def try_then_def f1(1) f2(1) f3(1) f4(1) f5(1) f6(1) f7)
  then show ?thesis using f6 by blast
qed

section \<open>Properties\<close>


lemma sample_owned_fit: "owned_fit sample_kernel 3211264 sample_boot"
  by (simp add: owned_fit_def owned_bytes_def sample_kernel_def sample_boot_def arena_constants PAGE_SIZE_def U64_MAX_def boot_info_new_def boot_info_default_def)

lemma sample_idle: "kernel_idle sample_kernel" "length (k_bitmap sample_kernel) = FRAME_BITMAP_BYTES"
  by (simp_all add: kernel_idle_def cpu_ok_def sample_kernel_def spin_lock_new_def heap_new_def arena_constants)

lemma sample_owned: "\<forall>q \<in> set (owned_ranges sample_kernel 3211264 sample_boot). 2097152 \<le> rsv_start q \<or> rsv_end q = 0"
proof -
  have "2097152 \<le> rsv_start (page_range x n)" if "2097152 \<le> x" "0 < n" "x \<le> U64_MAX" for x n
    using that page_floor [of x] div_le_mono [of 2097152 x 4096] by (simp add: page_range_def Let_def)
  then show ?thesis
    unfolding owned_ranges_eq [OF sample_owned_fit]
    by (auto simp: owned_bytes_def sample_kernel_def sample_boot_def arena_constants PAGE_SIZE_def U64_MAX_def boot_info_new_def boot_info_default_def)
qed

lemma sample_run: "usable_run sample_map (owned_ranges sample_kernel 3211264 sample_boot) 17825792 0"
proof -
  have no: "\<not> rsv_overlaps q a (a + 4096)" if "q \<in> set (owned_ranges sample_kernel 3211264 sample_boot)" "a + 4096 \<le> 2097152" for q a
    using sample_owned that by (fastforce simp: rsv_overlaps_def)
  have "\<not> rsv_overlaps q ((256 + i) * 4096) ((256 + i) * 4096 + 4096)"
    if "q \<in> set (owned_ranges sample_kernel 3211264 sample_boot)" "i < 256" for q i
    using that by (intro no) simp_all
  moreover have "\<exists>r \<in> set (regions_of sample_map). region_kind r = Conventional \<and> max (region_base r) 1048576 mod PAGE_SIZE = 0 \<and>
      region_base r \<le> (256 + i) * 4096 \<and> (256 + i) * 4096 < region_stop r" if "i < 256" for i
    using that by (simp add: sample_regions_of sample_regions_def region_stop_def PAGE_SIZE_def)
  ultimately show ?thesis
    by (simp add: usable_run_def usable_frame_def PAGE_SIZE_def MAX_IDENTITY_BYTES_def del: distrib_right_numeral)
qed


text \<open>
  After a successful \<open>init_allocators\<close> that left at least two frames free, the allocator's self-check
  passes: every one of its tests succeeds, and it gives back all the frames it took.
\<close>

lemma self_check_after_init:
  assumes "kernel_idle k" "length (k_bitmap k) = FRAME_BITMAP_BYTES" "owned_fit k bi_at bi"
    and "boot_info_memory_map k bi = Some (Inr m)" "disjoint_conventional (regions_of m)"
    and "init_allocators k bi_at bi limit = Some (k', Inr lay)" "2 \<le> stat_free (layout_frames lay)"
  shows "\<exists>fa fa'. frames_of k' = Some fa \<and> frame_self_check k' bi_at bi = Some (set_frames (Some fa') k', Inr ()) \<and>
    fa_inv fa' \<and> fa_frame fa' = fa_frame fa \<and> free_set fa' = free_set fa"
  using assms(1,2,4,5)
proof (cases rule: init_allocators_cases [where bi_at = bi_at and limit = limit])
  case (error k'' e)
  then show ?thesis using assms(6) by simp
next
  case (ok fa s fa' fl a lay' k'')
  have e: "k'' = k'" "lay' = lay" using ok(1) assms(6) by auto
  have k': "kernel_idle k'" "frames_of k' = Some fa'" "k_free_after_init k' = fa_free_frames fa" "owned_ranges k' bi_at bi = owned_ranges k bi_at bi"
    using assms(1) ok(2) unfolding e by (simp_all add: owned_ranges_def set_heap_def set_frames_def frames_of_def kernel_idle_def)
  have "rsv_end q \<le> U64_MAX" if "q \<in> set (owned_ranges k bi_at bi)" for q
    using that assms(3) page_range_end unfolding owned_ranges_eq [OF assms(3)] by (auto simp: owned_fit_def)
  moreover have "fa_free_frames fa' + 256 = fa_free_frames fa"
    using ok(6,7) run_subset [OF ok(5)] card_mono [OF _ run_subset [OF ok(5)]] by (simp add: fa_inv_def ok(9) card_Diff_subset)
  moreover have "fa_free_frames fa \<le> U64_MAX" using free_frames_le [OF ok(6)] .
  moreover have "take (fa_reserved_len fa') (fa_reserved fa') = owned_ranges k bi_at bi" using ok(8,12) by (simp add: fa_frame_def)
  ultimately obtain fa'' where "frame_checks (owned_ranges k bi_at bi) (fa_free_frames fa) fa' = Some (fa'', Inr ())" "fa_inv fa''"
    "fa_frame fa'' = fa_frame fa'" "free_set fa'' = free_set fa'"
    using frame_checks_ok [OF ok(7)] assms(7) ok(4,7) unfolding e by (metis fa_inv_def)
  then show ?thesis
    using k' by (intro exI [of _ fa'] exI [of _ fa'']) (simp add: frame_self_check_def with_frames_eq expect_frames_def)
qed

lemma sample_frames: "usable_frame sample_map (owned_ranges sample_kernel 3211264 sample_boot) 1048576 ((256 + i) * PAGE_SIZE)"
  if "1000 \<le> i" "i < 4096"
proof -
  have u: "rsv_end (page_range x n) \<le> 4194304" if "x + n \<le> 4190208" for x n
  proof -
    have s: "saturating_add (saturating_add x n) (PAGE_SIZE - 1) = x + n + 4095" using that by (simp add: saturating_add_def PAGE_SIZE_def U64_MAX_def)
    have "and_not (x + n + 4095) (PAGE_SIZE - 1) = (x + n + 4095) div 4096 * 4096" using that by (intro page_floor) (simp add: U64_MAX_def)
    moreover have "(x + n + 4095) div 4096 \<le> 1024" using that div_le_mono [of "x + n + 4095" 4194304 4096] by simp
    ultimately show ?thesis unfolding page_range_def s Let_def by simp
  qed
  have "rsv_end q \<le> 4194304" if "q \<in> set (owned_ranges sample_kernel 3211264 sample_boot)" for q
    using that u unfolding owned_ranges_eq [OF sample_owned_fit]
    by (auto simp: owned_bytes_def sample_kernel_def sample_boot_def arena_constants PAGE_SIZE_def)
  then have "\<not> rsv_overlaps q ((256 + i) * 4096) ((256 + i) * 4096 + 4096)" if "q \<in> set (owned_ranges sample_kernel 3211264 sample_boot)" for q
    using that \<open>1000 \<le> i\<close> by (fastforce simp: rsv_overlaps_def)
  then show ?thesis
    using that by (auto simp: usable_frame_def sample_regions_of sample_regions_def region_stop_def PAGE_SIZE_def)
qed

lemma sample_init:
  "\<exists>k lay. init_allocators sample_kernel 3211264 sample_boot 17825792 = Some (k, Inr lay) \<and> 2 \<le> stat_free (layout_frames lay)"
  using sample_idle sample_memory_map sample_disjoint
proof (cases rule: init_allocators_cases [where bi_at = 3211264 and limit = 17825792])
  case (error k' e)
  then show ?thesis using sample_run by blast
next
  case (ok fa s fa' fl a lay k')
  have "{1000 ..< 2000} \<subseteq> free_set fa" using sample_frames unfolding ok(13) by (auto simp: frame_addr_def ok(15,16) rust_consts)
  then have "1000 \<le> card (free_set fa)" using card_mono [of "free_set fa" "{1000 ..< 2000}"] by simp
  moreover have "card (free_set fa') = card (free_set fa) - 256" using run_subset [OF ok(5)] by (simp add: ok(9) card_Diff_subset)
  ultimately have "2 \<le> stat_free (layout_frames lay)" using ok(4,7) by (simp add: fa_inv_def)
  then show ?thesis using ok(1) by blast
qed

end
