(* ===== verification/Kernel_Heap.thy ===== *)
theory Kernel_Heap
  imports Kernel_Allocators
begin

text \<open>
  The kernel's global allocator (\<^verbatim>\<open>src/crates/kernel/src/heap.rs\<close>) over physical memory: what the free list
  promises for offsets into its arena, carried over to addresses.
\<close>

section \<open>The free list keeps the length of its arena\<close>

lemma length_write_header: "write_header a off mg sz nx = Some a' \<Longrightarrow> length a' = length a"
  by (auto simp: write_header_def run_simps)

definition keeps_length :: "nat \<Rightarrow> ('f \<times> 'b list \<times> 'r) panics \<Rightarrow> bool" where
  "keeps_length n p \<longleftrightarrow> (\<forall>fl a r. p = Some (fl, a, r) \<longrightarrow> length a = n)"

lemma keeps_length_simps [simp]: "keeps_length n None" "keeps_length n (Some (fl, a, r)) \<longleftrightarrow> length a = n"
  by (simp_all add: keeps_length_def)

lemma keeps_length_bind: "(\<And>x. p = Some x \<Longrightarrow> keeps_length n (f x)) \<Longrightarrow> keeps_length n (p \<bind> f)"
  by (cases p) (simp_all add: keeps_length_def)

lemma length_carve: "keeps_length (length a) (carve fl a pv cur nx be p fg pe)"
  unfolding carve_def Let_def
  by (auto intro!: keeps_length_bind dest!: length_write_header simp: run_simps split: option.splits if_splits)

lemma length_alloc_loop: "keeps_length (length a) (alloc_loop fl a sz al pv cur g)"
proof (induction "Suc (the (max_blocks fl)) - g" arbitrary: pv cur g rule: less_induct)
  case less
  have "keeps_length (length a) (alloc_loop fl a sz al p c g')" if "uadd g 1 = Some g'" "max_blocks fl = Some mb" "\<not> mb < g'" for p c g' mb
    using that by (intro less.hyps) (auto simp: panic_simps)
  then show ?case
    by (subst alloc_loop.simps) (auto intro!: keeps_length_bind length_carve split: option.split if_split)
qed

lemma length_fl_alloc: "fl_alloc fl a sz al = Some (fl', a', r) \<Longrightarrow> length a' = length a"
  using length_alloc_loop [of a fl sz al NIL "fl_head fl" 0] by (auto simp: fl_alloc_def keeps_length_def split: if_splits)

lemma length_insert_block: "keeps_length (length a) (insert_block fl a h bs be pv cur)"
  unfolding insert_block_def
  by (auto intro!: keeps_length_bind dest!: length_write_header split: option.split if_split sum.split)

lemma length_fl_dealloc: "fl_dealloc fl a off = Some (fl', a', r) \<Longrightarrow> length a' = length a"
proof -
  have "keeps_length (length a) (fl_dealloc fl a off)"
    unfolding fl_dealloc_def by (auto intro!: keeps_length_bind length_insert_block split: option.split if_split sum.split)
  then show "fl_dealloc fl a off = Some (fl', a', r) \<Longrightarrow> length a' = length a" by (simp add: keeps_length_def)
qed

section \<open>The heap in memory\<close>

text \<open>The kernel heap at \<open>b\<close> of \<open>n\<close> bytes, with the areas \<open>A\<close> (offset and length) in use.\<close>

definition heap_holds :: "Kernel \<Rightarrow> nat \<Rightarrow> nat \<Rightarrow> (nat \<times> nat) set \<Rightarrow> bool" where
  "heap_holds k b n A \<longleftrightarrow> kernel_idle k \<and> heap_base (lock_value (k_heap k)) = b \<and> heap_len (lock_value (k_heap k)) = n \<and>
     4096 dvd b \<and> 0 < b \<and> 0 < n \<and> b + n \<le> U64_MAX \<and> heap_reach (heap_list (lock_value (k_heap k))) (raw_slice (k_mem k) b n) A"

lemma raw_store_slice: "raw_store m b (raw_slice m b n) = m"
  by (auto simp: raw_store_def raw_slice_def fun_eq_iff)

lemma raw_slice_sub: "q + l \<le> n \<Longrightarrow> raw_slice m (b + q) l = sub (raw_slice m b n) q l"
  by (rule nth_equalityI) (auto simp: raw_slice_def sub_def ac_simps)

lemma raw_store_outside: "x \<notin> {b ..< b + length bs} \<Longrightarrow> raw_store m b bs x = m x"
  by (auto simp: raw_store_def)

lemma set_heap_same: "h = lock_value (k_heap k) \<Longrightarrow> m = k_mem k \<Longrightarrow> set_heap h m k = k"
  by (simp add: set_heap_def)

lemma heap_holds_store:
  assumes "heap_holds k b n A" "heap_reach fl a B" "length a = n"
  shows "heap_holds (set_heap ((lock_value (k_heap k))\<lparr>heap_list := fl\<rparr>) (raw_store (k_mem k) b a) k) b n B"
  using assms by (simp add: heap_holds_def raw_slice_store)

lemma areas_kept:
  assumes "heap_reach fl a B" "length a = n" "(q, l) \<in> B" "sub a q l = sub (raw_slice m b n) q l"
  shows "raw_slice (raw_store m b a) (b + q) l = raw_slice m (b + q) l"
proof -
  have "q + l \<le> n" using reach_areas(1,3) [OF assms(1)] assms(2,3) le_trans by blast
  then show ?thesis using assms(2,4) by (simp add: raw_slice_sub raw_slice_store)
qed

lemma aligned_base: "is_power_of_two al \<Longrightarrow> al \<le> MAX_ALIGN \<Longrightarrow> 4096 dvd b \<Longrightarrow> al dvd b" for al b :: nat
proof -
  assume al: "is_power_of_two al" "al \<le> MAX_ALIGN" and b: "4096 dvd b"
  then obtain j where j: "al = 2 ^ j" by (auto simp: is_power_of_two_iff)
  then have "j \<le> 12" using al(2) power_le_imp_le_exp [of "2 :: nat" j 12] by (simp add: MAX_ALIGN_def rust_consts)
  then have "al dvd 4096" using j le_imp_power_dvd [of j 12 "2 :: nat"] by simp
  then show ?thesis using b dvd_trans by blast
qed

lemma fl_alloc_Some: "fl_alloc fl a sz al = Some (fl', a', Some p) \<Longrightarrow> is_power_of_two al \<and> al \<le> MAX_ALIGN"
  by (auto simp: fl_alloc_def split: if_splits)

section \<open>Allocating and releasing\<close>

lemma heap_alloc_run:
  assumes "heap_holds k b n A"
  shows "\<exists>k' p. heap_alloc k sz al = Some (k', p) \<and> k' = k\<lparr>k_heap := k_heap k', k_mem := k_mem k'\<rparr> \<and>
    (if p = 0 then k' = k \<and> (sz = 0 \<or> \<not> (is_power_of_two al \<and> al \<le> MAX_ALIGN) \<or>
         hs_largest_free (fl_stats (heap_list (lock_value (k_heap k)))) < (if al \<le> 8 then sz else sz + al + MIN_BLOCK) \<and>
         n div 8 * 8 < (\<Sum>(q, m) \<in> A. m + 70) + (card A + 1) * (sz + al + MIN_BLOCK + 24))
     else al dvd p \<and> b \<le> p \<and> p + sz \<le> b + n \<and> heap_holds k' b n (insert (p - b, sz) A) \<and>
       (\<forall>(q, l) \<in> A. {p ..< p + sz} \<inter> {b + q ..< b + q + l} = {} \<and> raw_slice (k_mem k') (b + q) l = raw_slice (k_mem k) (b + q) l) \<and>
       (\<forall>x. x \<notin> {b ..< b + n} \<longrightarrow> k_mem k' x = k_mem k x))"
proof -
  let ?h = "lock_value (k_heap k)" and ?a = "raw_slice (k_mem k) b n"
  have h: "kernel_idle k" "heap_base ?h = b" "heap_len ?h = n" "4096 dvd b" "0 < b" "0 < n" "b + n \<le> U64_MAX" "heap_reach (heap_list ?h) ?a A"
    using assms by (auto simp: heap_holds_def)
  note spec = reach_alloc [OF h(8), of sz al]
  obtain fl a r where run: "fl_alloc (heap_list ?h) ?a sz al = Some (fl, a, r)" using spec by (auto split: option.splits)
  have len: "length a = n" using length_fl_alloc [OF run] by simp
  have arena: "fl_arena_len (heap_list ?h) = n div 8 * 8" using heap_reach_inv [OF h(8)] by (auto simp: heap_inv_def heap_shape_def)
  let ?k = "set_heap (?h\<lparr>heap_list := fl\<rparr>) (raw_store (k_mem k) b a) k"
  show ?thesis
  proof (cases r)
    case None
    then have u: "fl = heap_list ?h" "a = ?a" "sz = 0 \<or> \<not> (is_power_of_two al \<and> al \<le> MAX_ALIGN) \<or>
        hs_largest_free (fl_stats (heap_list ?h)) < (if al \<le> 8 then sz else sz + al + MIN_BLOCK) \<and>
        n div 8 * 8 < (\<Sum>(q, m) \<in> A. m + 70) + (card A + 1) * (sz + al + MIN_BLOCK + 24)" using spec run arena by auto
    have "?k = k" by (rule set_heap_same) (simp_all add: u(1,2) raw_store_slice)
    then have "heap_alloc k sz al = Some (k, 0)" using h run None by (simp add: heap_alloc_def with_heap_eq)
    then show ?thesis using u(3) by auto
  next
    case (Some p)
    then have u: "al dvd p" "heap_reach fl a (insert (p, sz) A)" "(p, sz) \<notin> A" "\<forall>(q, l) \<in> A. sub a q l = sub ?a q l" using spec run by auto
    note R = reach_areas [OF u(2)]
    have p: "p + sz \<le> n" "0 < p" using R(1) [of p sz] R(2) [of p sz] R(3) len by auto
    have run': "heap_alloc k sz al = Some (?k, b + p)" using h run Some p by (simp add: heap_alloc_def with_heap_eq uadd_def)
    have "{b + p ..< b + p + sz} \<inter> {b + q ..< b + q + l} = {}" if "(q, l) \<in> A" for q l
    proof -
      have "(p, sz) \<noteq> (q, l)" using that u(3) by blast
      then show ?thesis using R(4) [of p sz q l] that by auto
    qed
    moreover have "raw_slice (k_mem ?k) (b + q) l = raw_slice (k_mem k) (b + q) l" if "(q, l) \<in> A" for q l
      using areas_kept [OF u(2) len, of q l "k_mem k" b] that u(4) by auto
    moreover have "al dvd b + p" using u(1) aligned_base [of al b] fl_alloc_Some run Some h(4) by (simp add: dvd_add)
    moreover have "heap_holds ?k b n (insert (p, sz) A)" by (rule heap_holds_store [OF assms u(2) len])
    ultimately show ?thesis
      using run' p len raw_store_outside [of _ b a "k_mem k"] by (intro exI [of _ ?k] exI [of _ "b + p"]) (auto simp: set_heap_def)
  qed
qed

lemma heap_dealloc_run:
  assumes "heap_holds k b n A"
  shows "(\<forall>(q, l) \<in> A. \<exists>k'. heap_dealloc k (b + q) = Some (k', ()) \<and> heap_holds k' b n (A - {(q, l)}) \<and>
      (\<forall>(r, m) \<in> A - {(q, l)}. raw_slice (k_mem k') (b + r) m = raw_slice (k_mem k) (b + r) m) \<and> (\<forall>x. x \<notin> {b ..< b + n} \<longrightarrow> k_mem k' x = k_mem k x) \<and>
      k' = k\<lparr>k_heap := k_heap k', k_mem := k_mem k'\<rparr>) \<and>
    (\<forall>p. p \<notin> {b ..< b + n} \<longrightarrow> heap_dealloc k p = Some (k, ()))"
proof -
  let ?h = "lock_value (k_heap k)" and ?a = "raw_slice (k_mem k) b n"
  have h: "kernel_idle k" "heap_base ?h = b" "heap_len ?h = n" "0 < b" "0 < n" "b + n \<le> U64_MAX" "heap_reach (heap_list ?h) ?a A"
    using assms by (auto simp: heap_holds_def)
  have "\<exists>k'. heap_dealloc k (b + q) = Some (k', ()) \<and> heap_holds k' b n (A - {(q, l)}) \<and>
      (\<forall>(r, m) \<in> A - {(q, l)}. raw_slice (k_mem k') (b + r) m = raw_slice (k_mem k) (b + r) m) \<and> (\<forall>x. x \<notin> {b ..< b + n} \<longrightarrow> k_mem k' x = k_mem k x) \<and>
      k' = k\<lparr>k_heap := k_heap k', k_mem := k_mem k'\<rparr>" if q: "(q, l) \<in> A" for q l
  proof -
    obtain fl a e where d: "fl_dealloc (heap_list ?h) ?a q = Some (fl, a, Inr ())" "heap_reach fl a (A - {(q, l)})"
      "\<forall>(r, m) \<in> A - {(q, l)}. sub a r m = sub ?a r m" using reach_free [OF h(7) q] by blast
    have len: "length a = n" using length_fl_dealloc [OF d(1)] by simp
    have "q < fl_arena_len (heap_list ?h)" using d(1) by (auto simp: fl_dealloc_def split: if_splits)
    then have "q < n" using reach_areas(3) [OF h(7)] by simp
    then have "heap_dealloc k (b + q) = Some (set_heap (?h\<lparr>heap_list := fl\<rparr>) (raw_store (k_mem k) b a) k, ())"
      using h d(1) by (simp add: heap_dealloc_def with_heap_eq uadd_def usub_def)
    moreover have "\<forall>(r, m) \<in> A - {(q, l)}. raw_slice (raw_store (k_mem k) b a) (b + r) m = raw_slice (k_mem k) (b + r) m"
      using areas_kept [OF d(2) len, of _ _ "k_mem k" b] d(3) by fastforce
    ultimately show ?thesis
      using heap_holds_store [OF assms d(2) len] raw_store_outside [of _ b a "k_mem k"] len
      by (intro exI [of _ "set_heap (?h\<lparr>heap_list := fl\<rparr>) (raw_store (k_mem k) b a) k"]) (auto simp: set_heap_def)
  qed
  moreover have "heap_dealloc k p = Some (k, ())" if "p \<notin> {b ..< b + n}" for p
    using h that set_heap_same [of ?h k "k_mem k"] by (auto simp: heap_dealloc_def with_heap_eq uadd_def)
  ultimately show ?thesis by blast
qed

section \<open>Properties\<close>

text \<open>
  C27. An allocation from the kernel heap returns.  Null is returned only for an empty request, an
  alignment beyond a page or when no block is large enough, which takes a heap that is small compared to what is in
  use, and then nothing changes; otherwise the
  area is aligned as asked, inside the heap and apart from every area in use, and neither the areas
  in use nor the memory outside the heap change.
\<close>

theorem kernel_heap_alloc:
  assumes "heap_holds k b n A"
  shows "\<exists>k' p. heap_alloc k sz al = Some (k', p) \<and>
    (if p = 0 then k' = k \<and> (sz = 0 \<or> \<not> (is_power_of_two al \<and> al \<le> MAX_ALIGN) \<or>
         hs_largest_free (fl_stats (heap_list (lock_value (k_heap k)))) < (if al \<le> 8 then sz else sz + al + MIN_BLOCK) \<and>
         n div 8 * 8 < (\<Sum>(q, m) \<in> A. m + 70) + (card A + 1) * (sz + al + MIN_BLOCK + 24))
     else al dvd p \<and> b \<le> p \<and> p + sz \<le> b + n \<and> heap_holds k' b n (insert (p - b, sz) A) \<and>
       (\<forall>(q, l) \<in> A. {p ..< p + sz} \<inter> {b + q ..< b + q + l} = {} \<and> raw_slice (k_mem k') (b + q) l = raw_slice (k_mem k) (b + q) l) \<and>
       (\<forall>x. x \<notin> {b ..< b + n} \<longrightarrow> k_mem k' x = k_mem k x))"
  using heap_alloc_run [OF assms, of sz al] by blast

text \<open>The heap that initialisation leaves behind, on the machine of the witnesses.\<close>

lemma sample_heap: "\<exists>k b. heap_holds k b HEAP_SIZE {} \<and> hs_largest_free (fl_stats (heap_list (lock_value (k_heap k)))) = HEAP_SIZE - 24"
  using sample_idle sample_memory_map sample_disjoint
proof (cases rule: init_allocators_cases [where bi_at = 3211264 and limit = 17825792])
  case (error k' e)
  then show ?thesis using sample_run by blast
next
  case (ok fa s fa' fl a lay k')
  have "s + 255 \<in> free_set fa" using run_subset [OF ok(5)] by auto
  then have "frame_addr fa s + HEAP_SIZE \<le> U64_MAX" "0 < frame_addr fa s"
    using ok(15,16) by (auto simp: free_set_def frame_addr_def rust_consts)
  moreover have "4096 dvd frame_addr fa s" by (simp add: frame_addr_def PAGE_SIZE_def)
  ultimately have "heap_holds k' (frame_addr fa s) HEAP_SIZE {}"
    using sample_idle(1) ok(10,11) unfolding ok(2) by (simp add: heap_holds_def raw_slice_store) (simp add: HEAP_SIZE_def)
  moreover have "hs_largest_free (fl_stats fl) = HEAP_SIZE - 24"
    using reach_empty [OF ok(11)] heap_reach_inv [OF ok(11)] ok(10)
    by (auto simp: heap_inv_def heap_shape_def HEAP_SIZE_def HEADER_SIZE_def)
  ultimately show ?thesis using ok(2) by (intro exI [of _ k'] exI [of _ "frame_addr fa s"]) simp
qed

theorem kernel_heap_alloc_witness:
  "\<exists>k b k' p. heap_holds k b HEAP_SIZE {} \<and> heap_alloc k 100 64 = Some (k', p) \<and> p \<noteq> 0 \<and> 64 dvd p \<and> b \<le> p \<and> p + 100 \<le> b + HEAP_SIZE"
proof -
  obtain k b where h: "heap_holds k b HEAP_SIZE {}" "hs_largest_free (fl_stats (heap_list (lock_value (k_heap k)))) = HEAP_SIZE - 24"
    using sample_heap by blast
  have "is_power_of_two 64" by code_simp
  then have "\<exists>k' p. heap_alloc k 100 64 = Some (k', p) \<and> p \<noteq> 0 \<and> 64 dvd p \<and> b \<le> p \<and> p + 100 \<le> b + HEAP_SIZE"
    using kernel_heap_alloc [OF h(1), of 100 64] h(2) by (auto simp: rust_consts MAX_ALIGN_def MIN_BLOCK_def split: if_splits)
  then show ?thesis using h(1) by blast
qed

text \<open>
  C28. Releasing an area in use takes exactly that area out of use and leaves the contents of all others
  and the memory outside the heap;
  releasing an address outside the heap, or null, changes nothing at all.
\<close>

theorem kernel_heap_dealloc:
  assumes "heap_holds k b n A"
  shows "(\<forall>(q, l) \<in> A. \<exists>k'. heap_dealloc k (b + q) = Some (k', ()) \<and> heap_holds k' b n (A - {(q, l)}) \<and>
      (\<forall>(r, m) \<in> A - {(q, l)}. raw_slice (k_mem k') (b + r) m = raw_slice (k_mem k) (b + r) m) \<and> (\<forall>x. x \<notin> {b ..< b + n} \<longrightarrow> k_mem k' x = k_mem k x)) \<and>
    (\<forall>p. p \<notin> {b ..< b + n} \<longrightarrow> heap_dealloc k p = Some (k, ()))"
  using heap_dealloc_run [OF assms] by fast

theorem kernel_heap_dealloc_witness:
  "\<exists>k b. heap_holds k b HEAP_SIZE {} \<and> heap_dealloc k 0 = Some (k, ())"
proof -
  obtain k b where h: "heap_holds k b HEAP_SIZE {}" using sample_heap by blast
  then have "0 \<notin> {b ..< b + HEAP_SIZE}" by (simp add: heap_holds_def)
  then show ?thesis using kernel_heap_dealloc [OF h] h by blast
qed

end
