(* ===== verification/Heap_Self_Check.thy ===== *)
theory Heap_Self_Check
  imports Kernel_Heap
begin

text \<open>
  The memory self-check of \<^verbatim>\<open>src/crates/kernel/src/memory.rs\<close>: the heap is exercised through byte vectors, then the frame
  allocator.

  A byte vector is its address and its length.  A vector of vectors is a buffer in the heap next to the list of its
  elements; \<open>repr\<close> is how the compiler lays an element out, of which the code needs the size only.  A vector that cannot
  be allocated panics, and a vector that goes out of scope releases its buffer after its elements.
\<close>

unbundle bit_operations_syntax

section \<open>Vectors on the kernel heap\<close>

type_synonym vec_u8 = "u64 \<times> usize"

definition SIZE_OF_VEC :: usize where [rust_consts]: "SIZE_OF_VEC = 24"

definition vec_with_capacity :: "Kernel \<Rightarrow> usize \<Rightarrow> usize \<Rightarrow> usize \<Rightarrow> (Kernel \<times> u64) panics" where
  "vec_with_capacity k n sz al = do {
     bytes \<leftarrow> umul n sz;
     (k, p) \<leftarrow> heap_alloc k bytes al;
     if p = 0 then None else Some (k, p)
   }"

definition vec_filled :: "Kernel \<Rightarrow> u8 \<Rightarrow> usize \<Rightarrow> (Kernel \<times> vec_u8) panics" where
  "vec_filled k v n =
     (if n = 0 then Some (k, (1, 0))
      else do {
        (k, p) \<leftarrow> vec_with_capacity k n 1 1;
        Some (k\<lparr>k_mem := raw_store (k_mem k) p (replicate n v)\<rparr>, (p, n))
      })"

definition vec_drop :: "Kernel \<Rightarrow> vec_u8 \<Rightarrow> Kernel panics" where
  "vec_drop k v = (if snd v = 0 then Some k else do { (k, _) \<leftarrow> heap_dealloc k (fst v); Some k })"

definition store_elem :: "(vec_u8 option \<Rightarrow> bytes) \<Rightarrow> Kernel \<Rightarrow> u64 \<Rightarrow> usize \<Rightarrow> vec_u8 option \<Rightarrow> Kernel" where
  "store_elem repr k buf i x = k\<lparr>k_mem := raw_store (k_mem k) (buf + i * SIZE_OF_VEC) (repr x)\<rparr>"

fun drop_elems :: "Kernel \<Rightarrow> vec_u8 option list \<Rightarrow> Kernel panics" where
  "drop_elems k [] = Some k"
| "drop_elems k (None # vs) = drop_elems k vs"
| "drop_elems k (Some v # vs) = do { k \<leftarrow> vec_drop k v; drop_elems k vs }"

definition drop_vecs :: "Kernel \<Rightarrow> u64 \<Rightarrow> vec_u8 option list \<Rightarrow> Kernel panics" where
  "drop_vecs k buf vs = do { k \<leftarrow> drop_elems k vs; (k, _) \<leftarrow> heap_dealloc k buf; Some k }"

section \<open>The checks\<close>

definition BLOCK_SIZES :: "usize list" where "BLOCK_SIZES = [16, 33, 64, 129, 256, 1025, 4096, 7]"
definition BLOCK_COUNT :: usize where [rust_consts]: "BLOCK_COUNT = 64"
definition PATTERN_SEED :: u8 where "PATTERN_SEED = 0xA5"

definition pattern :: "usize \<Rightarrow> u8" where
  "pattern i = PATTERN_SEED XOR word_of_nat i"

definition block_size :: "usize \<Rightarrow> usize panics" where
  "block_size i = index BLOCK_SIZES (i mod length BLOCK_SIZES)"

text \<open>Step 1: the blocks of the remaining indices are allocated, filled and pushed.\<close>

fun alloc_blocks :: "(vec_u8 option \<Rightarrow> bytes) \<Rightarrow> u64 \<Rightarrow> Kernel \<Rightarrow> vec_u8 option list \<Rightarrow> usize list \<Rightarrow>
    (Kernel \<times> vec_u8 option list \<times> (MemoryError + unit)) panics" where
  "alloc_blocks repr buf k blocks [] = Some (k, blocks, Inr ())"
| "alloc_blocks repr buf k blocks (i # is) = do {
     size \<leftarrow> block_size i;
     (k, block) \<leftarrow> vec_filled k (pattern i) size;
     if snd block \<noteq> size then do {
       k \<leftarrow> vec_drop k block;
       Some (k, blocks, Inl (failure 1 BlockLength (snd block)))
     }
     else alloc_blocks repr buf (store_elem repr k buf (length blocks) (Some block)) (blocks @ [Some block]) is
   }"

text \<open>Step 2: the blocks lie in the heap and apart.\<close>

fun check_apart :: "u64 \<Rightarrow> u64 \<Rightarrow> (u64 \<Rightarrow> MemoryError) \<Rightarrow> vec_u8 option list \<Rightarrow> (MemoryError + unit) panics" where
  "check_apart start stop err [] = Some (Inr ())"
| "check_apart start stop err (None # vs) = check_apart start stop err vs"
| "check_apart start stop err (Some (q, n) # vs) = do {
     other_stop \<leftarrow> uadd q n;
     if start < other_stop \<and> q < stop then Some (Inl (err q)) else check_apart start stop err vs
   }"

fun check_blocks :: "u64 \<Rightarrow> u64 \<Rightarrow> vec_u8 option list \<Rightarrow> (MemoryError + unit) panics" where
  "check_blocks heap_start heap_stop [] = Some (Inr ())"
| "check_blocks heap_start heap_stop (None # vs) = check_blocks heap_start heap_stop vs"
| "check_blocks heap_start heap_stop (Some (p, n) # vs) = do {
     stop \<leftarrow> uadd p n;
     if p < heap_start \<or> stop > heap_stop then Some (Inl (failure 2 BlockOutside p))
     else do {
       r \<leftarrow> check_apart p stop (\<lambda>q. failure 2 BlocksOverlap (if p \<ge> q then p else q)) vs;
       case r of Inl e \<Rightarrow> Some (Inl e) | Inr _ \<Rightarrow> check_blocks heap_start heap_stop vs
     }
   }"

text \<open>Steps 3 and 4: every byte of block number \<open>i\<close> is the pattern of \<open>i\<close>.\<close>

fun check_contents :: "nat \<Rightarrow> Invariant \<Rightarrow> (nat \<Rightarrow> u8) \<Rightarrow> usize \<Rightarrow> vec_u8 option list \<Rightarrow> (MemoryError + unit) panics" where
  "check_contents step what m i [] = Some (Inr ())"
| "check_contents step what m i (None # vs) = check_contents step what m (i + 1) vs"
| "check_contents step what m i (Some (p, n) # vs) =
     (case position (\<lambda>x. x \<noteq> pattern i) (raw_slice m p n) of
        Some offset \<Rightarrow> do { a \<leftarrow> uadd p offset; Some (Inl (failure step what a)) }
      | None \<Rightarrow> check_contents step what m (i + 1) vs)"

text \<open>Step 4: the blocks at the given indices are released, and replacements of the same sizes are allocated.\<close>

fun free_blocks :: "(vec_u8 option \<Rightarrow> bytes) \<Rightarrow> u64 \<Rightarrow> Kernel \<Rightarrow> vec_u8 option list \<Rightarrow> usize list \<Rightarrow>
    (Kernel \<times> vec_u8 option list) panics" where
  "free_blocks repr buf k blocks [] = Some (k, blocks)"
| "free_blocks repr buf k blocks (i # is) = do {
     old \<leftarrow> index blocks i;
     k \<leftarrow> (case old of Some v \<Rightarrow> vec_drop k v | None \<Rightarrow> Some k);
     blocks \<leftarrow> index_set blocks i None;
     free_blocks repr buf (store_elem repr k buf i None) blocks is
   }"

fun alloc_replacements :: "(vec_u8 option \<Rightarrow> bytes) \<Rightarrow> u64 \<Rightarrow> Kernel \<Rightarrow> vec_u8 option list \<Rightarrow> usize list \<Rightarrow>
    (Kernel \<times> vec_u8 option list) panics" where
  "alloc_replacements repr buf k rs [] = Some (k, rs)"
| "alloc_replacements repr buf k rs (i # is) = do {
     size \<leftarrow> block_size i;
     (k, block) \<leftarrow> vec_filled k (pattern i XOR 0xFF) size;
     alloc_replacements repr buf (store_elem repr k buf (length rs) (Some block)) (rs @ [Some block]) is
   }"

fun check_replacements :: "u64 \<Rightarrow> u64 \<Rightarrow> vec_u8 option list \<Rightarrow> vec_u8 option list \<Rightarrow> (MemoryError + unit) panics" where
  "check_replacements heap_start heap_stop blocks [] = Some (Inr ())"
| "check_replacements heap_start heap_stop blocks (None # rs) = check_replacements heap_start heap_stop blocks rs"
| "check_replacements heap_start heap_stop blocks (Some (p, n) # rs) = do {
     stop \<leftarrow> uadd p n;
     if p < heap_start \<or> stop > heap_stop then Some (Inl (failure 4 ReplacementOutside p))
     else do {
       r \<leftarrow> check_apart p stop (\<lambda>_. failure 4 ReplacementOverlaps p) blocks;
       case r of Inl e \<Rightarrow> Some (Inl e) | Inr _ \<Rightarrow> check_replacements heap_start heap_stop blocks rs
     }
   }"

text \<open>The indices of \<open>(0..BLOCK_COUNT).step_by(2)\<close>.\<close>

definition even_indices :: "usize list" where
  "even_indices = map (\<lambda>i. 2 * i) [0..<BLOCK_COUNT div 2]"

definition replace_half :: "(vec_u8 option \<Rightarrow> bytes) \<Rightarrow> u64 \<Rightarrow> u64 \<Rightarrow> u64 \<Rightarrow> Kernel \<Rightarrow> vec_u8 option list \<Rightarrow>
    (Kernel \<times> (MemoryError + unit)) panics" where
  "replace_half repr heap_start heap_stop buf k blocks = do {
     (k, blocks) \<leftarrow> free_blocks repr buf k blocks even_indices;
     (k, rbuf) \<leftarrow> vec_with_capacity k (BLOCK_COUNT div 2) SIZE_OF_VEC 8;
     (k, rs) \<leftarrow> alloc_replacements repr rbuf k [] even_indices;
     r \<leftarrow> check_contents 4 SurvivorDamaged (k_mem k) 0 blocks;
     r \<leftarrow> (case r of Inl e \<Rightarrow> Some (Inl e) | Inr _ \<Rightarrow> check_replacements heap_start heap_stop blocks rs);
     k \<leftarrow> drop_vecs k rbuf rs;
     k \<leftarrow> drop_vecs k buf blocks;
     Some (k, r)
   }"

definition check_vectors :: "(vec_u8 option \<Rightarrow> bytes) \<Rightarrow> u64 \<Rightarrow> u64 \<Rightarrow> Kernel \<Rightarrow> (Kernel \<times> (MemoryError + unit)) panics" where
  "check_vectors repr heap_start heap_stop k = do {
     (k, buf) \<leftarrow> vec_with_capacity k BLOCK_COUNT SIZE_OF_VEC 8;
     (k, blocks, r) \<leftarrow> alloc_blocks repr buf k [] [0..<BLOCK_COUNT];
     r \<leftarrow> (case r of Inl e \<Rightarrow> Some (Inl e) | Inr _ \<Rightarrow> check_blocks heap_start heap_stop blocks);
     r \<leftarrow> (case r of Inl e \<Rightarrow> Some (Inl e) | Inr _ \<Rightarrow> check_contents 3 ReadBackDiffers (k_mem k) 0 blocks);
     case r of
       Inl e \<Rightarrow> do { k \<leftarrow> drop_vecs k buf blocks; Some (k, Inl e) }
     | Inr _ \<Rightarrow> replace_half repr heap_start heap_stop buf k blocks
   }"

text \<open>Step 5: the heap is one block again, and a request of twice its length fails.\<close>

definition check_whole :: "Kernel \<Rightarrow> usize \<Rightarrow> (Kernel \<times> (MemoryError + unit)) panics" where
  "check_whole k n = do {
     (k, stats) \<leftarrow> heap_stats k;
     split \<leftarrow> (if hs_free_blocks stats \<noteq> 1 then Some True else do { whole \<leftarrow> usub n HEADER_SIZE; Some (hs_free_bytes stats \<noteq> whole) });
     if split then Some (k, Inl (failure 5 NotMerged (hs_free_bytes stats)))
     else do {
       size \<leftarrow> umul n 2;
       if size > ISIZE_MAX - 7 then Some (k, Inl (failure 5 OversizeLayout 0))
       else do {
         (k, p) \<leftarrow> heap_alloc k size 8;
         if p \<noteq> 0 then do { (k, _) \<leftarrow> heap_dealloc k p; Some (k, Inl (failure 5 OversizeAccepted p)) }
         else Some (k, Inr ())
       }
     }
   }"

definition heap_self_check :: "(vec_u8 option \<Rightarrow> bytes) \<Rightarrow> Kernel \<Rightarrow> (Kernel \<times> (MemoryError + unit)) panics" where
  "heap_self_check repr k = do {
     (k, base, n) \<leftarrow> heap_region k;
     if n \<noteq> HEAP_SIZE then Some (k, Inl (failure 1 HeapLength n))
     else do {
       heap_stop \<leftarrow> uadd base n;
       try_then (check_vectors repr base heap_stop k) (\<lambda>k _. check_whole k n)
     }
   }"

definition memory_self_check :: "(vec_u8 option \<Rightarrow> bytes) \<Rightarrow> Kernel \<Rightarrow> u64 \<Rightarrow> BootInfo \<Rightarrow> (Kernel \<times> (MemoryError + unit)) panics" where
  "memory_self_check repr k bi_at bi = try_then (heap_self_check repr k) (\<lambda>k _. frame_self_check k bi_at bi)"

section \<open>Vectors in use\<close>

text \<open>
  \<open>live k b V\<close>: the kernel heap is the megabyte at \<open>b\<close> and exactly the vectors \<open>V\<close> are in use.  None is longer than a page,
  as in the self-check.
\<close>

definition offsets :: "nat \<Rightarrow> vec_u8 set \<Rightarrow> (nat \<times> nat) set" where
  "offsets b V = (\<lambda>(p, n). (p - b, n)) ` V"

definition live :: "Kernel \<Rightarrow> nat \<Rightarrow> vec_u8 set \<Rightarrow> bool" where
  "live k b V \<longleftrightarrow> heap_holds k b HEAP_SIZE (offsets b V) \<and> finite V \<and> (\<forall>(p, n) \<in> V. b \<le> p \<and> 0 < n \<and> n \<le> 4096)"

text \<open>Only the heap and its memory change.\<close>

definition heap_only :: "nat \<Rightarrow> Kernel \<Rightarrow> Kernel \<Rightarrow> bool" where
  "heap_only b k k' \<longleftrightarrow> (\<exists>h m. k' = k\<lparr>k_heap := h, k_mem := m\<rparr> \<and> (\<forall>x. x \<notin> {b ..< b + HEAP_SIZE} \<longrightarrow> m x = k_mem k x))"

definition keeps_vecs :: "vec_u8 set \<Rightarrow> Kernel \<Rightarrow> Kernel \<Rightarrow> bool" where
  "keeps_vecs V k k' \<longleftrightarrow> (\<forall>(p, n) \<in> V. raw_slice (k_mem k') p n = raw_slice (k_mem k) p n)"

lemma heap_onlyI:
  assumes "k' = k\<lparr>k_heap := k_heap k', k_mem := k_mem k'\<rparr>" "\<And>x. x \<notin> {b ..< b + HEAP_SIZE} \<Longrightarrow> k_mem k' x = k_mem k x"
  shows "heap_only b k k'"
  unfolding heap_only_def using assms by blast

lemma heap_only_refl: "heap_only b k k"
  by (rule heap_onlyI) simp_all

lemma heap_only_trans: "heap_only b k k1 \<Longrightarrow> heap_only b k1 k2 \<Longrightarrow> heap_only b k k2"
  unfolding heap_only_def
proof (elim exE conjE)
  fix h m h' m'
  assume "k1 = k\<lparr>k_heap := h, k_mem := m\<rparr>" "k2 = k1\<lparr>k_heap := h', k_mem := m'\<rparr>"
    "\<forall>x. x \<notin> {b ..< b + HEAP_SIZE} \<longrightarrow> m x = k_mem k x" "\<forall>x. x \<notin> {b ..< b + HEAP_SIZE} \<longrightarrow> m' x = k_mem k1 x"
  then show "\<exists>h m. k2 = k\<lparr>k_heap := h, k_mem := m\<rparr> \<and> (\<forall>x. x \<notin> {b ..< b + HEAP_SIZE} \<longrightarrow> m x = k_mem k x)"
    by (intro exI [of _ h'] exI [of _ m']) simp
qed

lemma keeps_vecsI: "(\<And>p n. (p, n) \<in> V \<Longrightarrow> raw_slice (k_mem k') p n = raw_slice (k_mem k) p n) \<Longrightarrow> keeps_vecs V k k'"
  by (auto simp: keeps_vecs_def)

lemma keeps_vecsD: "keeps_vecs V k k' \<Longrightarrow> (p, n) \<in> V \<Longrightarrow> raw_slice (k_mem k') p n = raw_slice (k_mem k) p n"
  by (auto simp: keeps_vecs_def)

lemma keeps_vecs_trans: "keeps_vecs V k k1 \<Longrightarrow> keeps_vecs W k1 k2 \<Longrightarrow> U \<subseteq> V \<Longrightarrow> U \<subseteq> W \<Longrightarrow> keeps_vecs U k k2"
  unfolding keeps_vecs_def by fastforce

lemma keeps_vecs_mono: "keeps_vecs V k k' \<Longrightarrow> U \<subseteq> V \<Longrightarrow> keeps_vecs U k k'"
  unfolding keeps_vecs_def by blast

lemma live_bounds:
  assumes "live k b V" "(p, n) \<in> V"
  shows "b \<le> p" "p + n \<le> b + HEAP_SIZE" "p + n \<le> U64_MAX" "0 < n" "n \<le> 4096" "0 < b"
proof -
  have h: "heap_reach (heap_list (lock_value (k_heap k))) (raw_slice (k_mem k) b HEAP_SIZE) (offsets b V)" "b + HEAP_SIZE \<le> U64_MAX"
    using assms(1) by (auto simp: live_def heap_holds_def)
  show "b \<le> p" "0 < n" "n \<le> 4096" "0 < b" using assms by (auto simp: live_def heap_holds_def)
  have "(p - b, n) \<in> offsets b V" using assms(2) by (force simp: offsets_def)
  then have "p - b + n \<le> HEAP_SIZE" using reach_areas(1,3) [OF h(1)] le_trans by fastforce
  then show "p + n \<le> b + HEAP_SIZE" "p + n \<le> U64_MAX" using \<open>b \<le> p\<close> h(2) by auto
qed

lemma live_apart:
  assumes "live k b V" "(p, n) \<in> V" "(q, m) \<in> V" "(p, n) \<noteq> (q, m)"
  shows "p + n < q \<or> q + m < p"
proof -
  have b: "b \<le> p" "b \<le> q" using live_bounds(1) assms by blast+
  have "(p - b, n) \<in> offsets b V" "(q - b, m) \<in> offsets b V" using assms(2,3) by (force simp: offsets_def)+
  moreover have "(p - b, n) \<noteq> (q - b, m)" using assms(4) b by auto
  ultimately have "p - b + n < q - b \<or> q - b + m < p - b"
    using reach_areas(4) assms(1) unfolding live_def heap_holds_def by blast
  then show ?thesis using b by auto
qed

lemma live_alloc:
  assumes live: "live k b V" and room: "card V \<le> 100" and sz: "0 < sz" "sz \<le> 4096" and al: "al = 1 \<or> al = 8"
  shows "\<exists>k' p. heap_alloc k sz al = Some (k', p) \<and> p \<noteq> 0 \<and> live k' b (insert (p, sz) V) \<and> (p, sz) \<notin> V \<and> heap_only b k k' \<and> keeps_vecs V k k'"
proof -
  have h: "heap_holds k b HEAP_SIZE (offsets b V)" "finite V" using live by (auto simp: live_def)
  obtain k' p where run: "heap_alloc k sz al = Some (k', p)" "k' = k\<lparr>k_heap := k_heap k', k_mem := k_mem k'\<rparr>"
    and spec: "if p = 0 then k' = k \<and> (sz = 0 \<or> \<not> (is_power_of_two al \<and> al \<le> MAX_ALIGN) \<or>
         hs_largest_free (fl_stats (heap_list (lock_value (k_heap k)))) < (if al \<le> 8 then sz else sz + al + MIN_BLOCK) \<and>
         HEAP_SIZE div 8 * 8 < (\<Sum>(q, m) \<in> offsets b V. m + 70) + (card (offsets b V) + 1) * (sz + al + MIN_BLOCK + 24))
     else al dvd p \<and> b \<le> p \<and> p + sz \<le> b + HEAP_SIZE \<and> heap_holds k' b HEAP_SIZE (insert (p - b, sz) (offsets b V)) \<and>
       (\<forall>(q, l) \<in> offsets b V. {p ..< p + sz} \<inter> {b + q ..< b + q + l} = {} \<and> raw_slice (k_mem k') (b + q) l = raw_slice (k_mem k) (b + q) l) \<and>
       (\<forall>x. x \<notin> {b ..< b + HEAP_SIZE} \<longrightarrow> k_mem k' x = k_mem k x)"
    using heap_alloc_run [OF h(1), of sz al] by blast
  have card: "card (offsets b V) \<le> 100" using room card_image_le [OF h(2)] unfolding offsets_def by (meson le_trans)
  have "(\<Sum>(q, m) \<in> offsets b V. m + 70) \<le> card (offsets b V) * 4166"
  proof -
    have "(case a of (q, m) \<Rightarrow> m + 70) \<le> 4166" if "a \<in> offsets b V" for a using that live by (auto simp: live_def offsets_def)
    from sum_bounded_above [OF this] show ?thesis by simp
  qed
  moreover have "(card (offsets b V) + 1) * (sz + al + MIN_BLOCK + 24) \<le> 101 * 4168"
    using card sz al by (intro mult_le_mono) (auto simp: MIN_BLOCK_def rust_consts)
  ultimately have fit: "(\<Sum>(q, m) \<in> offsets b V. m + 70) + (card (offsets b V) + 1) * (sz + al + MIN_BLOCK + 24) \<le> HEAP_SIZE div 8 * 8"
    using card by (simp add: HEAP_SIZE_def)
  have "is_power_of_two 1" "is_power_of_two 8" by code_simp+
  then have "is_power_of_two al \<and> al \<le> MAX_ALIGN" using al by (auto simp: MAX_ALIGN_def rust_consts)
  then have "HEAP_SIZE div 8 * 8 < (\<Sum>(q, m) \<in> offsets b V. m + 70) + (card (offsets b V) + 1) * (sz + al + MIN_BLOCK + 24)" if "p = 0"
    using spec sz(1) that by (metis not_gr_zero)
  then have p: "p \<noteq> 0" using fit by (meson not_le)
  have off: "(q - b, m) \<in> offsets b V" "b + (q - b) = q" if "(q, m) \<in> V" for q m
    using that live by (force simp: offsets_def live_def)+
  have "offsets b (insert (p, sz) V) = insert (p - b, sz) (offsets b V)" by (simp add: offsets_def)
  then have "live k' b (insert (p, sz) V)" using spec p live sz by (auto simp: live_def)
  moreover have "keeps_vecs V k k'" using spec p off unfolding keeps_vecs_def by fastforce
  moreover have "(p, sz) \<notin> V" using spec p off sz(1) by fastforce
  moreover have "heap_only b k k'" using spec p run(2) by (intro heap_onlyI) auto
  ultimately show ?thesis using run(1) p by blast
qed

lemma live_dealloc:
  assumes live: "live k b V" and v: "(p, n) \<in> V"
  shows "\<exists>k'. heap_dealloc k p = Some (k', ()) \<and> live k' b (V - {(p, n)}) \<and> heap_only b k k' \<and> keeps_vecs (V - {(p, n)}) k k'"
proof -
  have h: "heap_holds k b HEAP_SIZE (offsets b V)" using live by (auto simp: live_def)
  have off: "(q - b, m) \<in> offsets b V" "b + (q - b) = q" if "(q, m) \<in> V" for q m
    using that live by (force simp: offsets_def live_def)+
  obtain k' where k': "heap_dealloc k p = Some (k', ())" "heap_holds k' b HEAP_SIZE (offsets b V - {(p - b, n)})"
    "\<forall>(r, m) \<in> offsets b V - {(p - b, n)}. raw_slice (k_mem k') (b + r) m = raw_slice (k_mem k) (b + r) m"
    "\<forall>x. x \<notin> {b ..< b + HEAP_SIZE} \<longrightarrow> k_mem k' x = k_mem k x" "k' = k\<lparr>k_heap := k_heap k', k_mem := k_mem k'\<rparr>"
    using heap_dealloc_run [OF h] off [OF v] by fastforce
  have inj: "q = p" if "(q, m) \<in> V" "q - b = p - b" for q m
    using live_bounds(1) [OF live that(1)] live_bounds(1) [OF live v] that(2) by simp
  then have "offsets b (V - {(p, n)}) = offsets b V - {(p - b, n)}" using v by (auto simp: offsets_def)
  then have "live k' b (V - {(p, n)})" using live k'(2) by (auto simp: live_def)
  moreover have "keeps_vecs (V - {(p, n)}) k k'"
  proof (rule keeps_vecsI)
    fix q m assume "(q, m) \<in> V - {(p, n)}"
    then have q: "(q, m) \<in> V" "(q, m) \<noteq> (p, n)" by auto
    then have "(q - b, m) \<in> offsets b V - {(p - b, n)}" using off(1) inj by auto
    then show "raw_slice (k_mem k') q m = raw_slice (k_mem k) q m" using k'(3) off(2) [OF q(1)] by (metis (mono_tags, lifting) case_prodD)
  qed
  ultimately show ?thesis using k' heap_onlyI [OF k'(5), of b] by blast
qed

lemma raw_slice_put: "b \<le> p \<Longrightarrow> p + length ys \<le> b + n \<Longrightarrow> raw_slice (raw_store m p ys) b n = put (raw_slice m b n) (p - b) ys"
  by (rule nth_equalityI) (auto simp: raw_slice_def raw_store_def nth_put add.commute)

lemma live_store:
  assumes live: "live k b V" and v: "(p, n) \<in> V" "i + length ys \<le> n"
  defines "k' \<equiv> k\<lparr>k_mem := raw_store (k_mem k) (p + i) ys\<rparr>"
  shows "live k' b V" "heap_only b k k'" "keeps_vecs (V - {(p, n)}) k k'"
proof -
  let ?h = "heap_list (lock_value (k_heap k))" and ?a = "raw_slice (k_mem k) b HEAP_SIZE"
  note B = live_bounds [OF live v(1)]
  have h: "heap_reach ?h ?a (offsets b V)" using live by (auto simp: live_def heap_holds_def)
  have "(p - b, n) \<in> offsets b V" using v(1) by (force simp: offsets_def)
  from heap_reach.store [OF h this v(2)] have "heap_reach ?h (raw_slice (raw_store (k_mem k) (p + i) ys) b HEAP_SIZE) (offsets b V)"
    using raw_slice_put [of b "p + i" ys HEAP_SIZE "k_mem k"] B v(2) by simp
  then show "live k' b V" using live by (auto simp: live_def heap_holds_def k'_def kernel_idle_def)
  show "heap_only b k k'" using B v(2) by (intro heap_onlyI) (auto simp: k'_def raw_store_def)
  show "keeps_vecs (V - {(p, n)}) k k'"
  proof (rule keeps_vecsI)
    fix q m assume "(q, m) \<in> V - {(p, n)}"
    then have q: "(q, m) \<in> V" "(q, m) \<noteq> (p, n)" by auto
    then have "q + m < p \<or> p + n < q" using live_apart [OF live q(1) v(1)] by auto
    then show "raw_slice (k_mem k') q m = raw_slice (k_mem k) q m"
      using v(2) by (auto simp: k'_def raw_slice_def raw_store_def)
  qed
qed

section \<open>Lists of vectors\<close>

text \<open>
  \<open>held k b W vs\<close>: the vectors in use are those of the list \<open>vs\<close>, each once, and the others \<open>W\<close>.
\<close>

definition vecs :: "vec_u8 option list \<Rightarrow> vec_u8 set" where
  "vecs vs = {v. Some v \<in> set vs}"

definition somes :: "vec_u8 option list \<Rightarrow> vec_u8 option list" where
  "somes vs = filter (\<lambda>v. v \<noteq> None) vs"

definition held_vecs :: "Kernel \<Rightarrow> nat \<Rightarrow> vec_u8 set \<Rightarrow> vec_u8 option list \<Rightarrow> bool" where
  "held_vecs k b W vs \<longleftrightarrow> live k b (W \<union> vecs vs) \<and> W \<inter> vecs vs = {} \<and> distinct (somes vs)"

definition filled :: "(nat \<Rightarrow> u8) \<Rightarrow> usize \<Rightarrow> vec_u8 option list \<Rightarrow> bool" where
  "filled m i vs \<longleftrightarrow> (\<forall>j < length vs. \<forall>p n. vs ! j = Some (p, n) \<longrightarrow> raw_slice m p n = replicate n (pattern (i + j)))"

lemma vecs_simps [simp]:
  "vecs [] = {}" "vecs (None # vs) = vecs vs" "vecs (Some v # vs) = insert v (vecs vs)" "vecs (vs @ ws) = vecs vs \<union> vecs ws"
  by (auto simp: vecs_def)

lemma somes_simps [simp]:
  "somes [] = []" "somes (None # vs) = somes vs" "somes (Some v # vs) = Some v # somes vs" "somes (vs @ ws) = somes vs @ somes ws"
  by (simp_all add: somes_def)

lemma somes_mem: "Some v \<in> set (somes vs) \<longleftrightarrow> v \<in> vecs vs"
  by (auto simp: somes_def vecs_def)

lemma card_vecs: "finite (vecs vs)" "card (vecs vs) \<le> length vs"
proof -
  have e: "vecs vs = the ` set (somes vs)" by (force simp: vecs_def somes_def)
  show "finite (vecs vs)" by (simp add: e)
  have "card (vecs vs) \<le> length (somes vs)" unfolding e using card_image_le [of "set (somes vs)"] card_length [of "somes vs"] by (meson List.finite_set le_trans)
  also have "\<dots> \<le> length vs" by (simp add: somes_def)
  finally show "card (vecs vs) \<le> length vs" .
qed

lemma filled_keeps: "filled (k_mem k) i vs \<Longrightarrow> keeps_vecs V k k' \<Longrightarrow> vecs vs \<subseteq> V \<Longrightarrow> filled (k_mem k') i vs"
  unfolding filled_def
proof (intro allI impI)
  fix j p n
  assume f: "\<forall>j < length vs. \<forall>p n. vs ! j = Some (p, n) \<longrightarrow> raw_slice (k_mem k) p n = replicate n (pattern (i + j))"
    and keep: "keeps_vecs V k k'" "vecs vs \<subseteq> V" and j: "j < length vs" "vs ! j = Some (p, n)"
  have "(p, n) \<in> vecs vs" using j nth_mem [OF j(1)] by (simp add: vecs_def)
  then show "raw_slice (k_mem k') p n = replicate n (pattern (i + j))" using keeps_vecsD [OF keep(1), of p n] keep(2) f j by auto
qed

lemma vec_with_capacity_run:
  assumes "live k b V" "card V \<le> 100" "0 < n * sz" "n * sz \<le> 4096" "al = 1 \<or> al = 8"
  shows "\<exists>k' p. vec_with_capacity k n sz al = Some (k', p) \<and> live k' b (insert (p, n * sz) V) \<and> (p, n * sz) \<notin> V \<and> heap_only b k k' \<and> keeps_vecs V k k'"
  using live_alloc [OF assms] assms(4) by (auto simp: vec_with_capacity_def umul_def U64_MAX_def)

lemma vec_filled_run:
  assumes "live k b V" "card V \<le> 100" "0 < n" "n \<le> 4096"
  shows "\<exists>k' p. vec_filled k v n = Some (k', (p, n)) \<and> live k' b (insert (p, n) V) \<and> (p, n) \<notin> V \<and> raw_slice (k_mem k') p n = replicate n v \<and>
    heap_only b k k' \<and> keeps_vecs V k k'"
proof -
  obtain k1 p where k1: "vec_with_capacity k n 1 1 = Some (k1, p)" "live k1 b (insert (p, n) V)" "(p, n) \<notin> V" "heap_only b k k1" "keeps_vecs V k k1"
    using vec_with_capacity_run [OF assms(1,2), of n 1 1] assms(3,4) by auto
  let ?k = "k1\<lparr>k_mem := raw_store (k_mem k1) p (replicate n v)\<rparr>"
  have st: "live ?k b (insert (p, n) V)" "heap_only b k1 ?k" "keeps_vecs (insert (p, n) V - {(p, n)}) k1 ?k"
    using live_store [OF k1(2), of p n 0 "replicate n v"] by simp_all
  have "keeps_vecs V k ?k" using keeps_vecs_trans [OF k1(5) st(3)] k1(3) by simp
  moreover have "vec_filled k v n = Some (?k, (p, n))" using k1(1) assms(3) by (simp add: vec_filled_def)
  moreover have "raw_slice (k_mem ?k) p n = replicate n v" by (simp add: raw_slice_store)
  ultimately show ?thesis using st(1) k1(3) heap_only_trans [OF k1(4) st(2)] by blast
qed

lemma vec_drop_run:
  assumes "live k b V" "v \<in> V"
  shows "\<exists>k'. vec_drop k v = Some k' \<and> live k' b (V - {v}) \<and> heap_only b k k' \<and> keeps_vecs (V - {v}) k k'"
  using live_dealloc [OF assms(1), of "fst v" "snd v"] live_bounds(4) [OF assms(1), of "fst v" "snd v"] assms(2) by (auto simp: vec_drop_def)

text \<open>Pushing a new vector on a list whose buffer has room.\<close>

lemma push_run:
  assumes held: "held_vecs k b W vs" and buf: "(buf, cap) \<in> W" "(length vs + 1) * SIZE_OF_VEC \<le> cap" and card: "card W + length vs \<le> 100"
    and repr: "\<forall>x. length (repr x) = SIZE_OF_VEC" and n: "0 < n" "n \<le> 4096"
  shows "\<exists>k' p. vec_filled k v n = Some (k', (p, n)) \<and> (let k'' = store_elem repr k' buf (length vs) (Some (p, n)) in
    held_vecs k'' b W (vs @ [Some (p, n)]) \<and> raw_slice (k_mem k'') p n = replicate n v \<and> heap_only b k k'' \<and>
    keeps_vecs (W \<union> vecs vs - {(buf, cap)}) k k'')"
proof -
  let ?V = "W \<union> vecs vs"
  have l: "live k b ?V" "W \<inter> vecs vs = {}" "distinct (somes vs)" using held by (auto simp: held_vecs_def)
  have "card ?V \<le> card W + card (vecs vs)" by (rule card_Un_le)
  also have "\<dots> \<le> 100" using card card_vecs(2) [of vs] by linarith
  finally obtain k1 p where k1: "vec_filled k v n = Some (k1, (p, n))" "live k1 b (insert (p, n) ?V)" "(p, n) \<notin> ?V" "raw_slice (k_mem k1) p n = replicate n v"
    "heap_only b k k1" "keeps_vecs ?V k k1" using vec_filled_run [OF l(1) _ n] by blast
  let ?k = "store_elem repr k1 buf (length vs) (Some (p, n))"
  have "length vs * SIZE_OF_VEC + length (repr (Some (p, n))) \<le> cap" using repr buf(2) by simp
  note st = live_store [OF k1(2) _ this, of buf, folded store_elem_def]
  have k2: "live ?k b (insert (p, n) ?V)" "heap_only b k1 ?k" "keeps_vecs (insert (p, n) ?V - {(buf, cap)}) k1 ?k" using st buf(1) by auto
  have ne: "(p, n) \<noteq> (buf, cap)" using k1(3) buf(1) by auto
  have "held_vecs ?k b W (vs @ [Some (p, n)])"
    using k2(1) l k1(3) by (auto simp: held_vecs_def somes_mem)
  moreover have "raw_slice (k_mem ?k) p n = replicate n v" using keeps_vecsD [OF k2(3), of p n] k1(4) ne by simp
  moreover have "keeps_vecs (?V - {(buf, cap)}) k ?k" by (rule keeps_vecs_trans [OF k1(6) k2(3)]) auto
  ultimately show ?thesis using k1(1) heap_only_trans [OF k1(5) k2(2)] by (auto simp: Let_def)
qed

lemma drop_elems_run:
  "held_vecs k b W vs \<Longrightarrow> \<exists>k'. drop_elems k vs = Some k' \<and> held_vecs k' b W [] \<and> heap_only b k k' \<and> keeps_vecs W k k'"
proof (induction vs arbitrary: k)
  case Nil
  then show ?case by (auto simp: held_vecs_def heap_only_refl keeps_vecs_def)
next
  case (Cons x vs)
  show ?case
  proof (cases x)
    case None
    then show ?thesis using Cons by (auto simp: held_vecs_def)
  next
    case (Some v)
    have l: "live k b (W \<union> insert v (vecs vs))" "W \<inter> insert v (vecs vs) = {}" "Some v \<notin> set (somes vs)" "distinct (somes vs)"
      using Cons.prems Some by (auto simp: held_vecs_def)
    have "W \<union> insert v (vecs vs) - {v} = W \<union> vecs vs" using l(2,3) by (auto simp: somes_mem)
    then obtain k1 where k1: "vec_drop k v = Some k1" "live k1 b (W \<union> vecs vs)" "heap_only b k k1" "keeps_vecs (W \<union> vecs vs) k k1"
      using vec_drop_run [OF l(1), of v] by auto
    have "held_vecs k1 b W vs" using k1(2) l by (auto simp: held_vecs_def)
    then obtain k2 where k2: "drop_elems k1 vs = Some k2" "held_vecs k2 b W []" "heap_only b k1 k2" "keeps_vecs W k1 k2"
      using Cons.IH by blast
    then show ?thesis
      using k1 Some heap_only_trans [OF k1(3) k2(3)] keeps_vecs_trans [OF k1(4) k2(4), of W] by auto
  qed
qed

lemma drop_vecs_run:
  assumes "held_vecs k b W vs" "(buf, cap) \<in> W"
  shows "\<exists>k'. drop_vecs k buf vs = Some k' \<and> live k' b (W - {(buf, cap)}) \<and> heap_only b k k' \<and> keeps_vecs (W - {(buf, cap)}) k k'"
proof -
  obtain k1 where k1: "drop_elems k vs = Some k1" "live k1 b W" "heap_only b k k1" "keeps_vecs W k k1"
    using drop_elems_run [OF assms(1)] by (auto simp: held_vecs_def)
  obtain k2 where k2: "heap_dealloc k1 buf = Some (k2, ())" "live k2 b (W - {(buf, cap)})" "heap_only b k1 k2" "keeps_vecs (W - {(buf, cap)}) k1 k2"
    using live_dealloc [OF k1(2) assms(2)] by blast
  then show ?thesis
    using k1 heap_only_trans [OF k1(3) k2(3)] keeps_vecs_trans [OF k1(4) k2(4), of "W - {(buf, cap)}"] by (auto simp: drop_vecs_def)
qed

section \<open>The checks pass\<close>

lemma block_size_run: "\<exists>n. block_size i = Some n \<and> 0 < n \<and> n \<le> 4096"
proof -
  have "i mod 8 < length BLOCK_SIZES" "list_all (\<lambda>n. 0 < n \<and> n \<le> 4096) BLOCK_SIZES" by (simp_all add: BLOCK_SIZES_def)
  then show ?thesis by (auto simp: block_size_def index_def list_all_length) (simp_all add: BLOCK_SIZES_def)
qed

lemma filled_snoc:
  assumes "filled (k_mem k') i vs" "raw_slice (k_mem k') p n = replicate n (pattern (i + length vs))"
  shows "filled (k_mem k') i (vs @ [Some (p, n)])"
  using assms by (auto simp: filled_def nth_append less_Suc_eq)

lemma alloc_blocks_run:
  assumes "held_vecs k b W vs" "(buf, cap) \<in> W" "(length vs + length is) * SIZE_OF_VEC \<le> cap" "card W + length vs + length is \<le> 100"
    and "\<forall>x. length (repr x) = SIZE_OF_VEC" "filled (k_mem k) 0 vs" "is = [length vs ..< length vs + length is]"
  shows "\<exists>k' vs'. alloc_blocks repr buf k vs is = Some (k', vs', Inr ()) \<and> held_vecs k' b W vs' \<and> length vs' = length vs + length is \<and>
    filled (k_mem k') 0 vs' \<and> heap_only b k k'"
  using assms
proof (induction "is" arbitrary: k vs)
  case Nil
  then show ?case by (auto simp: heap_only_refl)
next
  case (Cons i "is")
  have i: "i = length vs" "is = [length vs + 1 ..< length vs + 1 + length is]" 
    using Cons.prems(7) upt_conv_Cons [of "length vs" "length vs + length (i # is)"] by (simp_all del: upt_Suc)
  have held: "W \<inter> vecs vs = {}" using Cons.prems(1) by (simp add: held_vecs_def)
  obtain n where n: "block_size i = Some n" "0 < n" "n \<le> 4096" using block_size_run by blast
  have room: "(length vs + 1) * SIZE_OF_VEC \<le> cap" "card W + length vs \<le> 100" using Cons.prems(3,4) by (auto simp: SIZE_OF_VEC_def)
  from push_run [OF Cons.prems(1,2) room Cons.prems(5) n(2,3), of "pattern i"] obtain k1 p where
    f: "vec_filled k (pattern i) n = Some (k1, (p, n))" and
    k2: "held_vecs (store_elem repr k1 buf (length vs) (Some (p, n))) b W (vs @ [Some (p, n)])"
      "raw_slice (k_mem (store_elem repr k1 buf (length vs) (Some (p, n)))) p n = replicate n (pattern i)"
      "heap_only b k (store_elem repr k1 buf (length vs) (Some (p, n)))"
      "keeps_vecs (W \<union> vecs vs - {(buf, cap)}) k (store_elem repr k1 buf (length vs) (Some (p, n)))"
    unfolding Let_def by blast
  let ?k = "store_elem repr k1 buf (length vs) (Some (p, n))"
  have "filled (k_mem ?k) 0 vs" by (rule filled_keeps [OF Cons.prems(6) k2(4)]) (use held Cons.prems(2) in auto)
  then have "filled (k_mem ?k) 0 (vs @ [Some (p, n)])" using k2(2) i(1) by (intro filled_snoc) simp_all
  moreover have "(length (vs @ [Some (p, n)]) + length is) * SIZE_OF_VEC \<le> cap" "card W + length (vs @ [Some (p, n)]) + length is \<le> 100"
    "is = [length (vs @ [Some (p, n)]) ..< length (vs @ [Some (p, n)]) + length is]" using Cons.prems(3,4) i(2) by simp_all
  ultimately obtain k3 vs' where "alloc_blocks repr buf ?k (vs @ [Some (p, n)]) is = Some (k3, vs', Inr ())" "held_vecs k3 b W vs'"
    "length vs' = length (vs @ [Some (p, n)]) + length is" "filled (k_mem k3) 0 vs'" "heap_only b ?k k3"
    using Cons.IH [OF k2(1) Cons.prems(2) _ _ Cons.prems(5)] by blast
  then show ?case using n(1) f heap_only_trans [OF k2(3)] by simp
qed

lemma alloc_replacements_run:
  assumes "held_vecs k b W vs" "(buf, cap) \<in> W" "(length vs + length is) * SIZE_OF_VEC \<le> cap" "card W + length vs + length is \<le> 100"
    and "\<forall>x. length (repr x) = SIZE_OF_VEC"
  shows "\<exists>k' vs'. alloc_replacements repr buf k vs is = Some (k', vs') \<and> held_vecs k' b W vs' \<and> heap_only b k k' \<and> keeps_vecs (W - {(buf, cap)}) k k'"
  using assms
proof (induction "is" arbitrary: k vs)
  case Nil
  then show ?case by (auto simp: heap_only_refl keeps_vecs_def)
next
  case (Cons i "is")
  obtain n where n: "block_size i = Some n" "0 < n" "n \<le> 4096" using block_size_run by blast
  have room: "(length vs + 1) * SIZE_OF_VEC \<le> cap" "card W + length vs \<le> 100" using Cons.prems(3,4) by (auto simp: SIZE_OF_VEC_def)
  from push_run [OF Cons.prems(1,2) room Cons.prems(5) n(2,3), of "pattern i XOR 0xFF"] obtain k1 p where
    f: "vec_filled k (pattern i XOR 0xFF) n = Some (k1, (p, n))" and
    k2: "held_vecs (store_elem repr k1 buf (length vs) (Some (p, n))) b W (vs @ [Some (p, n)])"
      "heap_only b k (store_elem repr k1 buf (length vs) (Some (p, n)))"
      "keeps_vecs (W \<union> vecs vs - {(buf, cap)}) k (store_elem repr k1 buf (length vs) (Some (p, n)))"
    unfolding Let_def by blast
  let ?k = "store_elem repr k1 buf (length vs) (Some (p, n))"
  have "(length (vs @ [Some (p, n)]) + length is) * SIZE_OF_VEC \<le> cap" "card W + length (vs @ [Some (p, n)]) + length is \<le> 100"
    using Cons.prems(3,4) by simp_all
  then obtain k3 vs' where k3: "alloc_replacements repr buf ?k (vs @ [Some (p, n)]) is = Some (k3, vs')" "held_vecs k3 b W vs'" "heap_only b ?k k3"
    "keeps_vecs (W - {(buf, cap)}) ?k k3" using Cons.IH [OF k2(1) Cons.prems(2) _ _ Cons.prems(5)] by blast
  have "keeps_vecs (W - {(buf, cap)}) k k3" by (rule keeps_vecs_trans [OF k2(3) k3(4)]) auto
  then show ?case using n(1) f k3 heap_only_trans [OF k2(2) k3(3)] by simp
qed

lemma check_apart_ok:
  assumes "live k b V" "(p, n) \<in> V"
  shows "vecs vs \<subseteq> V \<Longrightarrow> (p, n) \<notin> vecs vs \<Longrightarrow> check_apart p (p + n) err vs = Some (Inr ())"
proof (induction vs)
  case (Cons x vs)
  show ?case
  proof (cases x)
    case (Some v)
    obtain q m where v: "v = (q, m)" by (cases v)
    have "(q, m) \<in> V" "(p, n) \<noteq> (q, m)" using Cons.prems Some v by auto
    then have "p + n < q \<or> q + m < p" "uadd q m = Some (q + m)"
      using live_apart [OF assms] live_bounds(3) [OF assms(1)] by (auto simp: uadd_def)
    then show ?thesis using Cons Some v by auto
  qed (use Cons in auto)
qed simp

lemma check_blocks_ok:
  assumes "live k b V"
  shows "vecs vs \<subseteq> V \<Longrightarrow> distinct (somes vs) \<Longrightarrow> check_blocks b (b + HEAP_SIZE) vs = Some (Inr ())"
proof (induction vs)
  case (Cons x vs)
  show ?case
  proof (cases x)
    case (Some v)
    obtain p n where v: "v = (p, n)" by (cases v)
    have pn: "(p, n) \<in> V" "(p, n) \<notin> vecs vs" "vecs vs \<subseteq> V" using Cons.prems Some v by (auto simp: somes_mem)
    note B = live_bounds [OF assms pn(1)]
    show ?thesis
      using Cons Some v B check_apart_ok [OF assms pn(1,3,2)] by (simp add: uadd_def)
  qed (use Cons in auto)
qed simp

lemma check_replacements_ok:
  assumes "live k b V" "vecs blocks \<subseteq> V"
  shows "vecs vs \<subseteq> V \<Longrightarrow> vecs vs \<inter> vecs blocks = {} \<Longrightarrow> check_replacements b (b + HEAP_SIZE) blocks vs = Some (Inr ())"
proof (induction vs)
  case (Cons x vs)
  show ?case
  proof (cases x)
    case (Some v)
    obtain p n where v: "v = (p, n)" by (cases v)
    have pn: "(p, n) \<in> V" "(p, n) \<notin> vecs blocks" using Cons.prems Some v by auto
    note B = live_bounds [OF assms(1) pn(1)]
    show ?thesis
      using Cons Some v B check_apart_ok [OF assms(1) pn(1) assms(2) pn(2)] by (simp add: uadd_def)
  qed (use Cons in auto)
qed simp

lemma check_contents_ok: "filled m i vs \<Longrightarrow> check_contents step what m i vs = Some (Inr ())"
proof (induction vs arbitrary: i)
  case (Cons x vs)
  have rest: "filled m (i + 1) vs" using Cons.prems by (force simp: filled_def)
  show ?case
  proof (cases x)
    case (Some v)
    obtain p n where v: "v = (p, n)" by (cases v)
    have "raw_slice m p n = replicate n (pattern i)" using Cons.prems Some v by (force simp: filled_def)
    then have "position (\<lambda>x. x \<noteq> pattern i) (raw_slice m p n) = None" by (simp add: position_None_iff)
    then show ?thesis using Cons.IH [OF rest] Some v by simp
  qed (use Cons.IH [OF rest] in simp)
qed simp

lemma update_None:
  "i < length vs \<Longrightarrow> distinct (somes vs) \<Longrightarrow> distinct (somes (vs[i := None])) \<and>
    vecs (vs[i := None]) = (case vs ! i of None \<Rightarrow> vecs vs | Some v \<Rightarrow> vecs vs - {v})"
proof (induction vs arbitrary: i)
  case (Cons x vs)
  show ?case
  proof (cases i)
    case 0
    then show ?thesis using Cons.prems by (cases x) (auto simp: somes_mem)
  next
    case (Suc j)
    have tl: "distinct (somes vs)" using Cons.prems(2) by (cases x) auto
    have "v \<noteq> w" if "vs ! j = Some w" "x = Some v" for v w
      using that Cons.prems Suc nth_mem [of j vs] by (auto simp: somes_mem vecs_def)
    then show ?thesis
      using Cons.IH [of j] Cons.prems Suc tl by (cases x; cases "vs ! j") (auto simp: somes_mem)
  qed
qed simp

lemma free_block_run:
  assumes "held_vecs k b W vs" "(buf, cap) \<in> W" "length vs * SIZE_OF_VEC \<le> cap" "i < length vs" "\<forall>x. length (repr x) = SIZE_OF_VEC"
  shows "\<exists>k'. (case vs ! i of Some v \<Rightarrow> vec_drop k v | None \<Rightarrow> Some k) = Some k' \<and>
    held_vecs (store_elem repr k' buf i None) b W (vs[i := None]) \<and> heap_only b k (store_elem repr k' buf i None) \<and>
    keeps_vecs (vecs (vs[i := None])) k (store_elem repr k' buf i None)"
proof -
  let ?V = "W \<union> vecs (vs[i := None])"
  have held: "live k b (W \<union> vecs vs)" "W \<inter> vecs vs = {}" "distinct (somes vs)" using assms(1) by (auto simp: held_vecs_def)
  note up = update_None [OF assms(4) held(3)]
  obtain k' where k': "(case vs ! i of Some v \<Rightarrow> vec_drop k v | None \<Rightarrow> Some k) = Some k'" "live k' b ?V" "heap_only b k k'" "keeps_vecs ?V k k'"
  proof (cases "vs ! i")
    case None
    then show thesis using that up held by (simp add: heap_only_refl keeps_vecs_def)
  next
    case (Some v)
    have v: "v \<in> vecs vs" using Some nth_mem [OF assms(4)] by (simp add: vecs_def)
    then have "W \<union> vecs vs - {v} = ?V" using up Some held(2) by auto
    then show thesis using that vec_drop_run [OF held(1), of v] v Some by auto
  qed
  have sub: "vecs (vs[i := None]) \<subseteq> vecs vs" using up by (auto split: option.splits)
  have "i * SIZE_OF_VEC + length (repr None) \<le> cap" using assms(3,4,5) mult_le_mono1 [of "i + 1" "length vs" SIZE_OF_VEC] by simp
  note st = live_store [OF k'(2) _ this, of buf, folded store_elem_def]
  have k2: "live (store_elem repr k' buf i None) b ?V" "heap_only b k' (store_elem repr k' buf i None)"
    "keeps_vecs (?V - {(buf, cap)}) k' (store_elem repr k' buf i None)" using st assms(2) by auto
  have "keeps_vecs (vecs (vs[i := None])) k (store_elem repr k' buf i None)"
    by (rule keeps_vecs_trans [OF k'(4) k2(3)]) (use sub held(2) assms(2) in auto)
  moreover have "held_vecs (store_elem repr k' buf i None) b W (vs[i := None])" using k2(1) up sub held(2) by (auto simp: held_vecs_def)
  ultimately show ?thesis using k'(1) heap_only_trans [OF k'(3) k2(2)] by blast
qed

lemma filled_None: "filled m i vs \<Longrightarrow> filled m i (vs[j := None])"
  unfolding filled_def by (metis length_list_update nth_list_update_eq nth_list_update_neq option.distinct(1))

lemma free_blocks_run:
  assumes "held_vecs k b W vs" "(buf, cap) \<in> W" "length vs * SIZE_OF_VEC \<le> cap" "\<forall>i \<in> set is. i < length vs"
    and "\<forall>x. length (repr x) = SIZE_OF_VEC" "filled (k_mem k) 0 vs"
  shows "\<exists>k' vs'. free_blocks repr buf k vs is = Some (k', vs') \<and> held_vecs k' b W vs' \<and> length vs' = length vs \<and> filled (k_mem k') 0 vs' \<and> heap_only b k k'"
  using assms
proof (induction "is" arbitrary: k vs)
  case Nil
  then show ?case by (auto simp: heap_only_refl)
next
  case (Cons i "is")
  have i: "i < length vs" using Cons.prems(4) by simp
  from free_block_run [OF Cons.prems(1-3) i Cons.prems(5)] obtain k1 where
    k1: "(case vs ! i of Some v \<Rightarrow> vec_drop k v | None \<Rightarrow> Some k) = Some k1" and
    k2: "held_vecs (store_elem repr k1 buf i None) b W (vs[i := None])" "heap_only b k (store_elem repr k1 buf i None)"
      "keeps_vecs (vecs (vs[i := None])) k (store_elem repr k1 buf i None)" by blast
  have "filled (k_mem (store_elem repr k1 buf i None)) 0 (vs[i := None])"
    by (rule filled_keeps [OF filled_None [OF Cons.prems(6)] k2(3)]) simp
  then obtain k3 vs' where k3: "free_blocks repr buf (store_elem repr k1 buf i None) (vs[i := None]) is = Some (k3, vs')" "held_vecs k3 b W vs'"
    "length vs' = length vs" "filled (k_mem k3) 0 vs'" "heap_only b (store_elem repr k1 buf i None) k3"
    using Cons.IH [OF k2(1) Cons.prems(2) _ _ Cons.prems(5)] Cons.prems(3,4) by auto
  then show ?case using k1 i heap_only_trans [OF k2(2) k3(5)] by (simp add: index_def index_set_def)
qed

lemma replace_half_run:
  assumes held: "held_vecs k b {(buf, 1536)} vs" and vs: "length vs = BLOCK_COUNT" "filled (k_mem k) 0 vs" and repr: "\<forall>x. length (repr x) = SIZE_OF_VEC"
  shows "\<exists>k'. replace_half repr b (b + HEAP_SIZE) buf k vs = Some (k', Inr ()) \<and> live k' b {} \<and> heap_only b k k'"
proof -
  have r: "length vs * SIZE_OF_VEC \<le> 1536" "\<forall>i \<in> set even_indices. i < length vs" using vs(1) by (auto simp: rust_consts even_indices_def)
  obtain k1 bs where k1: "free_blocks repr buf k vs even_indices = Some (k1, bs)" "held_vecs k1 b {(buf, 1536)} bs" "length bs = BLOCK_COUNT"
    "filled (k_mem k1) 0 bs" "heap_only b k k1" using free_blocks_run [OF held _ r repr vs(2), of buf] vs(1) by auto
  let ?B = "insert (buf, 1536) (vecs bs)"
  have b1: "live k1 b ?B" "(buf, 1536) \<notin> vecs bs" "distinct (somes bs)" using k1(2) by (auto simp: held_vecs_def)
  have c: "card ?B \<le> 65" using card_vecs [of bs] k1(3) by (simp add: card_insert_if BLOCK_COUNT_def)
  obtain k2 rbuf where k2: "vec_with_capacity k1 (BLOCK_COUNT div 2) SIZE_OF_VEC 8 = Some (k2, rbuf)" "live k2 b (insert (rbuf, 768) ?B)"
    "(rbuf, 768) \<notin> ?B" "heap_only b k1 k2" "keeps_vecs ?B k1 k2"
    using vec_with_capacity_run [OF b1(1), of "BLOCK_COUNT div 2" SIZE_OF_VEC 8] c by (auto simp: rust_consts)
  let ?W = "insert (rbuf, 768) ?B"
  have "card ?W \<le> 66" using c card_vecs(1) [of bs] by (simp add: card_insert_if)
  then have "held_vecs k2 b ?W []" "(length ([] :: vec_u8 option list) + length even_indices) * SIZE_OF_VEC \<le> 768"
    "card ?W + length ([] :: vec_u8 option list) + length even_indices \<le> 100"
    using k2(2) by (simp_all add: held_vecs_def even_indices_def rust_consts)
  then obtain k3 rs where k3: "alloc_replacements repr rbuf k2 [] even_indices = Some (k3, rs)" "held_vecs k3 b ?W rs" "heap_only b k2 k3"
    "keeps_vecs (?W - {(rbuf, 768)}) k2 k3" using alloc_replacements_run [OF _ _ _ _ repr] by blast
  have fill: "filled (k_mem k3) 0 bs"
    using filled_keeps [OF filled_keeps [OF k1(4) k2(5)] k3(4)] k2(3) by auto
  have l3: "live k3 b (?W \<union> vecs rs)" "?W \<inter> vecs rs = {}" using k3(2) by (auto simp: held_vecs_def)
  have chk: "check_contents 4 SurvivorDamaged (k_mem k3) 0 bs = Some (Inr ())" "check_replacements b (b + HEAP_SIZE) bs rs = Some (Inr ())"
    using check_contents_ok [OF fill] check_replacements_ok [OF l3(1), of bs rs] l3(2) by auto
  obtain k4 where k4: "drop_vecs k3 rbuf rs = Some k4" "live k4 b (?W - {(rbuf, 768)})" "heap_only b k3 k4" using drop_vecs_run [OF k3(2)] by blast
  have "?W - {(rbuf, 768)} = {(buf, 1536)} \<union> vecs bs" using k2(3) by auto
  then have "held_vecs k4 b {(buf, 1536)} bs" using k4(2) b1 by (auto simp: held_vecs_def)
  then obtain k5 where k5: "drop_vecs k4 buf bs = Some k5" "live k5 b {}" "heap_only b k4 k5" using drop_vecs_run [of k4 b "{(buf, 1536)}" bs buf 1536] by auto
  have "replace_half repr b (b + HEAP_SIZE) buf k vs = Some (k5, Inr ())"
    by (simp add: replace_half_def k1(1) k2(1) k3(1) chk k4(1) k5(1))
  moreover have "heap_only b k k5" using k1(5) k2(4) k3(3) k4(3) k5(3) by (meson heap_only_trans)
  ultimately show ?thesis using k5(2) by blast
qed

lemma check_vectors_run:
  assumes live: "live k b {}" and repr: "\<forall>x. length (repr x) = SIZE_OF_VEC"
  shows "\<exists>k'. check_vectors repr b (b + HEAP_SIZE) k = Some (k', Inr ()) \<and> live k' b {} \<and> heap_only b k k'"
proof -
  obtain k1 buf where k1: "vec_with_capacity k BLOCK_COUNT SIZE_OF_VEC 8 = Some (k1, buf)" "live k1 b {(buf, 1536)}" "heap_only b k k1"
    using vec_with_capacity_run [OF live, of BLOCK_COUNT SIZE_OF_VEC 8] by (auto simp: rust_consts)
  have start: "held_vecs k1 b {(buf, 1536)} []" "filled (k_mem k1) 0 []" using k1(2) by (simp_all add: held_vecs_def filled_def)
  have room: "(length ([] :: vec_u8 option list) + length [0..<BLOCK_COUNT]) * SIZE_OF_VEC \<le> 1536"
    "card {(buf, 1536 :: nat)} + length ([] :: vec_u8 option list) + length [0..<BLOCK_COUNT] \<le> 100"
    "[0..<BLOCK_COUNT] = [length ([] :: vec_u8 option list) ..< length ([] :: vec_u8 option list) + length [0..<BLOCK_COUNT]]"
    by (simp_all add: SIZE_OF_VEC_def) (simp_all add: BLOCK_COUNT_def)
  obtain k2 vs where k2: "alloc_blocks repr buf k1 [] [0..<BLOCK_COUNT] = Some (k2, vs, Inr ())" "held_vecs k2 b {(buf, 1536)} vs" "length vs = BLOCK_COUNT"
    "filled (k_mem k2) 0 vs" "heap_only b k1 k2" using alloc_blocks_run [OF start(1) _ room(1,2) repr start(2) room(3)] by auto
  have l: "live k2 b ({(buf, 1536)} \<union> vecs vs)" "distinct (somes vs)" using k2(2) by (auto simp: held_vecs_def)
  have chk: "check_blocks b (b + HEAP_SIZE) vs = Some (Inr ())" "check_contents 3 ReadBackDiffers (k_mem k2) 0 vs = Some (Inr ())"
    using check_blocks_ok [OF l(1) _ l(2)] check_contents_ok [OF k2(4)] by auto
  obtain k3 where k3: "replace_half repr b (b + HEAP_SIZE) buf k2 vs = Some (k3, Inr ())" "live k3 b {}" "heap_only b k2 k3"
    using replace_half_run [OF k2(2-4) repr] by blast
  have "check_vectors repr b (b + HEAP_SIZE) k = Some (k3, Inr ())" by (simp add: check_vectors_def k1(1) k2(1) chk k3(1))
  then show ?thesis using k3(2) heap_only_trans [OF heap_only_trans [OF k1(3) k2(5)] k3(3)] by blast
qed

lemma check_whole_run:
  assumes "live k b {}"
  shows "check_whole k HEAP_SIZE = Some (k, Inr ())"
proof -
  let ?fl = "heap_list (lock_value (k_heap k))"
  have h: "heap_holds k b HEAP_SIZE {}" using assms by (simp add: live_def offsets_def)
  then have r: "heap_reach ?fl (raw_slice (k_mem k) b HEAP_SIZE) {}" "kernel_idle k" "0 < b" by (auto simp: heap_holds_def)
  have "fl_arena_len ?fl = HEAP_SIZE" using heap_reach_inv [OF r(1)] by (auto simp: heap_inv_def heap_shape_def HEAP_SIZE_def)
  then have st: "fl_stats ?fl = \<lparr> hs_free_blocks = 1, hs_free_bytes = HEAP_SIZE - HEADER_SIZE, hs_largest_free = HEAP_SIZE - HEADER_SIZE \<rparr>"
    using reach_empty [OF r(1)] by simp
  have stats: "heap_stats k = Some (k, fl_stats ?fl)"
    using r(2) set_heap_same [OF refl refl, of k] by (simp add: heap_stats_def with_heap_eq)
  obtain k' p where "heap_alloc k (HEAP_SIZE * 2) 8 = Some (k', p)" "if p = 0 then k' = k else p + HEAP_SIZE * 2 \<le> b + HEAP_SIZE \<and> b \<le> p"
    using heap_alloc_run [OF h, of "HEAP_SIZE * 2" 8] by (auto split: if_splits)
  then have "heap_alloc k (HEAP_SIZE * 2) 8 = Some (k, 0)" by (auto simp: HEAP_SIZE_def split: if_splits)
  then show ?thesis
    by (simp add: check_whole_def stats st usub_def umul_def ISIZE_MAX_def U64_MAX_def HEADER_SIZE_def HEAP_SIZE_def)
qed

lemma heap_self_check_run:
  assumes "live k b {}" "\<forall>x. length (repr x) = SIZE_OF_VEC"
  shows "\<exists>k'. heap_self_check repr k = Some (k', Inr ()) \<and> live k' b {} \<and> heap_only b k k'"
proof -
  have h: "kernel_idle k" "heap_base (lock_value (k_heap k)) = b" "heap_len (lock_value (k_heap k)) = HEAP_SIZE" "b + HEAP_SIZE \<le> U64_MAX"
    using assms(1) by (auto simp: live_def heap_holds_def)
  have region: "heap_region k = Some (k, b, HEAP_SIZE)"
    using h set_heap_same [OF refl refl, of k] by (simp add: heap_region_def with_heap_eq)
  obtain k' where k': "check_vectors repr b (b + HEAP_SIZE) k = Some (k', Inr ())" "live k' b {}" "heap_only b k k'"
    using check_vectors_run [OF assms] by blast
  then have "heap_self_check repr k = Some (k', Inr ())"
    using h(4) check_whole_run [OF k'(2)] by (simp add: heap_self_check_def region uadd_def try_then_def)
  then show ?thesis using k' by blast
qed

section \<open>Properties\<close>

lemma with_frames_heap: "with_frames f (k\<lparr>k_heap := h, k_mem := m\<rparr>) = map_option (\<lambda>(k, r). (k\<lparr>k_heap := h, k_mem := m\<rparr>, r)) (with_frames f k)"
  by (cases "with_lock f (k_cpu k) (k_frames k)") (auto simp: with_frames_def)

lemma frame_self_check_heap:
  "frame_self_check (k\<lparr>k_heap := h, k_mem := m\<rparr>) bi_at bi = map_option (\<lambda>(k, r). (k\<lparr>k_heap := h, k_mem := m\<rparr>, r)) (frame_self_check k bi_at bi)"
proof -
  have "owned_ranges (k\<lparr>k_heap := h, k_mem := m\<rparr>) bi_at bi = owned_ranges k bi_at bi" by (simp add: owned_ranges_def)
  then show ?thesis using with_frames_heap by (simp add: frame_self_check_def)
qed

lemma init_heap_live:
  assumes "kernel_idle k" "length (k_bitmap k) = FRAME_BITMAP_BYTES" "boot_info_memory_map k bi = Some (Inr m)" "disjoint_conventional (regions_of m)"
    and "init_allocators k bi_at bi limit = Some (k', Inr lay)"
  shows "\<exists>b. layout_heap lay = (b, HEAP_SIZE) \<and> live k' b {}"
  using assms(1-4)
proof (cases rule: init_allocators_cases [where bi_at = bi_at and limit = limit])
  case (error k'' e)
  then show ?thesis using assms(5) by simp
next
  case (ok fa s fa' fl a lay' k'')
  have e: "k'' = k'" "lay' = lay" using ok(1) assms(5) by auto
  have "s + 255 \<in> free_set fa" using run_subset [OF ok(5)] by auto
  then have "frame_addr fa s + HEAP_SIZE \<le> U64_MAX" "0 < frame_addr fa s"
    using ok(15,16) by (auto simp: free_set_def frame_addr_def rust_consts)
  moreover have "4096 dvd frame_addr fa s" by (simp add: frame_addr_def PAGE_SIZE_def)
  ultimately have "live k' (frame_addr fa s) {}"
    using assms(1) ok(10,11) unfolding e(1) [symmetric] ok(2) by (simp add: live_def offsets_def heap_holds_def raw_slice_store) (simp add: HEAP_SIZE_def)
  then show ?thesis using ok(3) unfolding e by blast
qed

text \<open>
  C29. After a successful \<open>init_allocators\<close> that left at least two frames free, the memory self-check passes, whatever the layout of
  a vector: no allocation of the heap's part fails, its blocks are apart and keep their contents while others come and
  go, and afterwards the heap is one free block again; every test of the frame allocator succeeds and all frames
  are given back.  Nothing but the heap's memory and the allocators' own state changes.
\<close>

theorem memory_self_check_passes:
  assumes k: "kernel_idle k" "length (k_bitmap k) = FRAME_BITMAP_BYTES" and fit: "owned_fit k bi_at bi"
    and m: "boot_info_memory_map k bi = Some (Inr m)" "disjoint_conventional (regions_of m)"
    and init: "init_allocators k bi_at bi limit = Some (k', Inr lay)" "2 \<le> stat_free (layout_frames lay)"
    and repr: "\<forall>x. length (repr x) = SIZE_OF_VEC"
  shows "\<exists>k'' b fa fa'. memory_self_check repr k' bi_at bi = Some (k'', Inr ()) \<and> layout_heap lay = (b, HEAP_SIZE) \<and> heap_holds k'' b HEAP_SIZE {} \<and>
    k'' = k'\<lparr>k_frames := k_frames k'', k_heap := k_heap k'', k_mem := k_mem k''\<rparr> \<and> (\<forall>x. x \<notin> {b ..< b + HEAP_SIZE} \<longrightarrow> k_mem k'' x = k_mem k' x) \<and>
    frames_of k' = Some fa \<and> frames_of k'' = Some fa' \<and> fa_inv fa' \<and> fa_frame fa' = fa_frame fa \<and> free_set fa' = free_set fa"
proof -
  obtain b where b: "layout_heap lay = (b, HEAP_SIZE)" "live k' b {}" using init_heap_live [OF k m init(1)] by blast
  obtain k1 where k1: "heap_self_check repr k' = Some (k1, Inr ())" "live k1 b {}" "heap_only b k' k1" using heap_self_check_run [OF b(2) repr] by blast
  obtain h mem where hm: "k1 = k'\<lparr>k_heap := h, k_mem := mem\<rparr>" "\<forall>x. x \<notin> {b ..< b + HEAP_SIZE} \<longrightarrow> mem x = k_mem k' x"
    using k1(3) by (auto simp: heap_only_def)
  obtain fa fa' where f: "frames_of k' = Some fa" "frame_self_check k' bi_at bi = Some (set_frames (Some fa') k', Inr ())" "fa_inv fa'"
    "fa_frame fa' = fa_frame fa" "free_set fa' = free_set fa" using self_check_after_init [OF k fit m init] by blast
  let ?k = "(set_frames (Some fa') k')\<lparr>k_heap := h, k_mem := mem\<rparr>"
  have eq: "?k = set_frames (Some fa') k1" by (simp add: hm(1) set_frames_def)
  have "memory_self_check repr k' bi_at bi = Some (?k, Inr ())"
    using k1(1) f(2) frame_self_check_heap [where k = k' and h = h and m = mem and bi_at = bi_at and bi = bi] by (simp add: memory_self_check_def try_then_def hm(1))
  moreover have "heap_holds ?k b HEAP_SIZE {}" using k1(2) unfolding eq by (simp add: live_def offsets_def heap_holds_def)
  moreover have "?k = k'\<lparr>k_frames := k_frames ?k, k_heap := k_heap ?k, k_mem := k_mem ?k\<rparr>" by (simp add: set_frames_def)
  moreover have "frames_of ?k = Some fa'" unfolding eq by simp
  ultimately show ?thesis using b(1) f hm(2) by (intro exI [of _ ?k] exI [of _ b] exI [of _ fa] exI [of _ fa']) simp
qed

theorem memory_self_check_passes_witness:
  "\<exists>k lay k'. init_allocators sample_kernel 3211264 sample_boot 17825792 = Some (k, Inr lay) \<and>
     memory_self_check (\<lambda>_. replicate SIZE_OF_VEC 0) k 3211264 sample_boot = Some (k', Inr ())"
proof -
  obtain k lay where i: "init_allocators sample_kernel 3211264 sample_boot 17825792 = Some (k, Inr lay)" "2 \<le> stat_free (layout_frames lay)"
    using sample_init by blast
  have "\<forall>x :: vec_u8 option. length (replicate SIZE_OF_VEC (0 :: u8)) = SIZE_OF_VEC" by simp
  from memory_self_check_passes [OF sample_idle sample_owned_fit sample_memory_map sample_disjoint i this] show ?thesis using i(1) by blast
qed

end
