(* ===== verification/Image_Loader.thy ===== *)
theory Image_Loader
  imports Elf_Image Kernel_Memory
begin

text \<open>
  The image loader of \<^verbatim>\<open>src/src/bootloader/fs_loader.rs\<close>: it reads an image from the boot volume, checks
  it, asks the firmware for the pages of its segments and copies the segments to their addresses.

  The firmware and the crate that wraps it are not part of the repository.  Its services are the fields of
  a record that every definition takes as an argument: a service maps the state of the boot, which is
  the firmware's own state and the machine's memory, to a new state and a result.  The status codes of the
  firmware are a type parameter.
\<close>

section \<open>The firmware\<close>

record 'fw Boot =
  bt_fw :: 'fw
  bt_mem :: "nat \<Rightarrow> u8"

datatype 'st FsError = FsIo 'st | FsOther

record ('fw, 'st) BootServices =
  get_image_file_system :: "'fw Boot \<Rightarrow> 'fw Boot \<times> ('st + unit)"
  fs_read :: "string \<Rightarrow> 'fw Boot \<Rightarrow> 'fw Boot \<times> ('st FsError + bytes)"
  allocate_address :: "u64 \<Rightarrow> 'fw Boot \<Rightarrow> 'fw Boot \<times> ('st + unit)"
  allocate_any :: "usize \<Rightarrow> 'fw Boot \<Rightarrow> 'fw Boot \<times> ('st + u64)"

text \<open>The \<open>?\<close> operator with a conversion of the error.\<close>

definition try_map :: "('e + 'a) panics \<Rightarrow> ('e \<Rightarrow> 'x) \<Rightarrow> ('a \<Rightarrow> ('x + 'b) panics) \<Rightarrow> ('x + 'b) panics" where
  "try_map p conv f = do { r \<leftarrow> p; case r of Inl e \<Rightarrow> Some (Inl (conv e)) | Inr v \<Rightarrow> f v }"

lemma case_sum_eq: "case_sum f g y = c \<longleftrightarrow> (\<exists>a. y = Inl a \<and> f a = c) \<or> (\<exists>b. y = Inr b \<and> g b = c)"
  by (cases y) auto

lemma try_map_Inr: "try_map p conv f = Some (Inr y) \<longleftrightarrow> (\<exists>v. p = Some (Inr v) \<and> f v = Some (Inr y))"
  by (cases p) (auto simp: try_map_def split: sum.split)

text \<open>Signed 64-bit arithmetic: the cast from \<open>u64\<close>, checked addition and subtraction, and the cast back.\<close>

definition as_i64 :: "u64 \<Rightarrow> int" where
  "as_i64 x = (if x < 2 ^ 63 then int x else int x - 2 ^ 64)"

definition i64_checked :: "int \<Rightarrow> int panics" where
  "i64_checked x = (if - (2 ^ 63) \<le> x \<and> x < 2 ^ 63 then Some x else None)"

definition as_u64 :: "int \<Rightarrow> u64" where
  "as_u64 x = nat (x mod 2 ^ 64)"

section \<open>The loader\<close>

definition KERNEL_PATH :: string where
  "KERNEL_PATH = CHR 0x5C # ''EFI'' @ CHR 0x5C # ''PARANUKO'' @ CHR 0x5C # ''KERNEL.ELF''"
definition USER_PATH :: string where
  "USER_PATH = CHR 0x5C # ''EFI'' @ CHR 0x5C # ''PARANUKO'' @ CHR 0x5C # ''USER.ELF''"
definition MAX_KERNEL_PAGES :: usize where [rust_consts]: "MAX_KERNEL_PAGES = 256"

record LoadedKernel =
  lk_base :: u64
  lk_size :: u64
  lk_entry :: u64
  lk_segments :: usize
  lk_vaddr_delta :: int

datatype 'st LoadError =
    Efi 'st
  | Fs "'st FsError"
  | Image ImageError
  | LoadSegment SegmentError
  | TooManyPages usize

text \<open>The three status codes the source names come from the firmware's crate.\<close>

definition load_error_status :: "'st \<Rightarrow> 'st \<Rightarrow> 'st \<Rightarrow> 'st LoadError \<Rightarrow> 'st" where
  "load_error_status VOLUME_CORRUPTED LOAD_ERROR OUT_OF_RESOURCES err =
     (case err of
        Efi s \<Rightarrow> s
      | Fs (FsIo s) \<Rightarrow> s
      | Fs FsOther \<Rightarrow> VOLUME_CORRUPTED
      | Image _ \<Rightarrow> LOAD_ERROR
      | LoadSegment _ \<Rightarrow> LOAD_ERROR
      | TooManyPages _ \<Rightarrow> OUT_OF_RESOURCES)"

text \<open>The state of the copying loop: the boot, the array of pages already asked for, and its length.\<close>

type_synonym 'fw loading = "'fw Boot \<times> u64 list \<times> usize"

definition load_page :: "('fw, 'st) BootServices \<Rightarrow> u64 \<Rightarrow> 'fw loading \<Rightarrow> ('st LoadError + 'fw loading) panics" where
  "load_page bs page st = (case st of (b, allocated, len) \<Rightarrow> do {
     seen \<leftarrow> slice allocated 0 len;
     if page \<in> set seen then Some (Inr (b, allocated, len))
     else if len = length allocated then do { n \<leftarrow> uadd len 1; Some (Inl (TooManyPages n)) }
     else case allocate_address bs page b of
       (b, Inl s) \<Rightarrow> Some (Inl (Efi s))
     | (b, Inr _) \<Rightarrow> do {
         allocated \<leftarrow> index_set allocated len page;
         len \<leftarrow> uadd len 1;
         Some (Inr (b, allocated, len))
       }
   })"

function load_pages :: "('fw, 'st) BootServices \<Rightarrow> u64 \<Rightarrow> u64 \<Rightarrow> 'fw loading \<Rightarrow> ('st LoadError + 'fw loading) panics" where
  "load_pages bs page page_end st =
     (if page < page_end then
        try_map (load_page bs page st) id (\<lambda>st. do {
          page \<leftarrow> (uadd page ELF_PAGE_SIZE);
          load_pages bs page page_end st
        })
      else Some (Inr st))"
  by pat_completeness auto

termination
  by (relation "measure (\<lambda>(bs, page, page_end, st). page_end - page)") (auto simp: uadd_def rust_consts split: if_splits)

declare load_pages.simps [simp del]

definition load_segment :: "('fw, 'st) BootServices \<Rightarrow> bytes \<Rightarrow> 'fw loading \<Rightarrow> Segment \<Rightarrow>
    ((SegmentError + 'st LoadError + 'fw Boot) + 'fw loading) panics" where
  "load_segment bs data st segment = do {
     (page_start, page_end) \<leftarrow> Elf_Image.page_range segment;
     r \<leftarrow> load_pages bs page_start page_end st;
     case r of
       Inl e \<Rightarrow> Some (Inl (Inr (Inl e)))
     | Inr (b, allocated, len) \<Rightarrow> do {
         let file_start = seg_offset segment;
         file_end \<leftarrow> uadd (seg_offset segment) (seg_filesz segment);
         src \<leftarrow> slice data file_start file_end;
         let dest = seg_paddr segment;
         let m = raw_store (bt_mem b) dest src;
         bss_len \<leftarrow> usub (seg_memsz segment) (seg_filesz segment);
         let m = (if bss_len > 0 then raw_store m (dest + (file_end - file_start)) (replicate bss_len 0) else m);
         _ \<leftarrow> uadd (seg_paddr segment) (seg_memsz segment);
         Some (Inr (b\<lparr>bt_mem := m\<rparr>, allocated, len))
       }
   }"

definition first_segment :: "bytes \<Rightarrow> (SegmentError + Segment) panics" where
  "first_segment data = try_map (segments data) id (\<lambda>it. do {
     (it, item) \<leftarrow> segment_next it;
     Some (case item of None \<Rightarrow> Inl EmptySegment | Some r \<Rightarrow> r)
   })"

definition copy_segments :: "('fw, 'st) BootServices \<Rightarrow> bytes \<Rightarrow> 'fw Boot \<Rightarrow> ('st LoadError + 'fw Boot) panics" where
  "copy_segments bs data b =
     try_map (each_segment data (load_segment bs data) (b, replicate MAX_KERNEL_PAGES 0, 0) (\<lambda>(b, _). Some (Inr (Inr b))))
       LoadSegment Some"

definition load_image :: "('fw, 'st) BootServices \<Rightarrow> bytes \<Rightarrow> 'fw Boot \<Rightarrow> ('st LoadError + 'fw Boot \<times> LoadedKernel) panics" where
  "load_image bs data b =
     try_map (elf_validate data) Image (\<lambda>entry.
     try_map (check_segments data) LoadSegment (\<lambda>segments.
     try_map (check_no_overlap data) LoadSegment (\<lambda>_.
     try_map (check_entry data entry) LoadSegment (\<lambda>_.
     try_map (loaded_span data) LoadSegment (\<lambda>(base, stop).
     try_map (first_segment data) LoadSegment (\<lambda>first. do {
       vaddr_delta \<leftarrow> i64_checked (as_i64 (seg_vaddr first) - as_i64 (seg_paddr first));
       try_map (copy_segments bs data b) id (\<lambda>b. do {
         size \<leftarrow> usub stop base;
         Some (Inr (b, \<lparr> lk_base = base, lk_size = size, lk_entry = entry, lk_segments = segments, lk_vaddr_delta = vaddr_delta \<rparr>))
       })
     }))))))"

definition fs_load :: "('fw, 'st) BootServices \<Rightarrow> string \<Rightarrow> 'fw Boot \<Rightarrow> ('st LoadError + 'fw Boot \<times> LoadedKernel) panics" where
  "fs_load bs path b =
     (case get_image_file_system bs b of
        (b, Inl s) \<Rightarrow> Some (Inl (Efi s))
      | (b, Inr _) \<Rightarrow>
         (case fs_read bs path b of
            (b, Inl e) \<Rightarrow> Some (Inl (Fs e))
          | (b, Inr data) \<Rightarrow> load_image bs data b))"

definition load_kernel :: "('fw, 'st) BootServices \<Rightarrow> 'fw Boot \<Rightarrow> ('st LoadError + 'fw Boot \<times> LoadedKernel) panics" where
  "load_kernel bs b = fs_load bs KERNEL_PATH b"

definition load_user :: "('fw, 'st) BootServices \<Rightarrow> 'fw Boot \<Rightarrow> ('st LoadError + 'fw Boot \<times> LoadedKernel) panics" where
  "load_user bs b = fs_load bs USER_PATH b"

section \<open>What the firmware promises\<close>

text \<open>
  \<open>owned\<close> is the set of page addresses the firmware has given to the boot loader.  A page is given once, file
  services give none, memory that was given is left alone, and a file that was read is a byte vector.
\<close>

definition page_of :: "nat \<Rightarrow> nat" where
  "page_of a = a div 4096 * 4096"

definition same_owned :: "('fw \<Rightarrow> nat set) \<Rightarrow> 'fw Boot \<Rightarrow> 'fw Boot \<Rightarrow> bool" where
  "same_owned owned b b' \<longleftrightarrow> (\<forall>a. page_of a \<in> owned (bt_fw b) \<longrightarrow> bt_mem b' a = bt_mem b a)"

definition pages_at :: "nat \<Rightarrow> nat \<Rightarrow> nat set" where
  "pages_at a n = (\<lambda>i. a + i * 4096) ` {..<n}"

definition firmware_ok :: "('fw, 'st) BootServices \<Rightarrow> ('fw \<Rightarrow> nat set) \<Rightarrow> bool" where
  "firmware_ok bs owned \<longleftrightarrow>
     (\<forall>b b' r. get_image_file_system bs b = (b', r) \<longrightarrow> same_owned owned b b' \<and> owned (bt_fw b') = owned (bt_fw b)) \<and>
     (\<forall>path b b' r. fs_read bs path b = (b', r) \<longrightarrow> same_owned owned b b' \<and> owned (bt_fw b') = owned (bt_fw b) \<and>
        (\<forall>d. r = Inr d \<longrightarrow> length d \<le> ISIZE_MAX)) \<and>
     (\<forall>p b b' u. allocate_address bs p b = (b', Inr u) \<longrightarrow> same_owned owned b b' \<and> p \<notin> owned (bt_fw b) \<and>
        owned (bt_fw b') = insert p (owned (bt_fw b))) \<and>
     (\<forall>n b b' a. allocate_any bs n b = (b', Inr a) \<longrightarrow> same_owned owned b b' \<and> a mod 4096 = 0 \<and> 0 < a \<and>
        a + n * 4096 \<le> U64_MAX \<and> pages_at a n \<inter> owned (bt_fw b) = {} \<and> owned (bt_fw b') = owned (bt_fw b) \<union> pages_at a n)"

lemma firmware_fs: "firmware_ok bs owned \<Longrightarrow> get_image_file_system bs b = (b', r) \<Longrightarrow> same_owned owned b b' \<and> owned (bt_fw b') = owned (bt_fw b)"
  by (simp add: firmware_ok_def)

lemma firmware_read: "firmware_ok bs owned \<Longrightarrow> fs_read bs path b = (b', r) \<Longrightarrow>
    same_owned owned b b' \<and> owned (bt_fw b') = owned (bt_fw b) \<and> (\<forall>d. r = Inr d \<longrightarrow> length d \<le> ISIZE_MAX)"
  unfolding firmware_ok_def by blast

lemma firmware_page: "firmware_ok bs owned \<Longrightarrow> allocate_address bs p b = (b', Inr u) \<Longrightarrow>
    same_owned owned b b' \<and> p \<notin> owned (bt_fw b) \<and> owned (bt_fw b') = insert p (owned (bt_fw b))"
  unfolding firmware_ok_def by blast

lemma firmware_any: "firmware_ok bs owned \<Longrightarrow> allocate_any bs n b = (b', Inr a) \<Longrightarrow>
    same_owned owned b b' \<and> a mod 4096 = 0 \<and> 0 < a \<and> a + n * 4096 \<le> U64_MAX \<and> pages_at a n \<inter> owned (bt_fw b) = {} \<and>
    owned (bt_fw b') = owned (bt_fw b) \<union> pages_at a n"
  unfolding firmware_ok_def by blast

lemma same_owned_refl: "same_owned owned b b"
  by (simp add: same_owned_def)

lemma same_owned_trans:
  "same_owned owned b c \<Longrightarrow> owned (bt_fw b) \<subseteq> owned (bt_fw c) \<Longrightarrow> same_owned owned c d \<Longrightarrow> same_owned owned b d"
  by (auto simp: same_owned_def)

section \<open>Asking for the pages\<close>

definition segment_pages :: "Segment \<Rightarrow> nat set" where
  "segment_pages g = {p. 4096 dvd p \<and> page_start g \<le> p \<and> p < page_stop g}"

definition image_pages :: "Segment list \<Rightarrow> nat set" where
  "image_pages gs = (\<Union>g \<in> set gs. segment_pages g)"

lemma segment_page_of: "seg_paddr g \<le> a \<Longrightarrow> a < seg_paddr g + seg_memsz g \<Longrightarrow> page_of a \<in> segment_pages g"
proof -
  assume a: "seg_paddr g \<le> a" "a < seg_paddr g + seg_memsz g"
  have "seg_paddr g + seg_memsz g \<le> page_stop g" unfolding page_stop_def by (rule div_ceil_bounds) simp
  moreover have "page_of a \<le> a" by (simp add: page_of_def)
  moreover have "page_start g \<le> page_of a" using a(1) by (simp add: page_start_def page_of_def div_le_mono)
  ultimately show ?thesis using a(2) by (simp add: segment_pages_def page_of_def)
qed

text \<open>The pages asked for since \<open>b0\<close> are the set \<open>Q\<close>.\<close>

definition pages_inv :: "('fw \<Rightarrow> nat set) \<Rightarrow> 'fw Boot \<Rightarrow> nat set \<Rightarrow> 'fw loading \<Rightarrow> bool" where
  "pages_inv owned b0 Q st \<longleftrightarrow> (case st of (b, allocated, len) \<Rightarrow>
     length allocated = MAX_KERNEL_PAGES \<and> len \<le> MAX_KERNEL_PAGES \<and> distinct (take len allocated) \<and> set (take len allocated) = Q \<and>
     Q \<inter> owned (bt_fw b0) = {} \<and> owned (bt_fw b) = owned (bt_fw b0) \<union> Q)"

text \<open>
  Why the pages \<open>P\<close> cannot be had when the loader owned \<open>B\<close> before: the firmware refuses one that was not asked
  for since, or there are too many of them.
\<close>

definition pages_refused :: "('fw, 'st) BootServices \<Rightarrow> ('fw \<Rightarrow> nat set) \<Rightarrow> nat set \<Rightarrow> nat set \<Rightarrow> 'st LoadError \<Rightarrow> bool" where
  "pages_refused bs owned B P e \<longleftrightarrow>
     (\<exists>p \<in> P. \<exists>b b' s. owned (bt_fw b) \<subseteq> B \<union> (P - {p}) \<and> allocate_address bs p b = (b', Inl s) \<and> e = Efi s) \<or>
     e = TooManyPages (MAX_KERNEL_PAGES + 1) \<and> MAX_KERNEL_PAGES < card P"

lemma load_page_cases:
  assumes fw: "firmware_ok bs owned" and inv: "pages_inv owned b0 Q st" and P: "Q \<subseteq> P" "p \<in> P" "finite P"
  obtains (ok) st' where "load_page bs p st = Some (Inr st')" "pages_inv owned b0 (insert p Q) st'" "same_owned owned (fst st) (fst st')"
  | (refused) e where "load_page bs p st = Some (Inl e)" "pages_refused bs owned (owned (bt_fw b0)) P e"
proof -
  obtain b al n where st: "st = (b, al, n)" by (cases st) auto
  have i: "length al = MAX_KERNEL_PAGES" "n \<le> MAX_KERNEL_PAGES" "distinct (take n al)" "set (take n al) = Q"
    "Q \<inter> owned (bt_fw b0) = {}" "owned (bt_fw b) = owned (bt_fw b0) \<union> Q" using inv by (simp_all add: pages_inv_def st)
  have seen: "slice al 0 n = Some (take n al)" using i(1,2) by (simp add: slice_def sub_def)
  consider (again) "p \<in> Q" | (full) "p \<notin> Q" "n = MAX_KERNEL_PAGES" | (ask) "p \<notin> Q" "n < MAX_KERNEL_PAGES" using i(2) by linarith
  then show thesis
  proof cases
    case again
    then show thesis using ok [of st] inv i(4) by (simp add: load_page_def st seen insert_absorb same_owned_refl)
  next
    case full
    have "card Q = MAX_KERNEL_PAGES" using distinct_card [OF i(3)] i(1,4) full(2) by simp
    moreover have "finite Q" using P(1,3) finite_subset by blast
    moreover have "card (insert p Q) \<le> card P" using P by (intro card_mono) auto
    ultimately have "MAX_KERNEL_PAGES < card P" using full(1) by simp
    then show thesis
      using refused [of "TooManyPages (MAX_KERNEL_PAGES + 1)"] full i(1,4) seen
      by (simp add: load_page_def st uadd_def pages_refused_def rust_consts)
  next
    case ask
    show thesis
    proof (cases "allocate_address bs p b")
      case (Pair b' r)
      show thesis
      proof (cases r)
        case (Inl s)
        then show thesis using refused [of "Efi s"] ask i(1,4,6) seen Pair P(1,2) by (auto simp: load_page_def st pages_refused_def)
      next
        case (Inr u)
        note f = firmware_page [OF fw, of p b b' u] and a = Pair [unfolded Inr]
        have tk: "take (Suc n) (al[n := p]) = take n al @ [p]" using ask(2) i(1) by (simp add: take_Suc_conv_app_nth)
        have run: "load_page bs p st = Some (Inr (b', al[n := p], Suc n))"
          using ask i(1,4) seen a by (simp add: load_page_def st index_set_def uadd_def rust_consts)
        show thesis
          using ok [OF run] f [OF a] i ask tk unfolding pages_inv_def by (simp add: st)
      qed
    qed
  qed
qed

definition pages_between :: "nat \<Rightarrow> nat \<Rightarrow> nat set" where
  "pages_between p q = {r. 4096 dvd r \<and> p \<le> r \<and> r < q}"

lemma pages_between_step:
  assumes "4096 dvd p" "4096 dvd q" "p < q"
  shows "p + 4096 \<le> q" "pages_between p q = insert p (pages_between (p + 4096) q)"
proof -
  have up: "p + 4096 \<le> r" if "4096 dvd r" "p < r" for r :: nat
    using dvd_imp_le [OF dvd_diff_nat [OF that(1) assms(1)]] that(2) by simp
  show "p + 4096 \<le> q" using up [OF assms(2,3)] .
  have "r \<in> pages_between p q \<longleftrightarrow> r = p \<or> r \<in> pages_between (p + 4096) q" for r
  proof (cases "r = p")
    case False
    then have "p \<le> r \<longleftrightarrow> p + 4096 \<le> r" if "4096 dvd r" using up [OF that] by linarith
    then show ?thesis using False unfolding pages_between_def by blast
  qed (use assms in \<open>simp add: pages_between_def\<close>)
  then show "pages_between p q = insert p (pages_between (p + 4096) q)" by blast
qed

lemma pages_inv_owned: "pages_inv owned b0 Q st \<Longrightarrow> owned (bt_fw (fst st)) = owned (bt_fw b0) \<union> Q"
  by (auto simp: pages_inv_def split: prod.splits)

lemma load_pages_run:
  assumes fw: "firmware_ok bs owned" and "pages_inv owned b0 Q st" "4096 dvd p" "4096 dvd q" "q \<le> U64_MAX"
    and "Q \<union> pages_between p q \<subseteq> P" "finite P"
  shows "(\<exists>st'. load_pages bs p q st = Some (Inr st') \<and> pages_inv owned b0 (Q \<union> pages_between p q) st' \<and> same_owned owned (fst st) (fst st')) \<or>
    (\<exists>e. load_pages bs p q st = Some (Inl e) \<and> pages_refused bs owned (owned (bt_fw b0)) P e)"
  using assms(2-6)
proof (induction "q - p" arbitrary: p Q st rule: less_induct)
  case less
  show ?case
  proof (cases "p < q")
    case False
    then have "pages_between p q = {}" by (auto simp: pages_between_def)
    then show ?thesis using False less.prems(1) by (simp add: load_pages.simps [of bs p q] same_owned_refl)
  next
    case True
    note st = pages_between_step [OF less.prems(2,3) True]
    have up: "uadd p ELF_PAGE_SIZE = Some (p + 4096)" using st(1) less.prems(4) by (simp add: uadd_def ELF_PAGE_SIZE_def)
    have P: "Q \<subseteq> P" "p \<in> P" using less.prems(5) st(2) by auto
    from fw less.prems(1) P assms(7) show ?thesis
    proof (cases rule: load_page_cases)
      case (ok st')
      have tr: "same_owned owned (fst st) b" if "same_owned owned (fst st') b" for b
        using same_owned_trans [OF ok(3) _ that] pages_inv_owned [OF ok(2)] pages_inv_owned [OF less.prems(1)] by auto
      have "q - (p + 4096) < q - p" "4096 dvd p + 4096" "insert p Q \<union> pages_between (p + 4096) q \<subseteq> P"
        using True less.prems(2,5) st(2) by auto
      from less.hyps [OF this(1) ok(2) this(2) less.prems(3,4) this(3)] show ?thesis
        using True ok(1) st(2) up tr by (auto simp: load_pages.simps [of bs p q] try_map_def)
    next
      case (refused e)
      then show ?thesis using True by (simp add: load_pages.simps [of bs p q] try_map_def)
    qed
  qed
qed

section \<open>Copying the segments\<close>

definition segment_loaded :: "bytes \<Rightarrow> (nat \<Rightarrow> u8) \<Rightarrow> Segment \<Rightarrow> bool" where
  "segment_loaded d m g \<longleftrightarrow> (\<forall>i < seg_filesz g. m (seg_paddr g + i) = d ! (seg_offset g + i)) \<and>
     (\<forall>i < seg_memsz g. seg_filesz g \<le> i \<longrightarrow> m (seg_paddr g + i) = 0)"

definition segment_bytes :: "Segment \<Rightarrow> nat set" where
  "segment_bytes g = {seg_paddr g ..< seg_paddr g + seg_memsz g}"

definition copied :: "bytes \<Rightarrow> (nat \<Rightarrow> u8) \<Rightarrow> Segment \<Rightarrow> nat \<Rightarrow> u8" where
  "copied d m g = raw_store (raw_store m (seg_paddr g) (sub d (seg_offset g) (seg_filesz g)))
     (seg_paddr g + seg_filesz g) (replicate (seg_memsz g - seg_filesz g) 0)"

lemma copied_loaded: "segment_ok d g \<Longrightarrow> segment_loaded d (copied d m g) g"
  by (auto simp: segment_ok_def segment_loaded_def copied_def raw_store_def nth_sub)

lemma copied_outside: "segment_ok d g \<Longrightarrow> a \<notin> segment_bytes g \<Longrightarrow> copied d m g a = m a"
  by (auto simp: segment_ok_def segment_bytes_def copied_def raw_store_def)

lemma segment_loaded_cong: "(\<And>a. a \<in> segment_bytes g \<Longrightarrow> m' a = m a) \<Longrightarrow> seg_filesz g \<le> seg_memsz g \<Longrightarrow> segment_loaded d m' g = segment_loaded d m g"
  by (auto simp: segment_loaded_def segment_bytes_def)

lemma load_segment_run:
  assumes "segment_ok d g" "page_stop g \<le> U64_MAX"
  shows "load_segment bs d st g = do {
    r \<leftarrow> load_pages bs (page_start g) (page_stop g) st;
    case r of Inl e \<Rightarrow> Some (Inl (Inr (Inl e))) | Inr (b, al, n) \<Rightarrow>
      (if seg_offset g + seg_filesz g \<le> U64_MAX then Some (Inr (b\<lparr>bt_mem := copied d (bt_mem b) g\<rparr>, al, n)) else None) }"
proof -
  have none: "raw_store m a [] = m" for m a by (rule ext) (auto simp: raw_store_def)
  have ok: "seg_filesz g \<le> seg_memsz g" "seg_offset g + seg_filesz g \<le> length d" "seg_paddr g + seg_memsz g \<le> U64_MAX"
    using assms(1) by (simp_all add: segment_ok_def)
  have bss: "(if 0 < seg_memsz g - seg_filesz g then raw_store m a (replicate (seg_memsz g - seg_filesz g) 0) else m) =
      raw_store m a (replicate (seg_memsz g - seg_filesz g) 0)" for m a
    by (cases "seg_memsz g - seg_filesz g = 0") (simp_all add: none)
  have rest: "slice d (seg_offset g) (seg_offset g + seg_filesz g) = Some (sub d (seg_offset g) (seg_filesz g))"
    "usub (seg_memsz g) (seg_filesz g) = Some (seg_memsz g - seg_filesz g)" "uadd (seg_paddr g) (seg_memsz g) = Some (seg_paddr g + seg_memsz g)"
    using ok by (simp_all add: slice_def usub_def uadd_def)
  show ?thesis
    unfolding load_segment_def page_range_eq Let_def
    by (cases "load_pages bs (page_start g) (page_stop g) st") (simp_all add: assms(2) rest bss none ok(3) copied_def uadd_def split: sum.split prod.split)
qed

text \<open>
  After the segments \<open>ps\<close>: their pages are the ones asked for, each of them is in memory, and what the
  loader owned before is as it was.
\<close>

definition progress :: "('fw \<Rightarrow> nat set) \<Rightarrow> bytes \<Rightarrow> 'fw Boot \<Rightarrow> Segment list \<Rightarrow> 'fw loading \<Rightarrow> bool" where
  "progress owned d b0 ps st \<longleftrightarrow> pages_inv owned b0 (image_pages ps) st \<and> (\<forall>g \<in> set ps. segment_loaded d (bt_mem (fst st)) g) \<and>
     same_owned owned b0 (fst st)"

definition image_ok :: "bytes \<Rightarrow> Segment list \<Rightarrow> bool" where
  "image_ok d gs \<longleftrightarrow> length d \<le> ISIZE_MAX \<and> (\<forall>g \<in> set gs. segment_ok d g \<and> page_stop g \<le> U64_MAX) \<and>
     sorted_wrt (\<lambda>g h. segment_bytes g \<inter> segment_bytes h = {}) gs"

lemma image_pages_snoc [simp]: "image_pages (ps @ [g]) = image_pages ps \<union> segment_pages g" "image_pages [] = {}"
  by (auto simp: image_pages_def)

lemma segment_pages_between: "segment_pages g = pages_between (page_start g) (page_stop g)"
  by (simp add: segment_pages_def pages_between_def)

lemma finite_image_pages: "finite (image_pages gs)"
  unfolding image_pages_def segment_pages_def by auto

lemma load_segment_progress:
  assumes fw: "firmware_ok bs owned" and st: "progress owned d b0 ps st" and ok: "image_ok d (ps @ [g])"
    and P: "image_pages (ps @ [g]) \<subseteq> P" "finite P"
  shows "(\<exists>st'. load_segment bs d st g = Some (Inr st') \<and> progress owned d b0 (ps @ [g]) st') \<or>
    (\<exists>e. load_segment bs d st g = Some (Inl (Inr (Inl e))) \<and> pages_refused bs owned (owned (bt_fw b0)) P e)"
proof -
  have g: "segment_ok d g" "page_stop g \<le> U64_MAX" "seg_offset g + seg_filesz g \<le> U64_MAX"
    using ok by (auto simp: image_ok_def segment_ok_def rust_consts)
  have inv: "pages_inv owned b0 (image_pages ps) st" using st by (simp add: progress_def)
  have al: "4096 dvd page_start g" "4096 dvd page_stop g" by (simp_all add: page_start_def page_stop_def)
  have "image_pages ps \<union> pages_between (page_start g) (page_stop g) \<subseteq> P" using P(1) by (simp add: segment_pages_between)
  from load_pages_run [OF fw inv al g(2) this P(2)] show ?thesis
  proof (elim disjE exE conjE)
    fix e assume "load_pages bs (page_start g) (page_stop g) st = Some (Inl e)" "pages_refused bs owned (owned (bt_fw b0)) P e"
    then show ?thesis using load_segment_run [OF g(1,2), of bs st] by simp
  next
    fix st' assume r: "load_pages bs (page_start g) (page_stop g) st = Some (Inr st')"
      "pages_inv owned b0 (image_pages ps \<union> pages_between (page_start g) (page_stop g)) st'" "same_owned owned (fst st) (fst st')"
    obtain b al n where st': "st' = (b, al, n)" by (cases st') auto
    let ?b = "b\<lparr>bt_mem := copied d (bt_mem b) g\<rparr>"
    have pi: "pages_inv owned b0 (image_pages (ps @ [g])) (?b, al, n)" using r(2) by (simp add: pages_inv_def st' segment_pages_between)
    have O: "owned (bt_fw (fst st)) = owned (bt_fw b0) \<union> image_pages ps" using pages_inv_owned [OF inv] .
    have old: "bt_mem ?b a = bt_mem (fst st) a" if "page_of a \<in> owned (bt_fw (fst st))" "a \<notin> segment_bytes g" for a
      using that r(3) copied_outside [OF g(1)] by (simp add: same_owned_def st')
    have fresh: "page_of a \<notin> owned (bt_fw b0)" if "a \<in> segment_bytes g" for a
      using segment_page_of [of g a] that pi by (auto simp: pages_inv_def segment_bytes_def)
    have "bt_mem ?b a = bt_mem b0 a" if "page_of a \<in> owned (bt_fw b0)" for a
      using old [of a] fresh [of a] that st O by (auto simp: progress_def same_owned_def)
    then have "same_owned owned b0 ?b" by (simp add: same_owned_def)
    moreover have "segment_loaded d (bt_mem ?b) h" if h: "h \<in> set ps" for h
    proof -
      have hg: "segment_bytes h \<inter> segment_bytes g = {}" "seg_filesz h \<le> seg_memsz h"
        using ok h by (auto simp: image_ok_def segment_ok_def sorted_wrt_append)
      have "bt_mem ?b a = bt_mem (fst st) a" if a: "a \<in> segment_bytes h" for a
      proof (rule old)
        show "page_of a \<in> owned (bt_fw (fst st))" using segment_page_of [of h a] a h by (auto simp: O image_pages_def segment_bytes_def)
        show "a \<notin> segment_bytes g" using hg(1) a by blast
      qed
      then have "segment_loaded d (bt_mem ?b) h = segment_loaded d (bt_mem (fst st)) h" by (rule segment_loaded_cong [OF _ hg(2)])
      then show ?thesis using st h by (simp add: progress_def)
    qed
    moreover have "segment_loaded d (bt_mem ?b) g" using copied_loaded [OF g(1)] by simp
    ultimately have "progress owned d b0 (ps @ [g]) (?b, al, n)" using pi by (simp add: progress_def)
    then show ?thesis using load_segment_run [OF g(1,2), of bs st] r(1) g(3) by (simp add: st')
  qed
qed

lemma fold_progress:
  assumes "firmware_ok bs owned" "progress owned d b0 ps st" "image_ok d (ps @ gs)" "image_pages (ps @ gs) \<subseteq> P" "finite P"
  shows "(\<exists>st'. fold_items (load_segment bs d) (map Inr gs) st = Some (Inr st') \<and> progress owned d b0 (ps @ gs) st') \<or>
    (\<exists>e. fold_items (load_segment bs d) (map Inr gs) st = Some (Inl (Inr (Inl e))) \<and> pages_refused bs owned (owned (bt_fw b0)) P e)"
  using assms(2-4)
proof (induction gs arbitrary: ps st)
  case (Cons g gs)
  have "image_ok d (ps @ [g])" using Cons.prems(2) by (auto simp: image_ok_def sorted_wrt_append)
  moreover have "image_pages (ps @ [g]) \<subseteq> P" using Cons.prems(3) by (auto simp: image_pages_def)
  ultimately consider st' where "load_segment bs d st g = Some (Inr st')" "progress owned d b0 (ps @ [g]) st'"
    | e where "load_segment bs d st g = Some (Inl (Inr (Inl e)))" "pages_refused bs owned (owned (bt_fw b0)) P e"
    using load_segment_progress [OF assms(1) Cons.prems(1) _ _ assms(5)] by blast
  then show ?case
  proof cases
    case 1
    then show ?thesis using Cons.IH [OF 1(2)] Cons.prems(2,3) by simp
  next
    case 2
    then show ?thesis by simp
  qed
qed simp

section \<open>Loading an image\<close>

text \<open>An image every check accepts, with its entry point and its segments.\<close>

definition accepted :: "bytes \<Rightarrow> u64 \<Rightarrow> Segment list \<Rightarrow> bool" where
  "accepted d e gs \<longleftrightarrow> elf_validate d = Some (Inr e) \<and> phdr_items d = map Inr gs \<and> gs \<noteq> [] \<and> (\<forall>g \<in> set gs. segment_ok d g) \<and>
     sorted_wrt (\<lambda>g h. segment_bytes g \<inter> segment_bytes h = {}) gs \<and> (\<exists>g \<in> set gs. holds_entry e g)"

lemma no_overlap_accepts:
  assumes "length d \<le> ISIZE_MAX" "check_no_overlap d = Some (Inr ())" "phdr_items d = map Inr gs"
  shows "sorted_wrt (\<lambda>g h. \<not> clash g h) gs"
  using assms(1)
proof (cases rule: ovl.pass_cases [where after = "\<lambda>_. Some (Inr ())"])
  case (completes hs s)
  then have "hs = gs" using assms(3) by (simp add: inj_map_eq_map)
  then show ?thesis using completes by (simp add: ranges_inv_def)
qed (use assms(2) in \<open>auto simp: check_no_overlap_def\<close>)

lemma entry_accepts:
  assumes "length d \<le> ISIZE_MAX" "check_entry d e = Some (Inr ())" "phdr_items d = map Inr gs"
  shows "\<exists>g \<in> set gs. holds_entry e g"
  using assms(1)
proof (cases rule: ent.pass_cases [where entry = e and after = "\<lambda>_. Some (Inl EntryNotExecutable)"])
  case (leaves hs g ys r)
  then have "g \<in> set gs" using assms(3) by (auto simp: map_eq_append_conv map_eq_Cons_conv)
  then show ?thesis using leaves assms(2) by (auto simp: check_entry_def split: if_splits)
qed (use assms(2) in \<open>auto simp: check_entry_def\<close>)

lemma checks_accept:
  assumes "length d \<le> ISIZE_MAX" "elf_validate d = Some (Inr e)" "check_segments d = Some (Inr n)" "check_no_overlap d = Some (Inr ())"
    "check_entry d e = Some (Inr ())"
  shows "\<exists>gs. accepted d e gs \<and> n = length gs"
proof -
  obtain gs where gs: "phdr_items d = map Inr gs" "gs \<noteq> []" "n = length gs" "\<forall>g \<in> set gs. segment_ok d g"
    using check_segments_accepts [OF assms(1,3)] by blast
  have "sorted_wrt (\<lambda>g h. segment_bytes g \<inter> segment_bytes h = {}) gs"
    by (rule sorted_wrt_mono_rel [OF _ no_overlap_accepts [OF assms(1,4) gs(1)]]) (use gs(4) in \<open>simp add: clash_iff segment_bytes_def segment_ok_def\<close>)
  then show ?thesis using gs assms(2) entry_accepts [OF assms(1,5) gs(1)] by (auto simp: accepted_def)
qed

lemma first_segment_eq:
  assumes "length d \<le> ISIZE_MAX" "phdr_items d = map Inr gs" "gs \<noteq> []"
  shows "first_segment d = Some (Inr (hd gs))"
proof -
  have "each_segment d (\<lambda>_ g. Some (Inl (Inr g))) () (\<lambda>_. Some (Inl EmptySegment)) = Some (Inr (hd gs))"
    using assms(2,3) by (cases gs) (simp_all add: each_segment_eq [OF assms(1)])
  then obtain it where it: "segments d = Some (Inr it)" "for_segments (\<lambda>_ g. Some (Inl (Inr g))) it () = Some (Inl (Inr (hd gs)))"
    by (auto simp: each_segment_def bind_eq_Some_conv case_sum_eq)
  obtain it' item where n: "segment_next it = Some (it', item)"
    using it(2) by (subst (asm) for_segments.simps) (auto simp: bind_eq_Some_conv)
  then have "item = Some (Inr (hd gs))" using it(2) by (subst (asm) for_segments.simps) (auto split: option.split_asm sum.split_asm)
  then show ?thesis using it(1) n by (simp add: first_segment_def try_map_def)
qed

definition image_placed :: "('fw \<Rightarrow> nat set) \<Rightarrow> bytes \<Rightarrow> Segment list \<Rightarrow> 'fw Boot \<Rightarrow> 'fw Boot \<Rightarrow> bool" where
  "image_placed owned d gs b b' \<longleftrightarrow> (\<forall>g \<in> set gs. segment_loaded d (bt_mem b') g) \<and> same_owned owned b b' \<and>
     image_pages gs \<inter> owned (bt_fw b) = {} \<and> owned (bt_fw b') = owned (bt_fw b) \<union> image_pages gs \<and> card (image_pages gs) \<le> MAX_KERNEL_PAGES"

definition loaded_as :: "u64 \<Rightarrow> Segment list \<Rightarrow> LoadedKernel" where
  "loaded_as e gs = \<lparr> lk_base = Min (page_start ` set gs), lk_size = Max (page_stop ` set gs) - Min (page_start ` set gs), lk_entry = e,
     lk_segments = length gs, lk_vaddr_delta = as_i64 (seg_vaddr (hd gs)) - as_i64 (seg_paddr (hd gs)) \<rparr>"

lemma copy_segments_run:
  assumes "firmware_ok bs owned" "image_ok d gs" "phdr_items d = map Inr gs"
  shows "(\<exists>b'. copy_segments bs d b = Some (Inr b') \<and> image_placed owned d gs b b') \<or>
    (\<exists>e. copy_segments bs d b = Some (Inl e) \<and> pages_refused bs owned (owned (bt_fw b)) (image_pages gs) e)"
proof -
  let ?st = "(b, replicate MAX_KERNEL_PAGES 0, 0) :: _ loading"
  have len: "length d \<le> ISIZE_MAX" using assms(2) by (simp add: image_ok_def)
  have "progress owned d b [] ?st" by (simp add: progress_def pages_inv_def same_owned_refl)
  from fold_progress [OF assms(1) this _ _ finite_image_pages, of gs gs, simplified append_Nil, OF assms(2) order_refl] show ?thesis
  proof (elim disjE exE conjE)
    fix st' assume f: "fold_items (load_segment bs d) (map Inr gs) ?st = Some (Inr st')" "progress owned d b gs st'"
    obtain b' al n where st': "st' = (b', al, n)" by (cases st') auto
    have "card (image_pages gs) \<le> MAX_KERNEL_PAGES"
      using f(2) distinct_card [of "take n al"] by (auto simp: progress_def pages_inv_def st')
    then have "image_placed owned d gs b b'" using f(2) by (auto simp: progress_def pages_inv_def st' image_placed_def)
    then show ?thesis using f(1) by (simp add: copy_segments_def each_segment_eq [OF len] assms(3) try_map_def st')
  next
    fix e assume "fold_items (load_segment bs d) (map Inr gs) ?st = Some (Inl (Inr (Inl e)))" "pages_refused bs owned (owned (bt_fw b)) (image_pages gs) e"
    then show ?thesis by (simp add: copy_segments_def each_segment_eq [OF len] assms(3) try_map_def)
  qed
qed

lemma load_image_run:
  assumes "length d \<le> ISIZE_MAX" "elf_validate d = Some (Inr e)" "check_segments d = Some (Inr n)" "check_no_overlap d = Some (Inr ())"
    "check_entry d e = Some (Inr ())" "accepted d e gs" "n = length gs" "\<forall>g \<in> set gs. page_stop g \<le> U64_MAX"
  shows "load_image bs d b = do {
     _ \<leftarrow> i64_checked (as_i64 (seg_vaddr (hd gs)) - as_i64 (seg_paddr (hd gs)));
     try_map (copy_segments bs d b) id (\<lambda>b. Some (Inr (b, loaded_as e gs))) }"
proof -
  have gs: "phdr_items d = map Inr gs" "gs \<noteq> []" using assms(6) by (simp_all add: accepted_def)
  have "hd gs \<in> set gs" using gs(2) by simp
  then have "Min (page_start ` set gs) \<le> page_start (hd gs)" "page_stop (hd gs) \<le> Max (page_stop ` set gs)" by simp_all
  moreover have "page_start (hd gs) \<le> page_stop (hd gs)"
    unfolding page_start_def page_stop_def using div_ceil_bounds(1) [of 4096 "seg_paddr (hd gs) + seg_memsz (hd gs)"]
      div_times_less_eq_dividend [of "seg_paddr (hd gs)" 4096] by linarith
  ultimately have "usub (Max (page_stop ` set gs)) (Min (page_start ` set gs)) = Some (Max (page_stop ` set gs) - Min (page_start ` set gs))"
    by (simp add: usub_def)
  then show ?thesis
    using loaded_span_eq [OF assms(1) gs(1) assms(8) gs(2)] first_segment_eq [OF assms(1) gs]
    by (cases "i64_checked (as_i64 (seg_vaddr (hd gs)) - as_i64 (seg_paddr (hd gs)))")
      (simp_all add: load_image_def try_map_def assms(2-5,7) loaded_as_def i64_checked_def split: if_splits)
qed

lemma load_image_Inr:
  assumes fw: "firmware_ok bs owned" and len: "length d \<le> ISIZE_MAX" and run: "load_image bs d b = Some (Inr (b', k))"
  shows "\<exists>e gs. accepted d e gs \<and> (\<forall>g \<in> set gs. page_stop g \<le> U64_MAX) \<and> k = loaded_as e gs \<and> image_placed owned d gs b b'"
proof -
  obtain e n where ok: "elf_validate d = Some (Inr e)" "check_segments d = Some (Inr n)" "check_no_overlap d = Some (Inr ())"
      "check_entry d e = Some (Inr ())" and span: "loaded_span d \<noteq> None"
    using run by (auto simp: load_image_def try_map_Inr bind_eq_Some_conv)
  obtain gs where gs: "accepted d e gs" "n = length gs" using checks_accept [OF len ok] by blast
  have "page_stop g \<le> U64_MAX" if "g \<in> set gs" for g
  proof (rule ccontr)
    assume "\<not> page_stop g \<le> U64_MAX"
    then have "loaded_span d = None" using extend_span_panics [OF that, of None] gs(1) by (simp add: loaded_span_def each_segment_eq [OF len] accepted_def)
    with span show False by simp
  qed
  then have stop: "\<forall>g \<in> set gs. page_stop g \<le> U64_MAX" by blast
  have "image_ok d gs" "phdr_items d = map Inr gs" using gs(1) stop len by (auto simp: image_ok_def accepted_def)
  from copy_segments_run [OF fw this, of b] show ?thesis
    using run stop gs(1) unfolding load_image_run [OF len ok gs stop]
    by (intro exI [of _ e] exI [of _ gs]) (auto simp: try_map_def bind_eq_Some_conv)
qed

lemma fs_load_Inr:
  assumes fw: "firmware_ok bs owned" and run: "fs_load bs path b = Some (Inr (b', k))"
  shows "\<exists>d e gs c c'. fs_read bs path c = (c', Inr d) \<and> accepted d e gs \<and> (\<forall>g \<in> set gs. page_stop g \<le> U64_MAX) \<and> k = loaded_as e gs \<and> image_placed owned d gs b b'"
proof -
  obtain b1 u b2 d where fs: "get_image_file_system bs b = (b1, Inr u)" "fs_read bs path b1 = (b2, Inr d)" "load_image bs d b2 = Some (Inr (b', k))"
    using run by (auto simp: fs_load_def case_sum_eq split: prod.split_asm)
  note f = firmware_fs [OF fw fs(1)] and r = firmware_read [OF fw fs(2)]
  obtain e gs where gs: "accepted d e gs" "\<forall>g \<in> set gs. page_stop g \<le> U64_MAX" "k = loaded_as e gs" "image_placed owned d gs b2 b'"
    using load_image_Inr [OF fw _ fs(3)] r by blast
  have "image_placed owned d gs b b'" using gs(4) f r by (auto simp: image_placed_def same_owned_def)
  then show ?thesis using fs(2) gs by blast
qed

lemma delta_ok: "v < 2 ^ 63 \<Longrightarrow> p < 2 ^ 63 \<Longrightarrow> i64_checked (as_i64 v - as_i64 p) = Some (as_i64 v - as_i64 p)"
  by (simp add: i64_checked_def as_i64_def)

lemma fs_load_run:
  assumes "firmware_ok bs owned" "get_image_file_system bs b = (b1, Inr ())" "fs_read bs path b1 = (b2, Inr d)"
    and "elf_validate d = Some (Inr e)" "check_segments d = Some (Inr n)" "check_no_overlap d = Some (Inr ())" "check_entry d e = Some (Inr ())"
    and low: "\<forall>g. Inr g \<in> set (phdr_items d) \<longrightarrow> page_stop g \<le> U64_MAX \<and> seg_vaddr g < 2 ^ 63 \<and> seg_paddr g < 2 ^ 63"
  shows "\<exists>gs. phdr_items d = map Inr gs \<and> (\<exists>g \<in> set gs. holds_entry e g) \<and> (case fs_load bs path b of
      None \<Rightarrow> False
    | Some (Inl err) \<Rightarrow> pages_refused bs owned (owned (bt_fw b)) (image_pages gs) err
    | Some (Inr (b', k)) \<Rightarrow> image_placed owned d gs b b' \<and> k = loaded_as e gs)"
proof -
  note fs = firmware_fs [OF assms(1,2)] and rd = firmware_read [OF assms(1,3)]
  have len: "length d \<le> ISIZE_MAX" using rd by simp
  obtain gs where gs: "accepted d e gs" "n = length gs" using checks_accept [OF len assms(4-7)] by blast
  have items: "phdr_items d = map Inr gs" "gs \<noteq> []" using gs(1) by (simp_all add: accepted_def)
  have stop: "\<forall>g \<in> set gs. page_stop g \<le> U64_MAX" and first: "seg_vaddr (hd gs) < 2 ^ 63" "seg_paddr (hd gs) < 2 ^ 63"
    using low items by auto
  have ok: "image_ok d gs" using gs(1) stop len by (auto simp: image_ok_def accepted_def)
  have run: "fs_load bs path b = try_map (copy_segments bs d b2) id (\<lambda>b. Some (Inr (b, loaded_as e gs)))"
    using load_image_run [OF len assms(4-7) gs stop, of bs b2] delta_ok [OF first] assms(2,3) by (simp add: fs_load_def)
  have O: "owned (bt_fw b2) = owned (bt_fw b)" using fs rd by simp
  have pl: "image_placed owned d gs b b'" if "image_placed owned d gs b2 b'" for b'
    using that O fs rd by (auto simp: image_placed_def same_owned_def)
  have "\<exists>g \<in> set gs. holds_entry e g" using gs(1) by (simp add: accepted_def)
  with copy_segments_run [OF assms(1) ok items(1), of b2] show ?thesis
    using items(1) pl O by (intro exI [of _ gs]) (auto simp: run try_map_def)
qed


text \<open>
  A firmware for the witnesses: its state is the list of pages it has given away, its volume holds the same small image
  under every name, and a run of pages is taken above every page given before.
\<close>

definition sample_top :: "nat list \<Rightarrow> nat" where
  "sample_top ps = foldr max ps 4096 div 4096 * 4096 + 4096"

definition sample_services :: "(nat list, nat) BootServices" where
  "sample_services = \<lparr> get_image_file_system = (\<lambda>b. (b, Inr ())), fs_read = (\<lambda>_ b. (b, Inr sample_elf)),
     allocate_address = (\<lambda>p b. if p \<in> set (bt_fw b) then (b, Inl 14) else (b\<lparr>bt_fw := p # bt_fw b\<rparr>, Inr ())),
     allocate_any = (\<lambda>n b. let a = sample_top (bt_fw b) in
       if a + n * 4096 \<le> U64_MAX then (b\<lparr>bt_fw := map (\<lambda>i. a + i * 4096) [0..<n] @ bt_fw b\<rparr>, Inr a) else (b, Inl 9)) \<rparr>"

definition sample_start :: "nat list Boot" where
  "sample_start = \<lparr> bt_fw = [], bt_mem = (\<lambda>_. 7) \<rparr>"

lemma sample_top_above: "p \<in> set ps \<Longrightarrow> p < sample_top ps"
proof -
  assume "p \<in> set ps"
  then have "p \<le> foldr max ps 4096" by (induction ps) auto
  then show ?thesis using div_mult_mod_eq [of "foldr max ps 4096" 4096] mod_less_divisor [of 4096 "foldr max ps 4096"]
    unfolding sample_top_def by linarith
qed

lemma sample_firmware: "firmware_ok sample_services set"
  unfolding firmware_ok_def
proof (intro conjI)
  have "pages_at (sample_top ps) n \<inter> set ps = {}" for ps n using sample_top_above [of _ ps] by (fastforce simp: pages_at_def)
  moreover have "pages_at a n = set (map (\<lambda>i. a + i * 4096) [0..<n])" for a n by (auto simp: pages_at_def)
  moreover have "sample_top ps mod 4096 = 0" "0 < sample_top ps" for ps by (simp_all add: sample_top_def)
  ultimately show "\<forall>n b b' a. allocate_any sample_services n b = (b', Inr a) \<longrightarrow> same_owned set b b' \<and> a mod 4096 = 0 \<and> 0 < a \<and>
      a + n * 4096 \<le> U64_MAX \<and> pages_at a n \<inter> set (bt_fw b) = {} \<and> set (bt_fw b') = set (bt_fw b) \<union> pages_at a n"
    by (auto simp: sample_services_def Let_def same_owned_def split: if_splits)
qed (auto simp: sample_services_def same_owned_def ISIZE_MAX_def)

lemma sample_checks: "elf_validate sample_elf = Some (Inr 1048640)" "check_segments sample_elf = Some (Inr 1)"
    "check_no_overlap sample_elf = Some (Inr ())" "check_entry sample_elf 1048640 = Some (Inr ())"
proof -
  show "elf_validate sample_elf = Some (Inr 1048640)" by code_simp
  show "check_segments sample_elf = Some (Inr 1)"
    by (simp add: check_segments_def each_segment_eq sample_elf_items check_segment_def uadd_def sample_segment_def rust_consts)
  show "check_no_overlap sample_elf = Some (Inr ())"
    by (simp add: check_no_overlap_def each_segment_eq sample_elf_items check_range_def uadd_def slice_def sub_def index_set_def sample_segment_def rust_consts)
  show "check_entry sample_elf 1048640 = Some (Inr ())"
    by (simp add: check_entry_def each_segment_eq sample_elf_items check_entry_in_def uadd_def is_executable_def sample_segment_def rust_consts)
qed

lemma sample_pages: "image_pages [sample_segment] = {1048576, 1052672}"
proof -
  have "pages_between 1048576 1056768 = insert 1048576 (pages_between 1052672 1056768)"
    "pages_between 1052672 1056768 = insert 1052672 (pages_between 1056768 1056768)"
    using pages_between_step(2) [of 1048576 1056768] pages_between_step(2) [of 1052672 1056768] by simp_all
  moreover have "pages_between 1056768 1056768 = {}" by (auto simp: pages_between_def)
  moreover have "page_start sample_segment = 1048576" "page_stop sample_segment = 1056768"
    by (simp_all add: page_start_def page_stop_def sample_segment_def div_ceil_def)
  ultimately show ?thesis by (simp add: image_pages_def segment_pages_between)
qed


end
