(* ===== verification/Boot_Handoff.thy ===== *)
theory Boot_Handoff
  imports Image_Loader
begin

text \<open>
  The boot loader's way into the kernel: \<^verbatim>\<open>src/src/bootloader/handoff.rs\<close> and \<^verbatim>\<open>src/src/main.rs\<close>.  It loads both
  images, prepares a stack and the page of the handover structure, leaves the firmware's boot services, writes the
  structure and jumps.

  The configuration tables and the call that ends the boot services are arguments, as in the loader.  After the boot services have
  ended the source expects an unknown writer to damage the magic number; \<open>noise\<close> is what happens to memory
  before each of its reads.
\<close>

section \<open>Preparing\<close>

definition KERNEL_STACK_SIZE :: usize where [rust_consts]: "KERNEL_STACK_SIZE = 64 * 1024"

record MemoryMapOwned =
  mm_buffer :: u64
  mm_len :: usize
  mm_desc_size :: usize
  mm_desc_version :: u32

record ('fw, 'g) HandoffServices =
  ACPI2_GUID :: 'g
  ACPI_GUID :: 'g
  config_table :: "'fw Boot \<Rightarrow> ('g \<times> u64) list"
  exit_boot_services :: "'fw Boot \<Rightarrow> (nat \<Rightarrow> u8) \<times> MemoryMapOwned"

record Prepared =
  pr_stack_top :: u64
  pr_boot_info :: u64
  pr_rsdp :: u64

fun find_rsdp_from :: "'g \<Rightarrow> 'g \<Rightarrow> u64 \<Rightarrow> ('g \<times> u64) list \<Rightarrow> u64" where
  "find_rsdp_from acpi2 acpi fallback [] = fallback"
| "find_rsdp_from acpi2 acpi fallback ((guid, address) # entries) =
     (if guid = acpi2 then address
      else if guid = acpi \<and> fallback = 0 then find_rsdp_from acpi2 acpi address entries
      else find_rsdp_from acpi2 acpi fallback entries)"

definition find_rsdp :: "('fw, 'g) HandoffServices \<Rightarrow> 'fw Boot \<Rightarrow> u64" where
  "find_rsdp hs b = find_rsdp_from (ACPI2_GUID hs) (ACPI_GUID hs) 0 (config_table hs b)"

definition prepare :: "('fw, 'st) BootServices \<Rightarrow> ('fw, 'g) HandoffServices \<Rightarrow> 'fw Boot \<Rightarrow> ('st LoadError + 'fw Boot \<times> Prepared) panics" where
  "prepare bs hs b =
     (let stack_pages = KERNEL_STACK_SIZE div 4096 in
      case allocate_any bs stack_pages b of
        (b, Inl s) \<Rightarrow> Some (Inl (Efi s))
      | (b, Inr stack_base) \<Rightarrow> do {
          stack_top \<leftarrow> uadd stack_base KERNEL_STACK_SIZE;
          _ \<leftarrow> usub stack_top KERNEL_STACK_SIZE;
          case allocate_any bs 1 b of
            (b, Inl s) \<Rightarrow> Some (Inl (Efi s))
          | (b, Inr page) \<Rightarrow>
              Some (Inr (b, \<lparr> pr_stack_top = stack_top, pr_boot_info = page, pr_rsdp = find_rsdp hs b \<rparr>))
        })"

section \<open>Handing over\<close>

text \<open>The test build, with the feature \<open>qemu-exit\<close>, hands a debug port to the kernel.\<close>

definition handoff_exit_port :: "bool \<Rightarrow> u16" where
  "handoff_exit_port qemu_exit = (if qemu_exit then DEBUG_EXIT_PORT else 0)"

definition handoff_info :: "bool \<Rightarrow> LoadedKernel \<Rightarrow> LoadedKernel \<Rightarrow> Prepared \<Rightarrow> MemoryMapOwned \<Rightarrow> BootInfo panics" where
  "handoff_info qemu_exit kern user prepared memory_map = do {
     shifted \<leftarrow> i64_checked (as_i64 (lk_base user) + lk_vaddr_delta user);
     let info = boot_info_new\<lparr>
       mmap_ptr := mm_buffer memory_map,
       mmap_len := mm_len memory_map,
       mmap_desc_size := mm_desc_size memory_map mod 2 ^ 32,
       mmap_desc_ver := mm_desc_version memory_map,
       rsdp := pr_rsdp prepared,
       kernel_base := lk_base kern,
       kernel_size := lk_size kern,
       stack_top := pr_stack_top prepared,
       stack_size := KERNEL_STACK_SIZE,
       exit_port := handoff_exit_port qemu_exit,
       user_phys := lk_base user,
       user_size := lk_size user,
       user_vaddr := as_u64 shifted,
       user_entry := lk_entry user \<rparr>;
     debug_assert (bi_magic info = BOOT_INFO_MAGIC);
     debug_assert (bi_version info = BOOT_INFO_VERSION);
     Some info
   }"

text \<open>The re-check of the magic number: at most eight rounds, each of which reads it and rewrites it when it is wrong.\<close>

fun repair_magic :: "(nat \<Rightarrow> (nat \<Rightarrow> u8) \<Rightarrow> nat \<Rightarrow> u8) \<Rightarrow> u64 \<Rightarrow> nat \<Rightarrow> (nat \<Rightarrow> u8) \<Rightarrow> u64 \<Rightarrow> (nat \<Rightarrow> u8) \<times> u64" where
  "repair_magic noise slot 0 m repairs = (m, repairs)"
| "repair_magic noise slot (Suc k) m repairs =
     (let m = noise k m in
      if from_le_bytes (raw_slice m slot 8) = BOOT_INFO_MAGIC then (m, repairs)
      else repair_magic noise slot k (raw_store m slot (to_le_bytes 8 BOOT_INFO_MAGIC)) (repairs + 1))"

text \<open>What the processor starts the kernel with.\<close>

record Jump =
  j_rsp :: u64
  j_rdi :: u64
  j_rip :: u64

definition jump_to_kernel :: "u64 \<Rightarrow> u64 \<Rightarrow> u64 \<Rightarrow> Jump panics" where
  "jump_to_kernel e boot_info sp = do {
     rsp \<leftarrow> usub sp 8;
     Some \<lparr> j_rsp = rsp, j_rdi = boot_info, j_rip = e \<rparr>
   }"

definition enter_kernel :: "('fw, 'g) HandoffServices \<Rightarrow> (nat \<Rightarrow> (nat \<Rightarrow> u8) \<Rightarrow> nat \<Rightarrow> u8) \<Rightarrow> bool \<Rightarrow> LoadedKernel \<Rightarrow> LoadedKernel \<Rightarrow>
    Prepared \<Rightarrow> 'fw Boot \<Rightarrow> ((nat \<Rightarrow> u8) \<times> Jump) panics" where
  "enter_kernel hs noise qemu_exit kern user prepared b = do {
     _ \<leftarrow> usub (pr_stack_top prepared) 8;
     let (m, memory_map) = exit_boot_services hs b;
     info \<leftarrow> handoff_info qemu_exit kern user prepared memory_map;
     let slot = pr_boot_info prepared;
     let m = raw_store m slot (store_boot_info (raw_slice m slot SIZE_OF_BOOT_INFO) info);
     let (m, repairs) = repair_magic noise slot 8 m 0;
     let m = raw_store m (slot + 120) (to_le_bytes 8 repairs);
     jump \<leftarrow> jump_to_kernel (lk_entry kern) slot (pr_stack_top prepared);
     Some (m, jump)
   }"

section \<open>The boot loader\<close>

datatype 'st BootOutcome =
    EnteredKernel "nat \<Rightarrow> u8" Jump
  | ReturnedStatus 'st
  | ExitedQemu u8

definition boot_failed :: "bool \<Rightarrow> 'st \<Rightarrow> 'st BootOutcome" where
  "boot_failed qemu_exit status = (if qemu_exit then ExitedQemu EXIT_VALUE_LOAD_FAILURE else ReturnedStatus status)"

definition boot_main :: "('fw, 'st) BootServices \<Rightarrow> ('fw, 'g) HandoffServices \<Rightarrow> (nat \<Rightarrow> (nat \<Rightarrow> u8) \<Rightarrow> nat \<Rightarrow> u8) \<Rightarrow> bool \<Rightarrow>
    'st \<times> 'st \<times> 'st \<Rightarrow> 'fw Boot \<Rightarrow> 'st BootOutcome panics" where
  "boot_main bs hs noise qemu_exit codes b = do {
     let status = (case codes of (volume_corrupted, load_error, out_of_resources) \<Rightarrow> load_error_status volume_corrupted load_error out_of_resources);
     r \<leftarrow> load_kernel bs b;
     case r of
       Inl err \<Rightarrow> Some (boot_failed qemu_exit (status err))
     | Inr (b, kern) \<Rightarrow> do {
         r \<leftarrow> load_user bs b;
         case r of
           Inl err \<Rightarrow> Some (boot_failed qemu_exit (status err))
         | Inr (b, user) \<Rightarrow> do {
             r \<leftarrow> prepare bs hs b;
             case r of
               Inl err \<Rightarrow> Some (boot_failed qemu_exit (status err))
             | Inr (b, prepared) \<Rightarrow> do {
                 (m, jump) \<leftarrow> enter_kernel hs noise qemu_exit kern user prepared b;
                 Some (EnteredKernel m jump)
               }
           }
       }
   }"

section \<open>The handover structure survives\<close>

definition magic_only :: "(nat \<Rightarrow> (nat \<Rightarrow> u8) \<Rightarrow> nat \<Rightarrow> u8) \<Rightarrow> u64 \<Rightarrow> bool" where
  "magic_only noise slot \<longleftrightarrow> (\<forall>i m a. a < slot \<or> slot + 8 \<le> a \<longrightarrow> noise i m a = m a)"

lemma repair_magic_run:
  assumes "magic_only noise slot" "repair_magic noise slot k m r = (m', r')"
  shows "0 < k \<Longrightarrow> from_le_bytes (raw_slice m' slot 8) = BOOT_INFO_MAGIC"
    and "a < slot \<or> slot + 8 \<le> a \<Longrightarrow> m' a = m a" and "r' \<le> r + k"
proof -
  have good: "from_le_bytes (raw_slice (raw_store m slot (to_le_bytes 8 BOOT_INFO_MAGIC)) slot 8) = BOOT_INFO_MAGIC" for m
    by (simp add: raw_slice_store from_to_le_bytes_u64 rust_consts)
  have "(0 < k \<or> from_le_bytes (raw_slice m slot 8) = BOOT_INFO_MAGIC \<longrightarrow> from_le_bytes (raw_slice m' slot 8) = BOOT_INFO_MAGIC) \<and>
      (\<forall>a. a < slot \<or> slot + 8 \<le> a \<longrightarrow> m' a = m a) \<and> r' \<le> r + k"
    using assms(2)
  proof (induction k arbitrary: m r)
    case (Suc k)
    show ?case
    proof (cases "from_le_bytes (raw_slice (noise k m) slot 8) = BOOT_INFO_MAGIC")
      case True
      then show ?thesis using Suc.prems assms(1) by (auto simp: magic_only_def)
    next
      case False
      let ?m = "raw_store (noise k m) slot (to_le_bytes 8 BOOT_INFO_MAGIC)"
      have "repair_magic noise slot k ?m (r + 1) = (m', r')" using Suc.prems False by simp
      moreover have "?m a = m a" if "a < slot \<or> slot + 8 \<le> a" for a using that assms(1) by (auto simp: magic_only_def raw_store_def)
      ultimately show ?thesis using Suc.IH [of ?m "r + 1"] good [of "noise k m"] by auto
    qed
  qed simp
  then show "0 < k \<Longrightarrow> from_le_bytes (raw_slice m' slot 8) = BOOT_INFO_MAGIC" "a < slot \<or> slot + 8 \<le> a \<Longrightarrow> m' a = m a" "r' \<le> r + k"
    by blast+
qed

lemma magic_bytes: "from_le_bytes (raw_slice m a 8) = v \<Longrightarrow> raw_slice m a 8 = to_le_bytes 8 v"
  using to_from_le_bytes [of "raw_slice m a 8"] by simp

lemma repaired_info:
  assumes slice: "raw_slice m slot 120 = store_boot_info old info" and len: "length old = 120" and info: "boot_info_fits info" "bi_magic info = BOOT_INFO_MAGIC"
    and new: "from_le_bytes (raw_slice m' slot 8) = BOOT_INFO_MAGIC" "\<And>a. slot + 8 \<le> a \<Longrightarrow> a < slot + 120 \<Longrightarrow> m' a = m a"
  shows "load_boot_info (raw_slice m' slot 120) = info"
proof -
  have l: "length (store_boot_info old info) = 120" using slice by (metis length_raw_slice)
  have "from_le_bytes (sub (store_boot_info old info) 0 8) = BOOT_INFO_MAGIC"
    using stored_field [of 0 8 "bi_magic info" info old] len info by (simp add: boot_info_fields)
  then have "sub (store_boot_info old info) 0 8 = to_le_bytes 8 BOOT_INFO_MAGIC"
    using to_from_le_bytes [of "sub (store_boot_info old info) 0 8"] l by simp
  then have h: "raw_slice m' slot 8 = sub (raw_slice m slot 120) 0 8" using magic_bytes [OF new(1)] slice by simp
  have "raw_slice m' slot 120 = raw_slice m slot 120"
  proof (rule nth_equalityI)
    fix i assume "i < length (raw_slice m' slot 120)"
    then have i: "i < 120" by simp
    show "raw_slice m' slot 120 ! i = raw_slice m slot 120 ! i"
    proof (cases "i < 8")
      case True
      then show ?thesis using arg_cong [OF h, of "\<lambda>xs. xs ! i"] i by (simp add: nth_sub raw_slice_def)
    next
      case False
      then show ?thesis using new(2) [of "slot + i"] i by (simp add: raw_slice_def)
    qed
  qed simp
  then show ?thesis using load_store [of old info] len info(1) by (simp add: slice)
qed

text \<open>What the source relies on when the boot services end: pages the loader owns keep their contents.\<close>

definition handoff_ok :: "('fw, 'g) HandoffServices \<Rightarrow> ('fw \<Rightarrow> nat set) \<Rightarrow> bool" where
  "handoff_ok hs owned \<longleftrightarrow> (\<forall>b. \<forall>e \<in> set (config_table hs b). snd e \<le> U64_MAX) \<and>
     (\<forall>b m mm. exit_boot_services hs b = (m, mm) \<longrightarrow> (\<forall>a. page_of a \<in> owned (bt_fw b) \<longrightarrow> m a = bt_mem b a) \<and>
        mm_buffer mm \<le> U64_MAX \<and> mm_len mm \<le> U64_MAX \<and> mm_desc_version mm \<le> U32_MAX)"

lemma find_rsdp_from_bound: "(\<forall>e \<in> set es. snd e \<le> U64_MAX) \<Longrightarrow> f \<le> U64_MAX \<Longrightarrow> find_rsdp_from x y f es \<le> U64_MAX"
  by (induction x y f es rule: find_rsdp_from.induct) auto

lemma find_rsdp_bound: "handoff_ok hs owned \<Longrightarrow> find_rsdp hs b \<le> U64_MAX"
  unfolding find_rsdp_def by (rule find_rsdp_from_bound) (simp_all add: handoff_ok_def)

lemma page_of_outside: "slot mod 4096 = 0 \<Longrightarrow> page_of a \<noteq> slot \<Longrightarrow> a < slot \<or> slot + 4096 \<le> a"
proof (rule ccontr)
  assume s: "slot mod 4096 = 0" "page_of a \<noteq> slot" "\<not> (a < slot \<or> slot + 4096 \<le> a)"
  have "slot div 4096 * 4096 + slot mod 4096 = slot" by (rule div_mult_mod_eq)
  then obtain q where q: "slot = q * 4096" using s(1) by auto
  then have "q * 4096 \<le> a" "a < q * 4096 + 4096" using s(3) by auto
  then have "a div 4096 = q" by (intro div_nat_eqI) auto
  then show False using s(2) q by (simp add: page_of_def)
qed

lemma enter_kernel_run:
  assumes hs: "handoff_ok hs owned" and noise: "magic_only noise (pr_boot_info p)" and slot: "pr_boot_info p mod 4096 = 0"
    and info: "handoff_info qemu k u p (snd (exit_boot_services hs b)) = Some info" "boot_info_fits info" "bi_magic info = BOOT_INFO_MAGIC" "8 \<le> pr_stack_top p"
  shows "\<exists>m r. enter_kernel hs noise qemu k u p b = Some (m, \<lparr> j_rsp = pr_stack_top p - 8, j_rdi = pr_boot_info p, j_rip = lk_entry k \<rparr>) \<and>
    load_boot_info (raw_slice m (pr_boot_info p) SIZE_OF_BOOT_INFO) = info \<and> r \<le> 8 \<and> raw_slice m (pr_boot_info p + 120) 8 = to_le_bytes 8 r \<and>
    (\<forall>a. page_of a \<in> owned (bt_fw b) \<longrightarrow> page_of a \<noteq> pr_boot_info p \<longrightarrow> m a = bt_mem b a)"
proof -
  let ?slot = "pr_boot_info p"
  obtain m0 mm where ex: "exit_boot_services hs b = (m0, mm)" by (cases "exit_boot_services hs b")
  define m1 where "m1 = raw_store m0 ?slot (store_boot_info (raw_slice m0 ?slot 120) info)"
  obtain m2 r where rep: "repair_magic noise ?slot 8 m1 0 = (m2, r)" by (cases "repair_magic noise ?slot 8 m1 0")
  define m where "m = raw_store m2 (?slot + 120) (to_le_bytes 8 r)"
  note R = repair_magic_run [OF noise rep]
  have len: "length (store_boot_info (raw_slice m0 ?slot 120) info) = 120"
    unfolding store_boot_info_def by (subst length_store_fields) (simp_all add: boot_info_fields)
  have "raw_slice m1 ?slot 120 = store_boot_info (raw_slice m0 ?slot 120) info" using len by (simp add: m1_def raw_slice_store)
  then have "load_boot_info (raw_slice m2 ?slot 120) = info"
    using repaired_info [OF _ _ info(2,3), of m1 ?slot "raw_slice m0 ?slot 120" m2] R(1,2) by simp
  moreover have "raw_slice m ?slot 120 = raw_slice m2 ?slot 120" by (simp add: m_def raw_slice_def raw_store_def)
  moreover have "m a = bt_mem b a" if "page_of a \<in> owned (bt_fw b)" "page_of a \<noteq> ?slot" for a
  proof -
    have out: "a < ?slot \<or> ?slot + 4096 \<le> a" by (rule page_of_outside [OF slot that(2)])
    have "m a = m2 a" using out by (auto simp: m_def raw_store_def)
    also have "\<dots> = m1 a" using R(2) [of a] out by auto
    also have "\<dots> = m0 a" using out len by (auto simp: m1_def raw_store_def)
    also have "\<dots> = bt_mem b a" using hs ex that(1) by (simp add: handoff_ok_def)
    finally show ?thesis .
  qed
  moreover have "raw_slice m (?slot + 120) 8 = to_le_bytes 8 r" by (simp add: m_def raw_slice_store)
  moreover have "enter_kernel hs noise qemu k u p b = Some (m, \<lparr> j_rsp = pr_stack_top p - 8, j_rdi = ?slot, j_rip = lk_entry k \<rparr>)"
    using ex info(1,4) rep by (simp add: enter_kernel_def usub_def jump_to_kernel_def m_def m1_def Let_def)
  ultimately show ?thesis using R(3) by (intro exI [of _ m] exI [of _ r]) simp
qed

lemma prepare_run:
  assumes fw: "firmware_ok bs owned" and hs: "handoff_ok hs owned" and run: "prepare bs hs b = Some (Inr (b', p))"
  shows "same_owned owned b b'" "owned (bt_fw b') = owned (bt_fw b) \<union> pages_at (pr_stack_top p - KERNEL_STACK_SIZE) 16 \<union> {pr_boot_info p}"
    "pr_boot_info p mod 4096 = 0" "pr_stack_top p mod 4096 = 0" "KERNEL_STACK_SIZE < pr_stack_top p" "pr_stack_top p \<le> U64_MAX" "pr_rsdp p \<le> U64_MAX"
    "pages_at (pr_stack_top p - KERNEL_STACK_SIZE) 16 \<inter> owned (bt_fw b) = {}"
    "pr_boot_info p \<notin> owned (bt_fw b)" "pr_boot_info p \<notin> pages_at (pr_stack_top p - KERNEL_STACK_SIZE) 16"
proof -
  have "KERNEL_STACK_SIZE div 4096 = 16" by (simp add: KERNEL_STACK_SIZE_def)
  then obtain b1 base where a1: "allocate_any bs 16 b = (b1, Inr base)"
    using run by (cases "allocate_any bs 16 b"; cases "snd (allocate_any bs 16 b)") (simp_all add: prepare_def)
  obtain b2 page where a2': "allocate_any bs 1 b1 = (b2, Inr page)"
    using run a1 \<open>KERNEL_STACK_SIZE div 4096 = 16\<close>
    by (cases "allocate_any bs 1 b1"; cases "snd (allocate_any bs 1 b1)") (simp_all add: prepare_def bind_eq_Some_conv)
  have p: "pr_stack_top p = base + 65536" "pr_rsdp p = find_rsdp hs b'" and a2: "allocate_any bs 1 b1 = (b', Inr (pr_boot_info p))"
    using run a1 a2' \<open>KERNEL_STACK_SIZE div 4096 = 16\<close>
    by (auto simp: prepare_def bind_eq_Some_conv uadd_Some_iff KERNEL_STACK_SIZE_def)
  note f = firmware_any [OF fw a1] and g = firmware_any [OF fw a2]
  have base: "pr_stack_top p - KERNEL_STACK_SIZE = base" using p(1) by (simp add: KERNEL_STACK_SIZE_def)
  have one: "pages_at a (Suc 0) = {a}" for a by (auto simp: pages_at_def)
  show "same_owned owned b b'" by (rule same_owned_trans [of _ _ b1]) (use f g in auto)
  show "owned (bt_fw b') = owned (bt_fw b) \<union> pages_at (pr_stack_top p - KERNEL_STACK_SIZE) 16 \<union> {pr_boot_info p}"
    unfolding base using f g by (auto simp: one)
  show "pr_boot_info p mod 4096 = 0" using g by blast
  show "KERNEL_STACK_SIZE < pr_stack_top p" "pr_stack_top p \<le> U64_MAX" using f p(1) by (simp_all add: KERNEL_STACK_SIZE_def)
  have "base mod 4096 = 0" "(65536 :: nat) mod 4096 = 0" using f by simp_all
  then show "pr_stack_top p mod 4096 = 0" unfolding p(1) mod_add_eq [symmetric, of base] by simp
  show "pr_rsdp p \<le> U64_MAX" using find_rsdp_bound [OF hs] p(2) by simp
  show "pages_at (pr_stack_top p - KERNEL_STACK_SIZE) 16 \<inter> owned (bt_fw b) = {}" unfolding base using f by blast
  show "pr_boot_info p \<notin> owned (bt_fw b)" "pr_boot_info p \<notin> pages_at (pr_stack_top p - KERNEL_STACK_SIZE) 16"
    unfolding base using f g by (auto simp: one)
qed

section \<open>From the firmware to the kernel\<close>

lemma entry_bound: "elf_validate d = Some (Inr e) \<Longrightarrow> e \<le> U64_MAX"
proof -
  assume a: "elf_validate d = Some (Inr e)"
  then obtain o' where "img_read_u64 d o' = Some e" by (auto simp: elf_validate_def bind_eq_Some_conv split: if_splits)
  then obtain bs where "e = from_le_bytes bs" "length bs = 8" by (auto simp: img_read_u64_def run_simps)
  then show ?thesis using from_le_bytes_u64 by simp
qed

lemma loaded_bounds:
  assumes "accepted d e gs" "\<forall>g \<in> set gs. page_stop g \<le> U64_MAX" "k = loaded_as e gs"
  shows "lk_base k \<le> U64_MAX" "lk_size k \<le> U64_MAX" "lk_entry k \<le> U64_MAX"
proof -
  have ne: "gs \<noteq> []" using assms(1) by (simp add: accepted_def)
  then have "Max (page_stop ` set gs) \<in> page_stop ` set gs" "Min (page_start ` set gs) \<in> page_start ` set gs" by (auto intro: Max_in Min_in)
  then obtain g h where g: "g \<in> set gs" "Max (page_stop ` set gs) = page_stop g" and h: "h \<in> set gs" "Min (page_start ` set gs) = page_start h" by auto
  have "seg_paddr h \<le> U64_MAX" using assms(1) h(1) by (auto simp: accepted_def segment_ok_def)
  moreover have "page_start h \<le> seg_paddr h" by (simp add: page_start_def)
  ultimately show "lk_base k \<le> U64_MAX" "lk_size k \<le> U64_MAX" "lk_entry k \<le> U64_MAX"
    using assms g h entry_bound [of d e] by (auto simp: loaded_as_def accepted_def intro: le_trans diff_le_self)
qed

lemma handoff_info_run:
  assumes "i64_checked (as_i64 (lk_base u) + lk_vaddr_delta u) = Some v" "lk_base k \<le> U64_MAX" "lk_size k \<le> U64_MAX" "lk_base u \<le> U64_MAX"
    "lk_size u \<le> U64_MAX" "lk_entry u \<le> U64_MAX" "pr_stack_top p \<le> U64_MAX" "pr_rsdp p \<le> U64_MAX"
    "mm_buffer mm \<le> U64_MAX" "mm_len mm \<le> U64_MAX" "mm_desc_version mm \<le> U32_MAX"
  shows "\<exists>info. handoff_info qemu k u p mm = Some info \<and> boot_info_fits info \<and> bi_magic info = BOOT_INFO_MAGIC \<and> boot_info_validate info = Inr ()"
proof -
  have "as_u64 v < 18446744073709551616" using pos_mod_bound [of "2 ^ 64" v] by (simp add: as_u64_def)
  moreover have "mm_desc_size mm mod 4294967296 < 4294967296" by simp
  ultimately show ?thesis
    using assms by (simp add: handoff_info_def debug_assert_def boot_info_new_def boot_info_fits_def boot_info_widths_def boot_info_values_def
        boot_info_default_def handoff_exit_port_def boot_info_validate_def expected_size_def rust_consts less_Suc_eq_le)
qed

lemma loaded_stays:
  assumes "\<forall>g \<in> set gs. segment_loaded d (bt_mem b) g" "\<forall>g \<in> set gs. segment_ok d g" "\<And>a. page_of a \<in> image_pages gs \<Longrightarrow> m a = bt_mem b a"
  shows "\<forall>g \<in> set gs. segment_loaded d m g"
proof
  fix g assume g: "g \<in> set gs"
  have "m a = bt_mem b a" if "a \<in> segment_bytes g" for a
    using assms(3) [of a] segment_page_of [of g a] that g by (auto simp: image_pages_def segment_bytes_def)
  then have "segment_loaded d m g = segment_loaded d (bt_mem b) g"
    by (rule segment_loaded_cong) (use assms(2) g in \<open>simp_all add: segment_ok_def\<close>)
  then show "segment_loaded d m g" using assms(1) g by simp
qed

lemma both_stay:
  assumes "image_placed owned dk gk b b1" "image_placed owned du gu b1 b2" "accepted dk ek gk" "accepted du eu gu"
    and same: "\<And>a. page_of a \<in> owned (bt_fw b2) \<Longrightarrow> m a = bt_mem b2 a"
  shows "\<forall>g \<in> set gk. segment_loaded dk m g" "\<forall>g \<in> set gu. segment_loaded du m g"
proof -
  show "\<forall>g \<in> set gu. segment_loaded du m g"
    by (rule loaded_stays [of gu du b2]) (use assms in \<open>auto simp: image_placed_def accepted_def\<close>)
  show "\<forall>g \<in> set gk. segment_loaded dk m g"
  proof (rule loaded_stays [of gk dk b1])
    fix a assume "page_of a \<in> image_pages gk"
    then show "m a = bt_mem b1 a" using same [of a] assms(1,2) by (auto simp: image_placed_def same_owned_def)
  qed (use assms(1,3) in \<open>auto simp: image_placed_def accepted_def\<close>)
qed

text \<open>
  C38. When both images load and the stack and the handover page can be had, the boot loader enters the kernel: at the
  kernel image's entry point, with \<open>rdi\<close> at a handover structure that passes the kernel's validation and has the fields
  the loader computed, and \<open>rsp\<close> eight below a page-aligned stack top.  Every segment of both files is in memory as the
  file and the zero fill say, and the pages of the two images, of the stack and of the structure are distinct.  This
  holds for every interference with the magic number before the eight re-checks, whose rewrites are counted
  behind the structure.
\<close>

theorem boot_hands_over:
  assumes fw: "firmware_ok bs owned" and hs: "handoff_ok hs owned" and noise: "magic_only noise (pr_boot_info p)"
    and k: "load_kernel bs b = Some (Inr (b1, k))" and u: "load_user bs b1 = Some (Inr (b2, u))" and p: "prepare bs hs b2 = Some (Inr (b3, p))"
    and mm: "exit_boot_services hs b3 = (m0, mm)" and v: "i64_checked (as_i64 (lk_base u) + lk_vaddr_delta u) = Some v"
  shows "\<exists>m j info dk gk du gu c c' d d'. boot_main bs hs noise qemu codes b = Some (EnteredKernel m j) \<and>
    j = \<lparr> j_rsp = pr_stack_top p - 8, j_rdi = pr_boot_info p, j_rip = lk_entry k \<rparr> \<and> pr_stack_top p mod 4096 = 0 \<and>
    fs_read bs KERNEL_PATH c = (c', Inr dk) \<and> accepted dk (lk_entry k) gk \<and> (\<forall>g \<in> set gk. segment_loaded dk m g) \<and>
    fs_read bs USER_PATH d = (d', Inr du) \<and> accepted du (lk_entry u) gu \<and> (\<forall>g \<in> set gu. segment_loaded du m g) \<and>
    k = loaded_as (lk_entry k) gk \<and> u = loaded_as (lk_entry u) gu \<and>
    load_boot_info (raw_slice m (pr_boot_info p) SIZE_OF_BOOT_INFO) = info \<and> boot_info_validate info = Inr () \<and>
    info = boot_info_new\<lparr> mmap_ptr := mm_buffer mm, mmap_len := mm_len mm, mmap_desc_size := mm_desc_size mm mod 2 ^ 32,
      mmap_desc_ver := mm_desc_version mm, rsdp := pr_rsdp p, kernel_base := lk_base k, kernel_size := lk_size k,
      stack_top := pr_stack_top p, stack_size := KERNEL_STACK_SIZE, exit_port := (if qemu then DEBUG_EXIT_PORT else 0),
      user_phys := lk_base u, user_size := lk_size u, user_vaddr := as_u64 v, user_entry := lk_entry u \<rparr> \<and> from_le_bytes (raw_slice m (pr_boot_info p + 120) 8) \<le> 8 \<and>
    image_pages gk \<inter> image_pages gu = {} \<and> pages_at (pr_stack_top p - KERNEL_STACK_SIZE) 16 \<inter> (image_pages gk \<union> image_pages gu) = {} \<and>
    pr_boot_info p \<notin> image_pages gk \<union> image_pages gu \<union> pages_at (pr_stack_top p - KERNEL_STACK_SIZE) 16"
proof -
  obtain dk ek gk c c' where K: "fs_read bs KERNEL_PATH c = (c', Inr dk)" "accepted dk ek gk" "\<forall>g \<in> set gk. page_stop g \<le> U64_MAX" "k = loaded_as ek gk" "image_placed owned dk gk b b1"
    using fs_load_Inr [OF fw k [unfolded load_kernel_def]] by blast
  obtain du eu gu d d' where U: "fs_read bs USER_PATH d = (d', Inr du)" "accepted du eu gu" "\<forall>g \<in> set gu. page_stop g \<le> U64_MAX" "u = loaded_as eu gu" "image_placed owned du gu b1 b2"
    using fs_load_Inr [OF fw u [unfolded load_user_def]] by blast
  note P = prepare_run [OF fw hs p]
  have entries: "lk_entry k = ek" "lk_entry u = eu" using K(4) U(4) by (simp_all add: loaded_as_def)
  have own: "owned (bt_fw b1) = owned (bt_fw b) \<union> image_pages gk" "owned (bt_fw b2) = owned (bt_fw b1) \<union> image_pages gu"
    "image_pages gu \<inter> owned (bt_fw b1) = {}" using K(5) U(5) by (simp_all add: image_placed_def)
  note ex = mm
  have mm: "mm_buffer mm \<le> U64_MAX" "mm_len mm \<le> U64_MAX" "mm_desc_version mm \<le> U32_MAX" using hs ex by (simp_all add: handoff_ok_def)
  obtain info where info: "handoff_info qemu k u p (snd (exit_boot_services hs b3)) = Some info" "boot_info_fits info" "bi_magic info = BOOT_INFO_MAGIC"
    "boot_info_validate info = Inr ()"
    using handoff_info_run [OF v loaded_bounds(1,2) [OF K(2-4)] loaded_bounds [OF U(2-4)] P(6,7) mm, of qemu] ex by auto
  have "8 \<le> pr_stack_top p" using P(5) by (simp add: KERNEL_STACK_SIZE_def)
  from enter_kernel_run [OF hs noise P(3) info(1-3) this] obtain m r where m:
    "enter_kernel hs noise qemu k u p b3 = Some (m, \<lparr> j_rsp = pr_stack_top p - 8, j_rdi = pr_boot_info p, j_rip = lk_entry k \<rparr>)"
    "load_boot_info (raw_slice m (pr_boot_info p) SIZE_OF_BOOT_INFO) = info" "r \<le> 8" "raw_slice m (pr_boot_info p + 120) 8 = to_le_bytes 8 r"
    "\<And>a. page_of a \<in> owned (bt_fw b3) \<Longrightarrow> page_of a \<noteq> pr_boot_info p \<Longrightarrow> m a = bt_mem b3 a" by blast
  have same: "m a = bt_mem b2 a" if "page_of a \<in> owned (bt_fw b2)" for a
  proof -
    have "m a = bt_mem b3 a" by (rule m(5)) (use that P(2,9) in auto)
    then show ?thesis using P(1) that by (simp add: same_owned_def)
  qed
  note both_stay [OF K(5) U(5) K(2) U(2) same]
  moreover have "boot_main bs hs noise qemu codes b = Some (EnteredKernel m \<lparr> j_rsp = pr_stack_top p - 8, j_rdi = pr_boot_info p, j_rip = lk_entry k \<rparr>)"
    using k u p m(1) by (simp add: boot_main_def Let_def)
  moreover have "from_le_bytes (raw_slice m (pr_boot_info p + 120) 8) \<le> 8" using m(3,4) by (simp add: from_to_le_bytes_u64 U64_MAX_def)
  moreover have "image_pages gk \<inter> image_pages gu = {}" "pages_at (pr_stack_top p - KERNEL_STACK_SIZE) 16 \<inter> (image_pages gk \<union> image_pages gu) = {}"
    "pr_boot_info p \<notin> image_pages gk \<union> image_pages gu \<union> pages_at (pr_stack_top p - KERNEL_STACK_SIZE) 16"
    using own P(8-10) by auto
  moreover have "info = boot_info_new\<lparr> mmap_ptr := mm_buffer mm, mmap_len := mm_len mm, mmap_desc_size := mm_desc_size mm mod 2 ^ 32,
      mmap_desc_ver := mm_desc_version mm, rsdp := pr_rsdp p, kernel_base := lk_base k, kernel_size := lk_size k,
      stack_top := pr_stack_top p, stack_size := KERNEL_STACK_SIZE, exit_port := (if qemu then DEBUG_EXIT_PORT else 0),
      user_phys := lk_base u, user_size := lk_size u, user_vaddr := as_u64 v, user_entry := lk_entry u \<rparr>"
    using info(1) v ex by (auto simp: handoff_info_def handoff_exit_port_def run_simps)
  moreover note K(1) K(2,4) [folded entries] U(1) U(2,4) [folded entries] info(4) m(2) P(4)
  ultimately show ?thesis
    by (intro exI [of _ m] exI [of _ info] exI [of _ dk] exI [of _ gk] exI [of _ du] exI [of _ gu] exI [of _ c] exI [of _ c'] exI [of _ d] exI [of _ d']
        exI [of _ "\<lparr> j_rsp = pr_stack_top p - 8, j_rdi = pr_boot_info p, j_rip = lk_entry k \<rparr>"] conjI) (assumption | rule refl)+
qed

text \<open>A volume with a kernel and a user image, and a firmware that hands over an empty configuration.\<close>

definition sample_user_elf :: bytes where
  "sample_user_elf = [127, 69, 76, 70, 2, 1, 1] @ replicate 9 0 @ to_le_bytes 2 2 @ to_le_bytes 2 62 @ to_le_bytes 4 1 @
     to_le_bytes 8 4294967360 @ to_le_bytes 8 64 @ replicate 14 0 @ to_le_bytes 2 56 @ to_le_bytes 2 1 @ replicate 6 0 @
     to_le_bytes 4 1 @ to_le_bytes 4 5 @ to_le_bytes 8 0 @ to_le_bytes 8 4294967296 @ to_le_bytes 8 2097152 @
     to_le_bytes 8 120 @ to_le_bytes 8 4096 @ to_le_bytes 8 4096"

definition sample_user_segment :: Segment where
  "sample_user_segment = \<lparr> seg_offset = 0, seg_paddr = 2097152, seg_vaddr = 4294967296, seg_filesz = 120, seg_memsz = 4096, seg_flags = 5 \<rparr>"

definition sample_volume :: "(nat list, nat) BootServices" where
  "sample_volume = sample_services\<lparr> fs_read := (\<lambda>path b. (b, Inr (if path = KERNEL_PATH then sample_elf else sample_user_elf))) \<rparr>"

definition sample_handoff :: "(nat list, nat) HandoffServices" where
  "sample_handoff = \<lparr> ACPI2_GUID = 2, ACPI_GUID = 1, config_table = (\<lambda>_. [(1, 917504), (2, 983040)]),
     exit_boot_services = (\<lambda>b. (bt_mem b, \<lparr> mm_buffer = 8192, mm_len = 3, mm_desc_size = 48, mm_desc_version = 1 \<rparr>)) \<rparr>"

lemma sample_user_items: "phdr_items sample_user_elf = [Inr sample_user_segment]"
  by code_simp

lemma sample_user_length [simp]: "length sample_user_elf = 120"
  by (simp add: sample_user_elf_def)

lemma sample_user_checks: "elf_validate sample_user_elf = Some (Inr 4294967360)" "check_segments sample_user_elf = Some (Inr 1)"
    "check_no_overlap sample_user_elf = Some (Inr ())" "check_entry sample_user_elf 4294967360 = Some (Inr ())"
proof -
  show "elf_validate sample_user_elf = Some (Inr 4294967360)" by code_simp
  show "check_segments sample_user_elf = Some (Inr 1)"
    by (simp add: check_segments_def each_segment_eq sample_user_items check_segment_def uadd_def sample_user_segment_def rust_consts)
  show "check_no_overlap sample_user_elf = Some (Inr ())"
    by (simp add: check_no_overlap_def each_segment_eq sample_user_items check_range_def uadd_def slice_def sub_def index_set_def sample_user_segment_def rust_consts)
  show "check_entry sample_user_elf 4294967360 = Some (Inr ())"
    by (simp add: check_entry_def each_segment_eq sample_user_items check_entry_in_def uadd_def is_executable_def sample_user_segment_def rust_consts)
qed

lemma sample_user_pages: "image_pages [sample_user_segment] = {2097152}"
proof -
  have "pages_between 2097152 2101248 = insert 2097152 (pages_between 2101248 2101248)" using pages_between_step(2) [of 2097152 2101248] by simp
  moreover have "pages_between 2101248 2101248 = {}" by (auto simp: pages_between_def)
  moreover have "page_start sample_user_segment = 2097152" "page_stop sample_user_segment = 2101248"
    by (simp_all add: page_start_def page_stop_def sample_user_segment_def div_ceil_def)
  ultimately show ?thesis by (simp add: image_pages_def segment_pages_between)
qed

lemma sample_volume_ok: "firmware_ok sample_volume set"
  using sample_firmware by (simp add: firmware_ok_def sample_volume_def) (auto simp: same_owned_def ISIZE_MAX_def)

lemma sample_handoff_ok: "handoff_ok sample_handoff set"
  by (auto simp: handoff_ok_def sample_handoff_def rust_consts)

text \<open>The sample firmware refuses only a page it has given away.\<close>

lemma sample_grants: "B \<inter> P = {} \<Longrightarrow> card P \<le> 256 \<Longrightarrow> \<not> pages_refused sample_volume set B P e"
  by (auto simp: pages_refused_def sample_volume_def sample_services_def rust_consts split: if_splits)

lemma sample_loads:
  "\<exists>b1. load_kernel sample_volume sample_start = Some (Inr (b1, loaded_as 1048640 [sample_segment])) \<and> set (bt_fw b1) = {1048576, 1052672} \<and>
    (\<exists>b2. load_user sample_volume b1 = Some (Inr (b2, loaded_as 4294967360 [sample_user_segment])) \<and> set (bt_fw b2) = {2097152, 1048576, 1052672})"
proof -
  have fs: "get_image_file_system sample_volume b = (b, Inr ())" "fs_read sample_volume KERNEL_PATH b = (b, Inr sample_elf)"
    "fs_read sample_volume USER_PATH b = (b, Inr sample_user_elf)" for b
    by (simp_all add: sample_volume_def sample_services_def KERNEL_PATH_def USER_PATH_def)
  have low: "\<forall>g. Inr g \<in> set (phdr_items sample_elf) \<longrightarrow> page_stop g \<le> U64_MAX \<and> seg_vaddr g < 2 ^ 63 \<and> seg_paddr g < 2 ^ 63"
    "\<forall>g. Inr g \<in> set (phdr_items sample_user_elf) \<longrightarrow> page_stop g \<le> U64_MAX \<and> seg_vaddr g < 2 ^ 63 \<and> seg_paddr g < 2 ^ 63"
    by (simp_all add: sample_elf_items sample_user_items sample_segment_def sample_user_segment_def page_stop_def div_ceil_def U64_MAX_def)
  obtain b1 where b1: "load_kernel sample_volume sample_start = Some (Inr (b1, loaded_as 1048640 [sample_segment]))" "set (bt_fw b1) = {1048576, 1052672}"
    using fs_load_run [OF sample_volume_ok fs(1,2) sample_checks low(1), of sample_start] sample_grants [of "{}" "image_pages [sample_segment]"] sample_pages
    by (cases "load_kernel sample_volume sample_start"; cases "the (load_kernel sample_volume sample_start)")
      (auto simp: load_kernel_def sample_elf_items Cons_eq_map_conv image_placed_def sample_start_def)
  obtain b2 where "load_user sample_volume b1 = Some (Inr (b2, loaded_as 4294967360 [sample_user_segment]))" "set (bt_fw b2) = {2097152, 1048576, 1052672}"
    using fs_load_run [OF sample_volume_ok fs(1,3) sample_user_checks low(2), of b1] sample_grants [of "set (bt_fw b1)" "image_pages [sample_user_segment]"] sample_user_pages b1(2)
    by (cases "load_user sample_volume b1"; cases "the (load_user sample_volume b1)")
      (auto simp: load_user_def sample_user_items Cons_eq_map_conv image_placed_def)
  then show ?thesis using b1 by blast
qed

lemma sample_top_bound: "\<forall>p \<in> set ps. p \<le> N \<Longrightarrow> 4096 \<le> N \<Longrightarrow> sample_top ps \<le> N + 4096"
proof -
  assume "\<forall>p \<in> set ps. p \<le> N" "4096 \<le> N"
  then have "foldr max ps 4096 \<le> N" by (induction ps) auto
  then show ?thesis unfolding sample_top_def using div_times_less_eq_dividend [of "foldr max ps 4096" 4096] by linarith
qed

lemma sample_prepares:
  assumes "\<forall>p \<in> set (bt_fw b). p \<le> 2097152"
  shows "\<exists>b' p. prepare sample_volume sample_handoff b = Some (Inr (b', p))"
proof -
  let ?a = "sample_top (bt_fw b)" and ?ps = "\<lambda>a. map (\<lambda>i. a + i * 4096) [0..<16]"
  have a: "?a \<le> 2101248" using sample_top_bound [OF assms] by simp
  then have "\<forall>p \<in> set (?ps ?a @ bt_fw b). p \<le> 3000000" using assms by force
  then have c: "sample_top (?ps ?a @ bt_fw b) \<le> 3004096" using sample_top_bound [of "?ps ?a @ bt_fw b" 3000000] by simp
  have stack: "KERNEL_STACK_SIZE div 4096 = 16" by (simp add: KERNEL_STACK_SIZE_def)
  have any: "allocate_any sample_volume n b = (if sample_top (bt_fw b) + n * 4096 \<le> U64_MAX
      then (b\<lparr>bt_fw := map (\<lambda>i. sample_top (bt_fw b) + i * 4096) [0..<n] @ bt_fw b\<rparr>, Inr (sample_top (bt_fw b))) else (b, Inl 9))" for n b
    by (simp add: sample_volume_def sample_services_def Let_def)
  have "?a + 16 * 4096 \<le> U64_MAX" "sample_top (?ps ?a @ bt_fw b) + 1 * 4096 \<le> U64_MAX" using a c by (simp_all add: U64_MAX_def)
  moreover have "uadd ?a KERNEL_STACK_SIZE = Some (?a + KERNEL_STACK_SIZE)" using a by (simp add: uadd_def rust_consts)
  ultimately show ?thesis unfolding prepare_def stack Let_def any by (simp add: usub_def del: upt_Suc)
qed

theorem boot_hands_over_witness:
  "\<exists>m j. boot_main sample_volume sample_handoff (\<lambda>_ m. m) True (1, 2, 3) sample_start = Some (EnteredKernel m j) \<and> j_rip j = 1048640 \<and>
    boot_info_validate (load_boot_info (raw_slice m (j_rdi j) SIZE_OF_BOOT_INFO)) = Inr ()"
proof -
  obtain b1 b2 where l: "load_kernel sample_volume sample_start = Some (Inr (b1, loaded_as 1048640 [sample_segment]))"
    "load_user sample_volume b1 = Some (Inr (b2, loaded_as 4294967360 [sample_user_segment]))" "set (bt_fw b2) = {2097152, 1048576, 1052672}"
    using sample_loads by blast
  obtain b3 p where p: "prepare sample_volume sample_handoff b2 = Some (Inr (b3, p))" using sample_prepares [of b2] l(3) by auto
  have ex: "exit_boot_services sample_handoff b3 = (bt_mem b3, \<lparr> mm_buffer = 8192, mm_len = 3, mm_desc_size = 48, mm_desc_version = 1 \<rparr>)"
    by (simp add: sample_handoff_def)
  let ?u = "loaded_as 4294967360 [sample_user_segment]"
  have v: "i64_checked (as_i64 (lk_base ?u) + lk_vaddr_delta ?u) = Some 4294967296"
    by (simp add: loaded_as_def sample_user_segment_def page_start_def as_i64_def i64_checked_def)
  have n: "magic_only (\<lambda>_ m. m) (pr_boot_info p)" by (simp add: magic_only_def)
  have e: "lk_entry (loaded_as 1048640 [sample_segment]) = 1048640" by (simp add: loaded_as_def)
  from boot_hands_over [OF sample_volume_ok sample_handoff_ok n l(1,2) p ex v, of True "(1, 2, 3)"] show ?thesis
    unfolding e by (elim exE conjE) (rule exI, rule exI, rule conjI, assumption, simp)
qed

end
