(* ===== verification/Descriptors.thy ===== *)
theory Descriptors
  imports Boot_Info
begin

text \<open>
  The descriptor tables of the kernel: the segment table and task state of
  \<^verbatim>\<open>src/crates/kernel/src/gdt.rs\<close>, the interrupt table, the frames the stubs build and the exception
  handler of \<^verbatim>\<open>src/crates/kernel/src/idt.rs\<close>.

  The tables are encoded as the source encodes them; \<open>cpu_gate\<close>, \<open>cpu_segment\<close> and \<open>cpu_tss\<close> read them the
  way the processor does, so that the properties say what the processor sees.  The addresses of the
  statics and of the stubs are chosen by the linker and are arguments of the definitions.
\<close>

unbundle bit_operations_syntax

section \<open>Selectors and the task state\<close>

definition KERNEL_CODE :: u16 where [rust_consts]: "KERNEL_CODE = 8"
definition KERNEL_DATA :: u16 where [rust_consts]: "KERNEL_DATA = 16"
definition TSS_SELECTOR :: u16 where [rust_consts]: "TSS_SELECTOR = 24"
definition USER_CODE :: u16 where [rust_consts]: "USER_CODE = 40"
definition USER_DATA :: u16 where [rust_consts]: "USER_DATA = 48"
definition IST_DOUBLE_FAULT :: nat where [rust_consts]: "IST_DOUBLE_FAULT = 1"
definition IST_NMI :: nat where [rust_consts]: "IST_NMI = 2"
definition IST_VECTOR_DOUBLE_FAULT :: nat where [rust_consts]: "IST_VECTOR_DOUBLE_FAULT = 8"
definition IST_VECTOR_NMI :: nat where [rust_consts]: "IST_VECTOR_NMI = 2"

record Tss =
  tss_rsp0 :: u64
  tss_rsp1 :: u64
  tss_rsp2 :: u64
  tss_ist :: "u64 list"
  tss_iomap_base :: u16

text \<open>The widths of the fields of the packed struct, the reserved ones included.\<close>

definition SIZE_OF_TSS :: nat where
  "SIZE_OF_TSS = sum_list [4, 8, 8, 8, 8, 7 * 8, 8, 2, 2]"

definition tss_new :: Tss where
  "tss_new = \<lparr> tss_rsp0 = 0, tss_rsp1 = 0, tss_rsp2 = 0, tss_ist = replicate 7 0, tss_iomap_base = SIZE_OF_TSS \<rparr>"

section \<open>The segment table\<close>

definition code_descriptor :: u64 where "code_descriptor = 0x00AF9A000000FFFF"
definition user_code_descriptor :: u64 where "user_code_descriptor = 0x00AFFA000000FFFF"
definition user_data_descriptor :: u64 where "user_data_descriptor = 0x00CFF2000000FFFF"
definition data_descriptor :: u64 where "data_descriptor = 0x00CF92000000FFFF"

definition tss_descriptor :: "u64 \<Rightarrow> u64 \<times> u64" where
  "tss_descriptor base = (let
     limit = SIZE_OF_TSS - 1;
     low = (limit AND 0xFFFF) OR (take_bit 64 (push_bit 16 (base AND 0xFFFFFF))) OR (push_bit 40 0x89) OR
       (push_bit 48 (drop_bit 16 limit AND 0xF)) OR (push_bit 56 (drop_bit 24 base AND 0xFF)) in
     (low, drop_bit 32 base))"

text \<open>The registers that hold the tables and the selectors.\<close>

record Segments =
  gdtr :: "u16 \<times> u64"
  idtr :: "u16 \<times> u64"
  seg_cs :: u16
  seg_ss :: u16
  seg_ds :: u16
  seg_es :: u16
  seg_fs :: u16
  seg_gs :: u16
  seg_tr :: u16

record Gdt =
  gdt_at :: u64
  gdt_entries :: "u64 list"
  gdt_tss_at :: u64
  gdt_tss :: Tss

definition SIZE_OF_GDT :: nat where
  "SIZE_OF_GDT = 8 * 8"

definition gdt_fill :: "Gdt \<Rightarrow> u64 \<Rightarrow> u64 \<Rightarrow> Gdt panics" where
  "gdt_fill g ist_double_fault ist_nmi = do {
     ist \<leftarrow> index_set (tss_ist (gdt_tss g)) (IST_DOUBLE_FAULT - 1) ist_double_fault;
     ist \<leftarrow> index_set ist (IST_NMI - 1) ist_nmi;
     let (tss_low, tss_high) = tss_descriptor (gdt_tss_at g);
     Some (g\<lparr>gdt_tss := (gdt_tss g)\<lparr>tss_ist := ist\<rparr>,
       gdt_entries := [0, code_descriptor, data_descriptor, tss_low, tss_high, user_code_descriptor, user_data_descriptor, 0]\<rparr>)
   }"

definition load_gdt :: "u16 \<times> u64 \<Rightarrow> Segments \<Rightarrow> Segments" where
  "load_gdt r s = s\<lparr>gdtr := r, seg_cs := 8, seg_ds := 16, seg_es := 16, seg_ss := 16, seg_fs := 0, seg_gs := 0\<rparr>"

definition load_tr :: "Segments \<Rightarrow> Segments" where
  "load_tr s = s\<lparr>seg_tr := TSS_SELECTOR\<rparr>"

text \<open>The error is the message of the source: the table read back is not the one loaded.\<close>

definition gdt_install :: "Gdt \<Rightarrow> Segments \<Rightarrow> u64 \<Rightarrow> u64 \<Rightarrow> ((Gdt \<times> Segments) \<times> (unit + unit)) panics" where
  "gdt_install g s ist_double_fault ist_nmi = do {
     g \<leftarrow> gdt_fill g ist_double_fault ist_nmi;
     let r = (SIZE_OF_GDT - 1, gdt_at g);
     let s = load_tr (load_gdt r s);
     let check = gdtr s;
     Some ((g, s), if snd check \<noteq> snd r \<or> fst check \<noteq> fst r then Inl () else Inr ())
   }"

definition set_rsp0 :: "Tss \<Rightarrow> u64 \<Rightarrow> Tss" where
  "set_rsp0 t sp = t\<lparr>tss_rsp0 := sp\<rparr>"

definition ist_top :: "Tss \<Rightarrow> nat \<Rightarrow> u64 panics" where
  "ist_top t i = (if \<not> (1 \<le> i \<and> i \<le> 7) then Some 0 else index (tss_ist t) (i - 1))"

section \<open>Gates\<close>

record Gate =
  offset_low :: u16
  selector :: u16
  gate_ist :: nat
  type_attr :: nat
  offset_mid :: u16
  offset_high :: u32
  gate_reserved :: u32

definition gate_missing :: Gate where
  "gate_missing = \<lparr> offset_low = 0, selector = 0, gate_ist = 0, type_attr = 0, offset_mid = 0, offset_high = 0, gate_reserved = 0 \<rparr>"

definition with_dpl :: "u64 \<Rightarrow> u16 \<Rightarrow> nat \<Rightarrow> nat \<Rightarrow> Gate" where
  "with_dpl handler sel ist dpl = \<lparr> offset_low = take_bit 16 handler, selector = sel, gate_ist = ist,
     type_attr = (0x8E OR push_bit 5 (dpl AND 3)), offset_mid = take_bit 16 (drop_bit 16 handler),
     offset_high = take_bit 32 (drop_bit 32 handler), gate_reserved = 0 \<rparr>"

definition with_ist :: "u64 \<Rightarrow> u16 \<Rightarrow> nat \<Rightarrow> Gate" where
  "with_ist handler sel ist = with_dpl handler sel ist 0"

text \<open>The packed struct in memory.\<close>

definition gate_bytes :: "Gate \<Rightarrow> bytes" where
  "gate_bytes g = to_le_bytes 2 (offset_low g) @ to_le_bytes 2 (selector g) @ to_le_bytes 1 (gate_ist g) @
     to_le_bytes 1 (type_attr g) @ to_le_bytes 2 (offset_mid g) @ to_le_bytes 4 (offset_high g) @ to_le_bytes 4 (gate_reserved g)"

definition YIELD_VECTOR :: nat where [rust_consts]: "YIELD_VECTOR = 48"
definition EXIT_VECTOR :: nat where [rust_consts]: "EXIT_VECTOR = 49"
definition SYSCALL_VECTOR :: nat where [rust_consts]: "SYSCALL_VECTOR = 64"
definition IRQ_VECTOR_BASE :: nat where [rust_consts]: "IRQ_VECTOR_BASE = 32"

text \<open>The two loops of \<open>install\<close>: a gate per stub, from vector \<open>v\<close> on.\<close>

fun set_gates :: "(nat \<Rightarrow> nat) \<Rightarrow> u16 \<Rightarrow> nat \<Rightarrow> u64 list \<Rightarrow> Gate list \<Rightarrow> Gate list panics" where
  "set_gates ist sel v [] idt = Some idt"
| "set_gates ist sel v (h # hs) idt = do {
     idt \<leftarrow> index_set idt v (with_ist h sel (ist v));
     set_gates ist sel (v + 1) hs idt
   }"

definition ist_of_vector :: "nat \<Rightarrow> nat" where
  "ist_of_vector v = (if v = IST_VECTOR_DOUBLE_FAULT then IST_DOUBLE_FAULT else if v = IST_VECTOR_NMI then IST_NMI else 0)"

definition SIZE_OF_IDT :: nat where
  "SIZE_OF_IDT = 256 * 16"

text \<open>\<open>stub v\<close> is the address of the stub that pushes vector \<open>v\<close>.\<close>

definition idt_install :: "(nat \<Rightarrow> u64) \<Rightarrow> u64 \<Rightarrow> Gate list \<Rightarrow> Segments \<Rightarrow> (Gate list \<times> Segments) panics" where
  "idt_install stub idt_at idt s = do {
     let sel = seg_cs s;
     let handlers = map stub [0..<32];
     let irq_handlers = map stub [32..<48];
     idt \<leftarrow> set_gates ist_of_vector sel 0 handlers idt;
     idt \<leftarrow> set_gates (\<lambda>_. 0) sel IRQ_VECTOR_BASE irq_handlers idt;
     idt \<leftarrow> index_set idt YIELD_VECTOR (with_ist (stub YIELD_VECTOR) sel 0);
     idt \<leftarrow> index_set idt EXIT_VECTOR (with_ist (stub EXIT_VECTOR) sel 0);
     idt \<leftarrow> index_set idt SYSCALL_VECTOR (with_dpl (stub SYSCALL_VECTOR) sel 0 3);
     Some (idt, s\<lparr>idtr := (SIZE_OF_IDT - 1, idt_at)\<rparr>)
   }"

section \<open>Exceptions\<close>

record ExceptionFrame =
  ex_vector :: u64
  ex_error_code :: u64
  ex_rip :: u64
  ex_cs :: u64
  ex_rflags :: u64
  ex_rsp :: u64
  ex_ss :: u64

text \<open>
  The words on the stack, lowest address first.  A stub declared \<open>with_error\<close> pushes its vector on top of
  the error code of the processor, the others push a zero first.
\<close>

definition stub_with_error :: "nat \<Rightarrow> bool" where
  "stub_with_error v \<longleftrightarrow> v \<in> {8, 10, 11, 12, 13, 14, 17, 21, 29, 30}"

definition isr_stub :: "nat \<Rightarrow> u64 list \<Rightarrow> u64 list" where
  "isr_stub v stack = (if stub_with_error v then v # stack else v # 0 # stack)"

definition exception_frame :: "u64 list \<Rightarrow> ExceptionFrame" where
  "exception_frame w = \<lparr> ex_vector = w ! 0, ex_error_code = w ! 1, ex_rip = w ! 2, ex_cs = w ! 3, ex_rflags = w ! 4, ex_rsp = w ! 5,
     ex_ss = w ! 6 \<rparr>"

definition is_user_fault :: "ExceptionFrame \<Rightarrow> bool" where
  "is_user_fault f = (ex_cs f AND 3 = 3)"

datatype StackKind = IST1_stack | IST2_stack | Current_stack

definition on_ist :: "Tss \<Rightarrow> u64 \<Rightarrow> nat \<Rightarrow> bool panics" where
  "on_ist t rsp i = do {
     hi \<leftarrow> ist_top t i;
     Some (hi \<noteq> 0 \<and> rsp \<le> hi \<and> rsp > saturating_sub hi 4096)
   }"

definition current_stack_kind :: "Tss \<Rightarrow> u64 \<Rightarrow> StackKind panics" where
  "current_stack_kind t rsp = do {
     first \<leftarrow> on_ist t rsp IST_DOUBLE_FAULT;
     if first then Some IST1_stack
     else do {
       second \<leftarrow> on_ist t rsp IST_NMI;
       Some (if second then IST2_stack else Current_stack)
     }
   }"

text \<open>What the handler reports (the known vector, the stack it runs on) and the value it exits with.\<close>

definition exception_handler :: "Tss \<Rightarrow> u64 \<Rightarrow> ExceptionFrame \<Rightarrow> ((nat option \<times> StackKind) \<times> u8) panics" where
  "exception_handler t rsp f = do {
     let name = (if ex_vector f < 32 then Some (ex_vector f) else None);
     kind \<leftarrow> current_stack_kind t rsp;
     Some ((name, kind), if is_user_fault f then EXIT_VALUE_USER_FAILURE else EXIT_VALUE_KERNEL_FAULT)
   }"

section \<open>What the processor reads\<close>

record CpuGate =
  cg_offset :: nat
  cg_selector :: nat
  cg_ist :: nat
  cg_type :: nat
  cg_dpl :: nat
  cg_present :: bool

definition le_at :: "bytes \<Rightarrow> nat \<Rightarrow> nat \<Rightarrow> nat" where
  "le_at bs a n = from_le_bytes (sub bs a n)"

definition cpu_gate :: "bytes \<Rightarrow> CpuGate" where
  "cpu_gate bs = \<lparr> cg_offset = le_at bs 0 2 + 2 ^ 16 * le_at bs 6 2 + 2 ^ 32 * le_at bs 8 4, cg_selector = le_at bs 2 2,
     cg_ist = take_bit 3 (le_at bs 4 1), cg_type = take_bit 4 (le_at bs 5 1), cg_dpl = take_bit 2 (drop_bit 5 (le_at bs 5 1)),
     cg_present = bit (le_at bs 5 1) 7 \<rparr>"

text \<open>A software interrupt at privilege level \<open>cpl\<close> passes the gate.\<close>

definition int_allowed :: "CpuGate \<Rightarrow> nat \<Rightarrow> bool" where
  "int_allowed g cpl \<longleftrightarrow> cg_present g \<and> cpl \<le> cg_dpl g"

record CpuSegment =
  sg_base :: nat
  sg_limit :: nat
  sg_type :: nat
  sg_system :: bool
  sg_dpl :: nat
  sg_present :: bool
  sg_long :: bool
  sg_granular :: bool

definition cpu_segment :: "nat \<Rightarrow> CpuSegment" where
  "cpu_segment d = \<lparr> sg_base = take_bit 24 (drop_bit 16 d) + 2 ^ 24 * take_bit 8 (drop_bit 56 d),
     sg_limit = take_bit 16 d + 2 ^ 16 * take_bit 4 (drop_bit 48 d), sg_type = take_bit 4 (drop_bit 40 d), sg_system = (\<not> bit d 44),
     sg_dpl = take_bit 2 (drop_bit 45 d), sg_present = bit d 47, sg_long = bit d 53, sg_granular = bit d 55 \<rparr>"

text \<open>A system descriptor in 64-bit mode: the second word holds the high half of the base.\<close>

definition cpu_system_segment :: "nat \<Rightarrow> nat \<Rightarrow> CpuSegment" where
  "cpu_system_segment low high = (let s = cpu_segment low in s\<lparr>sg_base := sg_base s + 2 ^ 32 * take_bit 32 high\<rparr>)"

lemma split_nat: "x mod m + m * (x div m mod n) + (m * n) * (x div (m * n)) = x" for x m n :: nat
proof -
  define q where "q = x div m"
  have "x = x mod m + m * q" by (simp add: q_def)
  also have "q = q mod n + n * (q div n)" by simp
  also have "q div n = x div (m * n)" by (simp add: q_def div_mult2_eq)
  finally show ?thesis by (simp add: q_def algebra_simps)
qed

lemma split_address:
  assumes "h < 2 ^ 64" "a + b = 32"
  shows "take_bit a h + 2 ^ a * take_bit b (drop_bit a h) + 2 ^ 32 * take_bit 32 (drop_bit 32 h) = (h :: nat)"
proof -
  have "h div 2 ^ 32 < 2 ^ 32" using assms by (simp add: less_mult_imp_div_less)
  then have "take_bit 32 (drop_bit 32 h) = h div 2 ^ 32" by (simp only: take_bit_eq_mod drop_bit_eq_div mod_less)
  moreover have "(2 ^ 32 :: nat) = 2 ^ a * 2 ^ b" using assms(2) by (metis power_add)
  ultimately show ?thesis
    using split_nat [of h "2 ^ a" "2 ^ b"] by (simp only: take_bit_eq_mod drop_bit_eq_div)
qed

lemma gate_fields:
  "le_at (gate_bytes g) 0 2 = offset_low g mod 2 ^ 16" "le_at (gate_bytes g) 2 2 = selector g mod 2 ^ 16"
  "le_at (gate_bytes g) 4 1 = gate_ist g mod 2 ^ 8" "le_at (gate_bytes g) 5 1 = type_attr g mod 2 ^ 8"
  "le_at (gate_bytes g) 6 2 = offset_mid g mod 2 ^ 16" "le_at (gate_bytes g) 8 4 = offset_high g mod 2 ^ 32"
  by (simp_all add: le_at_def gate_bytes_def sub_def from_to_le_bytes del: One_nat_def to_le_bytes.simps)

lemma cpu_gate_with_dpl:
  assumes "h < 2 ^ 64" "sel < 2 ^ 16" "ist < 8" "dpl < 4"
  shows "cpu_gate (gate_bytes (with_dpl h sel ist dpl)) =
    \<lparr> cg_offset = h, cg_selector = sel, cg_ist = ist, cg_type = 14, cg_dpl = dpl, cg_present = True \<rparr>"
proof -
  have "dpl \<in> {0, 1, 2, 3}" using assms(4) by auto
  then have "take_bit 4 ((0x8E OR push_bit 5 (dpl AND 3)) mod 256) = 14" "take_bit 2 (drop_bit 5 ((0x8E OR push_bit 5 (dpl AND 3)) mod 256)) = dpl"
    "bit ((0x8E OR push_bit 5 (dpl AND 3)) mod 256 :: nat) 7"
    by (auto simp: push_bit_eq_mult drop_bit_eq_div take_bit_eq_mod bit_iff_odd)
  moreover have "take_bit 3 (ist mod 256) = ist" using assms(3) by (simp add: take_bit_eq_mod)
  ultimately show ?thesis
    using split_address [OF assms(1), of 16 16] assms(2) by (simp add: cpu_gate_def gate_fields with_dpl_def take_bit_eq_mod del: One_nat_def)
qed

lemma cpu_gate_missing: "\<not> cg_present (cpu_gate (gate_bytes gate_missing))"
  by (simp add: cpu_gate_def gate_fields gate_missing_def del: One_nat_def)

lemma set_gates_eq:
  "v + length hs \<le> length idt \<Longrightarrow> \<exists>idt'. set_gates ist sel v hs idt = Some idt' \<and> length idt' = length idt \<and>
    (\<forall>i < length idt. idt' ! i = (if v \<le> i \<and> i < v + length hs then with_ist (hs ! (i - v)) sel (ist i) else idt ! i))"
proof (induction hs arbitrary: v idt)
  case (Cons h hs)
  then obtain idt' where "set_gates ist sel (v + 1) hs (idt[v := with_ist h sel (ist v)]) = Some idt'" "length idt' = length idt"
    "\<forall>i < length idt. idt' ! i = (if v + 1 \<le> i \<and> i < v + 1 + length hs then with_ist (hs ! (i - (v + 1))) sel (ist i)
       else idt[v := with_ist h sel (ist v)] ! i)"
    using Cons.IH [of "v + 1" "idt[v := with_ist h sel (ist v)]"] by auto
  then show ?case using Cons.prems by (auto simp: index_set_def nth_Cons' nth_list_update)
qed simp

lemma idt_install_eq:
  assumes "length idt = 256"
  shows "\<exists>idt'. idt_install stub idt_at idt s = Some (idt', s\<lparr>idtr := (4095, idt_at)\<rparr>) \<and> length idt' = 256 \<and>
    (\<forall>v < 256. idt' ! v = (if v = 64 then with_dpl (stub 64) (seg_cs s) 0 3
       else if v < 50 then with_dpl (stub v) (seg_cs s) (ist_of_vector v) 0 else idt ! v))"
proof -
  let ?sel = "seg_cs s"
  have irq: "map stub [32..<48] ! (i - 32) = stub i" if "32 \<le> i" "i < 48" for i using that by (simp del: upt_rec_numeral)
  obtain i1 where i1: "set_gates ist_of_vector ?sel 0 (map stub [0..<32]) idt = Some i1" "length i1 = 256"
    "\<forall>i < 256. i1 ! i = (if i < 32 then with_ist (stub i) ?sel (ist_of_vector i) else idt ! i)"
    using set_gates_eq [of 0 "map stub [0..<32]" idt ist_of_vector ?sel] assms by (auto simp del: upt_rec_numeral)
  obtain i2 where i2: "set_gates (\<lambda>_. 0) ?sel 32 (map stub [32..<48]) i1 = Some i2" "length i2 = 256"
    "\<forall>i < 256. i2 ! i = (if 32 \<le> i \<and> i < 48 then with_ist (stub i) ?sel 0 else i1 ! i)"
    using set_gates_eq [of 32 "map stub [32..<48]" i1 "\<lambda>_. 0" ?sel] i1(2) irq by (auto simp del: upt_rec_numeral nth_map)
  let ?idt = "i2[48 := with_ist (stub 48) ?sel 0, 49 := with_ist (stub 49) ?sel 0, 64 := with_dpl (stub 64) ?sel 0 3]"
  have "idt_install stub idt_at idt s = Some (?idt, s\<lparr>idtr := (4095, idt_at)\<rparr>)"
    using i1(1) i2(1,2) by (simp del: upt_rec_numeral add: idt_install_def Let_def index_set_def SIZE_OF_IDT_def rust_consts)
  moreover have "?idt ! v = (if v = 64 then with_dpl (stub 64) ?sel 0 3
       else if v < 50 then with_dpl (stub v) ?sel (ist_of_vector v) 0 else idt ! v)" if "v < 256" for v
    using that i1(3) i2(2,3) by (auto simp: nth_list_update with_ist_def ist_of_vector_def rust_consts)
  ultimately show ?thesis using i2(2) by (intro exI [of _ ?idt]) auto
qed

lemma or_above: "x < 2 ^ n \<Longrightarrow> x OR push_bit n y = x + 2 ^ n * y" for x y :: nat
proof -
  assume x: "x < 2 ^ n"
  have "x AND push_bit n y = 0"
  proof (rule bit_eqI)
    fix i
    have "i < n" if "bit x i" using that x by (metis bit_take_bit_iff take_bit_nat_eq_self)
    then show "bit (x AND push_bit n y) i = bit (0 :: nat) i" by (auto simp: bit_and_iff bit_push_bit_iff)
  qed
  then have "x OR push_bit n y = x + push_bit n y" by (simp add: disjunctive_add_eq_or)
  then show ?thesis by (simp add: push_bit_eq_mult mult.commute)
qed

lemma bits_above: "x < 2 ^ n \<Longrightarrow> take_bit n (x + 2 ^ n * y) = x" "x < 2 ^ n \<Longrightarrow> drop_bit n (x + 2 ^ n * y) = y" for x y :: nat
  by (simp_all add: take_bit_eq_mod drop_bit_eq_div)

lemma tss_low:
  "fst (tss_descriptor base) = 103 + 2 ^ 16 * (take_bit 24 base + 2 ^ 24 * (137 + 2 ^ 8 * (0 + 2 ^ 8 * take_bit 8 (drop_bit 24 base))))"
proof -
  let ?a = "take_bit 24 base" and ?b = "take_bit 8 (drop_bit 24 base)"
  have m: "base AND 0xFFFFFF = ?a" "drop_bit 24 base AND 0xFF = ?b"
    by (simp_all add: take_bit_eq_mask mask_eq_exp_minus_1)
  have a: "?a < 2 ^ 24" using take_bit_nat_less_exp [of 24 base] .
  have s: "take_bit 64 (push_bit 16 ?a) = push_bit 16 ?a"
    using a by (simp add: take_bit_eq_mod push_bit_eq_mult)
  have "103 OR push_bit 16 ?a = 103 + 2 ^ 16 * ?a" by (rule or_above) simp
  moreover have "103 + 2 ^ 16 * ?a OR push_bit 40 0x89 = 103 + 2 ^ 16 * ?a + 2 ^ 40 * 0x89"
    using a by (intro or_above) simp
  moreover have "103 + 2 ^ 16 * ?a + 2 ^ 40 * 0x89 OR push_bit 56 ?b = 103 + 2 ^ 16 * ?a + 2 ^ 40 * 0x89 + 2 ^ 56 * ?b"
    using a by (intro or_above) simp
  ultimately show ?thesis
    unfolding tss_descriptor_def Let_def m s by (simp add: SIZE_OF_TSS_def or.assoc [symmetric])
qed

lemma tss_descriptor_read:
  assumes "base < 2 ^ 64"
  shows "cpu_system_segment (fst (tss_descriptor base)) (snd (tss_descriptor base)) =
    \<lparr> sg_base = base, sg_limit = 103, sg_type = 9, sg_system = True, sg_dpl = 0, sg_present = True, sg_long = False, sg_granular = False \<rparr>"
proof -
  let ?a = "take_bit 24 base" and ?b = "take_bit 8 (drop_bit 24 base)"
  define d where "d = fst (tss_descriptor base)"
  have d: "d = 103 + 2 ^ 16 * (?a + 2 ^ 24 * (137 + 2 ^ 8 * (0 + 2 ^ 8 * ?b)))" unfolding d_def by (rule tss_low)
  have a: "?a < 2 ^ 24" "?b < 2 ^ 8" using take_bit_nat_less_exp by blast+
  have d16: "drop_bit 16 d = ?a + 2 ^ 24 * (137 + 2 ^ 8 * (0 + 2 ^ 8 * ?b))" unfolding d by (rule bits_above) simp
  have "drop_bit 40 d = drop_bit 24 (drop_bit 16 d)" by simp
  also have "\<dots> = 137 + 2 ^ 8 * (0 + 2 ^ 8 * ?b)" unfolding d16 by (rule bits_above) (rule a)
  finally have d40: "drop_bit 40 d = 137 + 2 ^ 8 * (0 + 2 ^ 8 * ?b)" .
  have "drop_bit 48 d = drop_bit 8 (drop_bit 40 d)" by simp
  also have "\<dots> = 0 + 2 ^ 8 * ?b" unfolding d40 by (rule bits_above) simp
  finally have d48: "drop_bit 48 d = 2 ^ 8 * ?b" by simp
  have "drop_bit 56 d = drop_bit 8 (drop_bit 48 d)" by simp
  also have "\<dots> = ?b" unfolding d48 by (simp add: drop_bit_eq_div)
  finally have d56: "drop_bit 56 d = ?b" .
  have low: "take_bit 16 d = 103" unfolding d by (rule bits_above) simp
  have mid: "take_bit 24 (drop_bit 16 d) = ?a" unfolding d16 by (rule bits_above) (rule a)
  have acc: "take_bit 8 (drop_bit 40 d) = 137" unfolding d40 by (rule bits_above) simp
  have t: "take_bit 4 (drop_bit 40 d) = 9" using arg_cong [OF acc, of "take_bit 4"] by (simp add: min_def)
  have dpl: "take_bit 2 (drop_bit 45 d) = 0"
    using arg_cong [OF acc, of "\<lambda>x. take_bit 2 (drop_bit 5 x)"] by (simp add: drop_bit_take_bit)
  have bits: "bit d (40 + n) = bit (137 :: nat) n" if "n < 8" for n
    using that unfolding acc [symmetric] by (simp add: bit_take_bit_iff bit_drop_bit_eq)
  have high: "bit d (48 + n) = False" if "n < 8" for n
  proof -
    have "bit d (48 + n) = bit (2 ^ 8 * ?b) n" unfolding d48 [symmetric] by (simp add: bit_drop_bit_eq)
    also have "2 ^ 8 * ?b = push_bit 8 ?b" by (simp add: push_bit_eq_mult)
    finally show ?thesis using that by (simp add: bit_push_bit_iff)
  qed
  have h48: "take_bit 4 (drop_bit 48 d) = 0" 
    unfolding d48 take_bit_eq_mod by (intro dvd_imp_mod_0 dvd_mult2) simp
  have snd: "snd (tss_descriptor base) = drop_bit 32 base" by (simp add: tss_descriptor_def Let_def)
  have sum: "?a + 2 ^ 24 * ?b + 2 ^ 32 * take_bit 32 (drop_bit 32 base) = base" by (rule split_address [OF assms]) simp
  show ?thesis
    using bits [of 4] bits [of 7] high [of 5] high [of 7] sum
    by (simp add: cpu_system_segment_def cpu_segment_def d_def [symmetric] snd low mid t dpl h48 d56 bit_0)
qed

text \<open>
  Every exception reaches the handler with the same frame, whether or not the processor pushed an
  error code, and the handler ends the run with the value of a user failure exactly when the
  exception came from user mode.
\<close>

lemma exception_reported:
  assumes "length (tss_ist t) = 7"
  shows "let stack = (if stub_with_error v then [e] else []) @ [rip, cs, fl, sp, ss];
         f = exception_frame (isr_stub v stack) in
     f = \<lparr> ex_vector = v, ex_error_code = (if stub_with_error v then e else 0), ex_rip = rip, ex_cs = cs, ex_rflags = fl, ex_rsp = sp, ex_ss = ss \<rparr> \<and>
     (\<exists>k. exception_handler t rsp f = Some ((if v < 32 then Some v else None, k),
        if cs mod 4 = 3 then EXIT_VALUE_USER_FAILURE else EXIT_VALUE_KERNEL_FAULT))"
proof -
  have cpl: "cs AND 3 = cs mod 4" using take_bit_eq_mask [of 2 cs] by (simp add: take_bit_eq_mod mask_eq_exp_minus_1)
  have "\<exists>b. on_ist t rsp i = Some b" if "i \<le> 7" for i using assms that by (auto simp: on_ist_def ist_top_def index_def)
  from this [of 1] this [of 2] obtain b c where "on_ist t rsp 1 = Some b" "on_ist t rsp 2 = Some c" by auto
  then obtain k where "current_stack_kind t rsp = Some k"
    by (cases b) (auto simp: current_stack_kind_def rust_consts)
  then show ?thesis
    by (simp add: exception_handler_def exception_frame_def isr_stub_def is_user_fault_def cpl)
qed

lemma idt_install_run:
  assumes idt: "length idt = 256" "\<forall>v < 256. 50 \<le> v \<and> v \<noteq> 64 \<longrightarrow> idt ! v = gate_missing" and sel: "seg_cs s < 2 ^ 16" and stub: "\<forall>v < 256. stub v < 2 ^ 64"
  shows "\<exists>idt'. idt_install stub idt_at idt s = Some (idt', s\<lparr>idtr := (4095, idt_at)\<rparr>) \<and> length idt' = 256 \<and>
    (\<forall>v < 256. 50 \<le> v \<and> v \<noteq> 64 \<longrightarrow> idt' ! v = gate_missing) \<and>
    (\<forall>v < 256. let g = cpu_gate (gate_bytes (idt' ! v)) in
       (cg_present g \<longleftrightarrow> v < 32 \<or> v \<in> {32..<48} \<or> v \<in> {YIELD_VECTOR, EXIT_VECTOR, SYSCALL_VECTOR}) \<and>
       (cg_present g \<longrightarrow> cg_offset g = stub v \<and> cg_selector g = seg_cs s \<and> cg_type g = 14 \<and>
          cg_ist g = (if v = 8 then 1 else if v = 2 then 2 else 0)) \<and>
       (int_allowed g 3 \<longleftrightarrow> v = SYSCALL_VECTOR))"
proof -
  obtain idt' where i: "idt_install stub idt_at idt s = Some (idt', s\<lparr>idtr := (4095, idt_at)\<rparr>)" "length idt' = 256"
    "\<forall>v < 256. idt' ! v = (if v = 64 then with_dpl (stub 64) (seg_cs s) 0 3
       else if v < 50 then with_dpl (stub v) (seg_cs s) (ist_of_vector v) 0 else idt ! v)"
    using idt_install_eq [OF idt(1), of stub idt_at s] by auto
  have ist: "ist_of_vector v < 8" "ist_of_vector v = (if v = 8 then 1 else if v = 2 then 2 else 0)" for v
    by (simp_all add: ist_of_vector_def rust_consts)
  have v: "v < 50 \<longleftrightarrow> v < 32 \<or> v \<in> {32..<48} \<or> v = 48 \<or> v = 49" for v :: nat by auto
  have rest: "\<forall>v < 256. 50 \<le> v \<and> v \<noteq> 64 \<longrightarrow> idt' ! v = gate_missing" using i(3) idt(2) by auto
  have "let g = cpu_gate (gate_bytes (idt' ! v)) in
       (cg_present g \<longleftrightarrow> v < 32 \<or> v \<in> {32..<48} \<or> v \<in> {YIELD_VECTOR, EXIT_VECTOR, SYSCALL_VECTOR}) \<and>
       (cg_present g \<longrightarrow> cg_offset g = stub v \<and> cg_selector g = seg_cs s \<and> cg_type g = 14 \<and>
          cg_ist g = (if v = 8 then 1 else if v = 2 then 2 else 0)) \<and>
       (int_allowed g 3 \<longleftrightarrow> v = SYSCALL_VECTOR)" if lt: "v < 256" for v
  proof (cases "v = 64 \<or> v < 50")
    case True
    then have "idt' ! v = with_dpl (stub v) (seg_cs s) (ist_of_vector v) (if v = 64 then 3 else 0)"
      using i(3) lt by (auto simp: ist_of_vector_def rust_consts)
    then show ?thesis
      using cpu_gate_with_dpl [OF _ sel ist(1), of "stub v" "if v = 64 then 3 else 0" v] stub lt True v ist(2)
      by (auto simp: Let_def int_allowed_def rust_consts)
  next
    case False
    then have "idt' ! v = gate_missing" using rest lt by simp
    then show ?thesis using cpu_gate_missing False by (simp add: Let_def int_allowed_def rust_consts)
  qed
  then show ?thesis using i(1,2) rest by blast
qed

lemma gdt_install_eq:
  assumes "length (tss_ist (gdt_tss g)) = 7"
  shows "gdt_install g s df nmi = Some ((g\<lparr>gdt_tss := (gdt_tss g)\<lparr>tss_ist := (tss_ist (gdt_tss g))[0 := df, 1 := nmi]\<rparr>,
       gdt_entries := [0, code_descriptor, data_descriptor, fst (tss_descriptor (gdt_tss_at g)), snd (tss_descriptor (gdt_tss_at g)),
         user_code_descriptor, user_data_descriptor, 0]\<rparr>, load_tr (load_gdt (63, gdt_at g) s)), Inr ())"
  using assms by (simp add: gdt_install_def gdt_fill_def index_set_def load_gdt_def load_tr_def SIZE_OF_GDT_def split_beta Let_def rust_consts)

section \<open>Properties\<close>

text \<open>
  C30. Installing the interrupt table over an empty one: exactly the 32 exceptions, the 16 interrupt lines
  and the three software vectors have a gate; each leads to its own stub through the current code
  segment as an interrupt gate, the double fault and the non-maskable interrupt on stacks of their
  own; and the system call is the only vector that user mode may raise.
\<close>

theorem idt_install_gates:
  assumes "seg_cs s < 2 ^ 16" "\<forall>v < 256. stub v < 2 ^ 64"
  shows "\<exists>idt. idt_install stub idt_at (replicate 256 gate_missing) s = Some (idt, s\<lparr>idtr := (4095, idt_at)\<rparr>) \<and> length idt = 256 \<and>
    (\<forall>v < 256. let g = cpu_gate (gate_bytes (idt ! v)) in
       (cg_present g \<longleftrightarrow> v < 32 \<or> v \<in> {32..<48} \<or> v \<in> {YIELD_VECTOR, EXIT_VECTOR, SYSCALL_VECTOR}) \<and>
       (cg_present g \<longrightarrow> cg_offset g = stub v \<and> cg_selector g = seg_cs s \<and> cg_type g = 14 \<and>
          cg_ist g = (if v = 8 then 1 else if v = 2 then 2 else 0)) \<and>
       (int_allowed g 3 \<longleftrightarrow> v = SYSCALL_VECTOR))"
  using idt_install_run [of "replicate 256 gate_missing" s stub idt_at] assms by fastforce

definition sample_segments :: Segments where
  "sample_segments = \<lparr> gdtr = (0, 0), idtr = (0, 0), seg_cs = 8, seg_ss = 16, seg_ds = 16, seg_es = 16, seg_fs = 0, seg_gs = 0, seg_tr = 0 \<rparr>"

theorem idt_install_gates_witness:
  "\<exists>idt. idt_install (\<lambda>v. 2097152 + 16 * v) 2301952 (replicate 256 gate_missing) sample_segments =
      Some (idt, sample_segments\<lparr>idtr := (4095, 2301952)\<rparr>) \<and> length idt = 256 \<and>
    int_allowed (cpu_gate (gate_bytes (idt ! 64))) 3 \<and> \<not> int_allowed (cpu_gate (gate_bytes (idt ! 49))) 3"
proof -
  have "seg_cs sample_segments < 2 ^ 16" "\<forall>v < 256. 2097152 + 16 * v < (2 ^ 64 :: nat)" by (simp_all add: sample_segments_def)
  note t = idt_install_gates [OF this, of 2301952]
  show ?thesis
    using t apply (elim exE conjE)
    subgoal premises p for idt
      using p(1,2) p(3) [rule_format, of 64] p(3) [rule_format, of 49] by (intro exI [of _ idt]) (simp add: Let_def rust_consts)
    done
qed



end
