(* ===== verification/Interrupt_Controller.thy ===== *)
theory Interrupt_Controller
  imports Prelude
begin

text \<open>
  The two 8259 interrupt controllers and the 8254 timer of \<^verbatim>\<open>src/crates/kernel/src/pic.rs\<close>, driven by the port
  instructions of \<^verbatim>\<open>src/crates/kernel/src/serial.rs\<close>.

  The devices are not part of the program.  The state records the bytes written so far, oldest first, and
  what a read from a port returns is a parameter: a function of the writes before it.  What the code
  relies on, that the data port reads back the mask written last, is the hypothesis \<open>imr_reads\<close>.
\<close>

unbundle bit_operations_syntax

section \<open>Ports\<close>

record Ports =
  p_out :: "(u16 \<times> u8) list"
  p_in :: "(u16 \<times> u8) list \<Rightarrow> u16 \<Rightarrow> u8"

definition outb :: "u16 \<Rightarrow> u8 \<Rightarrow> Ports \<Rightarrow> Ports" where
  "outb port v s = s\<lparr>p_out := p_out s @ [(port, v)]\<rparr>"

definition inb :: "u16 \<Rightarrow> Ports \<Rightarrow> u8" where
  "inb port s = p_in s (p_out s) port"

section \<open>The controllers and the timer\<close>

definition PIC1 :: u16 where [rust_consts]: "PIC1 = 32"
definition PIC1_DATA :: u16 where [rust_consts]: "PIC1_DATA = 33"
definition PIC2 :: u16 where [rust_consts]: "PIC2 = 160"
definition PIC2_DATA :: u16 where [rust_consts]: "PIC2_DATA = 161"
definition PIC1_OFFSET :: nat where [rust_consts]: "PIC1_OFFSET = 32"
definition PIC2_OFFSET :: nat where [rust_consts]: "PIC2_OFFSET = 40"
definition TIMER_IRQ :: nat where [rust_consts]: "TIMER_IRQ = 0"
definition TIMER_VECTOR :: nat where [rust_consts]: "TIMER_VECTOR = PIC1_OFFSET + TIMER_IRQ"
definition SPURIOUS_IRQ7_VECTOR :: nat where [rust_consts]: "SPURIOUS_IRQ7_VECTOR = PIC1_OFFSET + 7"
definition PIT_FREQUENCY :: u32 where [rust_consts]: "PIT_FREQUENCY = 1193182"
definition TIMER_HZ :: u32 where [rust_consts]: "TIMER_HZ = 100"

definition io_wait :: "Ports \<Rightarrow> Ports" where
  "io_wait s = outb 0x80 0 s"

definition pic_remap :: "Ports \<Rightarrow> Ports" where
  "pic_remap s = (let
     s = io_wait (outb PIC1 0x11 s);
     s = io_wait (outb PIC2 0x11 s);
     s = io_wait (outb PIC1_DATA (word_of_nat PIC1_OFFSET) s);
     s = io_wait (outb PIC2_DATA (word_of_nat PIC2_OFFSET) s);
     s = io_wait (outb PIC1_DATA 0x04 s);
     s = io_wait (outb PIC2_DATA 0x02 s);
     s = io_wait (outb PIC1_DATA 0x01 s);
     s = io_wait (outb PIC2_DATA 0x01 s);
     s = outb PIC1_DATA 0xFF s in
     outb PIC2_DATA 0xFF s)"

text \<open>\<open>1 << bit\<close> on a byte panics when the shift leaves the byte.\<close>

definition shl1 :: "nat \<Rightarrow> u8 panics" where
  "shl1 b = (if b < 8 then Some (push_bit b 1) else None)"

definition port_bit :: "nat \<Rightarrow> u16 \<times> nat" where
  "port_bit irq = (if irq < 8 then (PIC1_DATA, irq) else (PIC2_DATA, irq - 8))"

definition pic_unmask :: "Ports \<Rightarrow> nat \<Rightarrow> Ports panics" where
  "pic_unmask s irq = do {
     let (port, b) = port_bit irq;
     let m = inb port s;
     w \<leftarrow> shl1 b;
     let s = outb port (m AND NOT w) s;
     if irq \<ge> 8 then (let m = inb PIC1_DATA s in Some (outb PIC1_DATA (m AND NOT (push_bit 2 1)) s))
     else Some s
   }"

definition pic_mask :: "Ports \<Rightarrow> nat \<Rightarrow> Ports panics" where
  "pic_mask s irq = do {
     let (port, b) = port_bit irq;
     let v = inb port s;
     w \<leftarrow> shl1 b;
     Some (outb port (v OR w) s)
   }"

definition pic_eoi :: "nat \<Rightarrow> Ports \<Rightarrow> Ports" where
  "pic_eoi irq s = (let s = (if irq \<ge> 8 then outb PIC2 0x20 s else s) in outb PIC1 0x20 s)"

definition master_in_service :: "Ports \<Rightarrow> Ports \<times> u8" where
  "master_in_service s = (let s = outb PIC1 0x0B s in (s, inb PIC1 s))"

definition handle_spurious_irq7 :: "Ports \<Rightarrow> Ports \<times> bool" where
  "handle_spurious_irq7 s = (let
     (s, isr) = master_in_service s;
     spurious = (isr AND 0x80 = 0);
     s = (if \<not> spurious then pic_eoi 7 s else s) in
     (s, spurious))"

definition init_pit :: "Ports \<Rightarrow> u32 \<Rightarrow> (Ports \<times> u16) panics" where
  "init_pit s hz =
     (if PIT_FREQUENCY + hz div 2 > U32_MAX \<or> hz = 0 then None
      else let
        divisor = max 1 (min ((PIT_FREQUENCY + hz div 2) div hz) 65535);
        s = io_wait (outb 0x43 0x36 s);
        s = io_wait (outb 0x40 (word_of_nat (divisor AND 0xFF)) s);
        s = io_wait (outb 0x40 (word_of_nat (drop_bit 8 divisor)) s) in
        Some (s, divisor))"

definition pic_init :: "Ports \<Rightarrow> (Ports \<times> u16) panics" where
  "pic_init s = do {
     let s = pic_remap s;
     (s, divisor) \<leftarrow> init_pit s TIMER_HZ;
     s \<leftarrow> pic_unmask s TIMER_IRQ;
     Some (s, divisor)
   }"

section \<open>The mask registers\<close>

text \<open>The last byte written to a port.\<close>

fun last_write :: "u16 \<Rightarrow> (u16 \<times> u8) list \<Rightarrow> u8 option" where
  "last_write port [] = None"
| "last_write port (w # ws) = (case last_write port ws of Some v \<Rightarrow> Some v | None \<Rightarrow> if fst w = port then Some (snd w) else None)"

text \<open>From now on, a data port reads back the byte written to it last.\<close>

definition imr_reads :: "Ports \<Rightarrow> bool" where
  "imr_reads s \<longleftrightarrow> (\<forall>h v. \<forall>port \<in> {PIC1_DATA, PIC2_DATA}. last_write port (p_out s @ h) = Some v \<longrightarrow> p_in s (p_out s @ h) port = v)"

text \<open>Whether the line is masked; before the first write to the register the answer is \<^term>\<open>None\<close>.\<close>

definition line_masked :: "Ports \<Rightarrow> nat \<Rightarrow> bool option" where
  "line_masked s irq = map_option (\<lambda>v. bit v (snd (port_bit irq))) (last_write (fst (port_bit irq)) (p_out s))"

lemma last_write_append:
  "last_write port (ws @ vs) = (case last_write port vs of Some v \<Rightarrow> Some v | None \<Rightarrow> last_write port ws)"
  by (induction ws) (auto split: option.splits)

lemma p_out_outb [simp]: "p_out (outb port v s) = p_out s @ [(port, v)]" "p_in (outb port v s) = p_in s"
  by (simp_all add: outb_def)

lemma imr_reads_outb [simp]: "imr_reads s \<Longrightarrow> imr_reads (outb port v s)"
  by (auto simp: imr_reads_def)

lemma inb_imr: "imr_reads s \<Longrightarrow> port \<in> {PIC1_DATA, PIC2_DATA} \<Longrightarrow> last_write port (p_out s) = Some v \<Longrightarrow> inb port s = v"
  by (fastforce simp: imr_reads_def inb_def dest: spec [of _ "[]"])

lemma bit_byte: "n < 8 \<Longrightarrow> bit ((v :: u8) AND NOT (2 ^ b)) n \<longleftrightarrow> bit v n \<and> n \<noteq> b" "n < 8 \<Longrightarrow> bit ((v :: u8) OR 2 ^ b) n \<longleftrightarrow> bit v n \<or> n = b"
  by (auto simp: bit_simps)

lemma pic_mask_lines:
  assumes "imr_reads s" "irq < 16" "\<forall>i < 16. line_masked s i \<noteq> None"
  shows "\<exists>s'. pic_mask s irq = Some s' \<and> imr_reads s' \<and> (\<forall>i < 16. line_masked s' i = (if i = irq then Some True else line_masked s i))"
proof -
  let ?p = "fst (port_bit irq)" and ?b = "snd (port_bit irq)"
  obtain v where v: "last_write ?p (p_out s) = Some v" using assms(2,3) by (auto simp: line_masked_def)
  have b: "?b < 8" and p: "?p \<in> {PIC1_DATA, PIC2_DATA}" using assms(2) by (auto simp: port_bit_def)
  have "inb ?p s = v" using inb_imr [OF assms(1) p v] .
  then have "pic_mask s irq = Some (outb ?p (v OR push_bit ?b 1) s)" using b by (simp add: pic_mask_def shl1_def split_beta)
  moreover have "line_masked (outb ?p (v OR push_bit ?b 1) s) i = (if i = irq then Some True else line_masked s i)" if "i < 16" for i
    using that v assms(2) diff_less_mono [of i 16 8]
    by (auto simp: line_masked_def last_write_append port_bit_def bit_byte rust_consts split: if_splits)
  ultimately show ?thesis using assms(1) by auto
qed

lemma write_clears:
  assumes "irq < 16" "i < 16" "last_write (fst (port_bit irq)) (p_out s) = Some v"
  shows "line_masked (outb (fst (port_bit irq)) (v AND NOT (2 ^ snd (port_bit irq))) s) i = (if i = irq then Some False else line_masked s i)"
  using assms diff_less_mono [of i 16 8]
  by (auto simp: line_masked_def last_write_append port_bit_def bit_byte rust_consts split: if_splits)

lemma pic_unmask_lines:
  assumes "imr_reads s" "irq < 16" "\<forall>i < 16. line_masked s i \<noteq> None"
  shows "\<exists>s'. pic_unmask s irq = Some s' \<and> imr_reads s' \<and>
    (\<forall>i < 16. line_masked s' i = (if i = irq \<or> 8 \<le> irq \<and> i = 2 then Some False else line_masked s i))"
proof -
  let ?p = "fst (port_bit irq)" and ?b = "snd (port_bit irq)"
  have data: "fst (port_bit i) \<in> {PIC1_DATA, PIC2_DATA}" for i by (simp add: port_bit_def)
  obtain v where v: "last_write ?p (p_out s) = Some v" using assms(2,3) by (auto simp: line_masked_def)
  have b: "?b < 8" using assms(2) by (auto simp: port_bit_def)
  let ?s = "outb ?p (v AND NOT (2 ^ ?b)) s"
  have s: "imr_reads ?s" "\<forall>i < 16. line_masked ?s i = (if i = irq then Some False else line_masked s i)"
    using assms(1,2) write_clears [OF assms(2) _ v] by auto
  then obtain w where w: "last_write PIC1_DATA (p_out ?s) = Some w"
    using assms(3) by (auto simp: line_masked_def port_bit_def dest!: spec [of _ 2] split: if_splits)
  let ?t = "outb PIC1_DATA (w AND NOT 4) ?s"
  have "inb ?p s = v" "inb PIC1_DATA ?s = w" using inb_imr [OF assms(1) data v] inb_imr [OF s(1) _ w] by auto
  then have run: "pic_unmask s irq = Some (if 8 \<le> irq then ?t else ?s)"
    using b by (simp add: pic_unmask_def shl1_def split_beta Let_def)
  have "line_masked ?t i = (if i = 2 then Some False else line_masked ?s i)" if "i < 16" for i
    using write_clears [of 2 i ?s w] that w by (simp add: port_bit_def)
  then show ?thesis using run s by auto
qed

text \<open>The writes of the initialisation, and the lines it leaves open.\<close>

lemma pic_init_run:
  assumes "imr_reads (pic_remap s)"
  shows "\<exists>s'. pic_init s = Some (s', 11932) \<and> imr_reads s' \<and> p_in s' = p_in s \<and>
      filter (\<lambda>(port, _). port \<noteq> 0x80) (drop (length (p_out s)) (p_out s')) =
        [(PIC1, 0x11), (PIC2, 0x11), (PIC1_DATA, 32), (PIC2_DATA, 40), (PIC1_DATA, 4), (PIC2_DATA, 2), (PIC1_DATA, 1), (PIC2_DATA, 1),
         (PIC1_DATA, 0xFF), (PIC2_DATA, 0xFF), (0x43, 0x36), (0x40, 0x9C), (0x40, 0x2E), (PIC1_DATA, 0xFE)] \<and>
      (\<forall>i < 16. line_masked s' i = Some (i \<noteq> TIMER_IRQ))"
proof -
  let ?r = "pic_remap s"
  let ?pit = "[(0x43, 0x36), (0x80, 0), (0x40, 0x9C), (0x80, 0), (0x40, 0x2E), (0x80, 0)]"
  define t where "t = ?r\<lparr>p_out := p_out ?r @ ?pit\<rparr>"
  have pit: "init_pit ?r TIMER_HZ = Some (t, 11932)"
    by (simp add: init_pit_def io_wait_def outb_def t_def rust_consts drop_bit_eq_div)
  have out: "p_out ?r = p_out s @ [(32, 17), (128, 0), (160, 17), (128, 0), (33, 32), (128, 0), (161, 40), (128, 0), (33, 4), (128, 0), (161, 2),
      (128, 0), (33, 1), (128, 0), (161, 1), (128, 0), (33, 255), (161, 255)]"
    by (simp add: pic_remap_def io_wait_def Let_def rust_consts)
  have t: "imr_reads t" using assms by (auto simp: imr_reads_def t_def)
  have lt: "last_write 33 (p_out t) = Some 255" "last_write 161 (p_out t) = Some 255" by (simp_all add: t_def out last_write_append)
  have "inb PIC1_DATA t = 255" by (rule inb_imr [OF t]) (simp_all add: lt PIC1_DATA_def)
  then have run: "pic_init s = Some (outb PIC1_DATA 0xFE t, 11932)"
    by (simp add: pic_init_def pit pic_unmask_def port_bit_def shl1_def Let_def TIMER_IRQ_def)
  have "line_masked (outb PIC1_DATA 0xFE t) i = Some (i \<noteq> TIMER_IRQ)" if "i < 16" for i
  proof -
    have "bit (254 :: u8) n \<longleftrightarrow> n \<noteq> 0" "bit (255 :: u8) n" if "n < 8" for n
      using that by (auto simp: less_Suc_eq numeral_eq_Suc)
    then show ?thesis
      using that lt by (auto simp: line_masked_def port_bit_def last_write_append rust_consts)
  qed
  moreover have "p_in (outb PIC1_DATA 0xFE t) = p_in s" by (simp add: t_def pic_remap_def io_wait_def Let_def)
  ultimately show ?thesis
    using run t by (intro exI [of _ "outb PIC1_DATA 0xFE t"]) (simp add: t_def out rust_consts)
qed

section \<open>Properties\<close>


text \<open>A device whose data ports read back the last write.\<close>

definition sample_ports :: Ports where
  "sample_ports = \<lparr> p_out = [], p_in = (\<lambda>h port. case last_write port h of Some v \<Rightarrow> v | None \<Rightarrow> 0) \<rparr>"


end
