(* ===== verification/Threads.thy ===== *)
theory Threads
  imports Scheduler Kernel_Allocators Descriptors Interrupt_Controller
begin

text \<open>
  The machine side of threads: \<^verbatim>\<open>src/crates/kernel/src/thread.rs\<close> (the thread table, stacks and initial
  frames), \<^verbatim>\<open>src/crates/kernel/src/sched.rs\<close> (the interrupt handler, switching and reaping), the entry
  and exit code \<open>irq_common\<close> with its frames from \<^verbatim>\<open>src/crates/kernel/src/idt.rs\<close>, and the system call of
  \<^verbatim>\<open>src/crates/kernel/src/user.rs\<close>.

  The state extends the kernel's memory by the scheduler, the thread table, the task state, the live
  floating-point registers, the ports and the statics of the three modules.
\<close>

unbundle bit_operations_syntax

section \<open>Frames\<close>

record IrqFrame =
  f_r15 :: u64
  f_r14 :: u64
  f_r13 :: u64
  f_r12 :: u64
  f_r11 :: u64
  f_r10 :: u64
  f_r9 :: u64
  f_r8 :: u64
  f_rdi :: u64
  f_rsi :: u64
  f_rbp :: u64
  f_rbx :: u64
  f_rdx :: u64
  f_rcx :: u64
  f_rax :: u64
  f_vector :: u64
  f_error_code :: u64
  f_rip :: u64
  f_cs :: u64
  f_rflags :: u64
  f_rsp :: u64
  f_ss :: u64

definition SIZE_OF_IRQ_FRAME :: nat where [rust_consts]: "SIZE_OF_IRQ_FRAME = 22 * 8"

text \<open>The frame as the words it occupies, lowest address first.\<close>

definition frame_words :: "IrqFrame \<Rightarrow> u64 list" where
  "frame_words f = [f_r15 f, f_r14 f, f_r13 f, f_r12 f, f_r11 f, f_r10 f, f_r9 f, f_r8 f, f_rdi f, f_rsi f, f_rbp f, f_rbx f, f_rdx f,
     f_rcx f, f_rax f, f_vector f, f_error_code f, f_rip f, f_cs f, f_rflags f, f_rsp f, f_ss f]"

definition frame_of_words :: "u64 list \<Rightarrow> IrqFrame" where
  "frame_of_words w = \<lparr> f_r15 = w ! 0, f_r14 = w ! 1, f_r13 = w ! 2, f_r12 = w ! 3, f_r11 = w ! 4, f_r10 = w ! 5, f_r9 = w ! 6, f_r8 = w ! 7,
     f_rdi = w ! 8, f_rsi = w ! 9, f_rbp = w ! 10, f_rbx = w ! 11, f_rdx = w ! 12, f_rcx = w ! 13, f_rax = w ! 14, f_vector = w ! 15,
     f_error_code = w ! 16, f_rip = w ! 17, f_cs = w ! 18, f_rflags = w ! 19, f_rsp = w ! 20, f_ss = w ! 21 \<rparr>"

definition frame_zero :: IrqFrame where
  "frame_zero = frame_of_words (replicate 22 0)"

definition words_bytes :: "u64 list \<Rightarrow> bytes" where
  "words_bytes ws = concat (map (to_le_bytes 8) ws)"

definition read_words :: "(nat \<Rightarrow> u8) \<Rightarrow> u64 \<Rightarrow> nat \<Rightarrow> u64 list" where
  "read_words m a n = map (\<lambda>i. from_le_bytes (raw_slice m (a + 8 * i) 8)) [0..<n]"

definition load_frame :: "(nat \<Rightarrow> u8) \<Rightarrow> u64 \<Rightarrow> IrqFrame" where
  "load_frame m a = frame_of_words (read_words m a 22)"

definition store_frame :: "(nat \<Rightarrow> u8) \<Rightarrow> u64 \<Rightarrow> IrqFrame \<Rightarrow> nat \<Rightarrow> u8" where
  "store_frame m a f = raw_store m a (words_bytes (frame_words f))"

definition fx_zeroed :: bytes where
  "fx_zeroed = replicate 512 0"

definition fx_default_state :: bytes where
  "fx_default_state = fx_zeroed[0 := 0x7F, 1 := 0x03, 24 := 0x80, 25 := 0x1F]"

section \<open>The thread table\<close>

definition THREAD_STACK_PAGES :: usize where [rust_consts]: "THREAD_STACK_PAGES = 4"
definition THREAD_STACK_SIZE :: usize where [rust_consts]: "THREAD_STACK_SIZE = THREAD_STACK_PAGES * 4096"
definition STACK_CANARY :: u64 where "STACK_CANARY = 0x506172616E756B02"

record Context =
  ctx_rsp :: u64
  ctx_thread :: u32

record Slot =
  slot_context :: Context
  stack :: "PhysRange option"
  canary_address :: u64
  fx :: bytes
  thread_entry :: u64
  user :: bool
  kernel_stack_top :: u64

definition slot_new :: Slot where
  "slot_new = \<lparr> slot_context = \<lparr> ctx_rsp = 0, ctx_thread = 0 \<rparr>, stack = None, canary_address = 0, fx = fx_zeroed, thread_entry = 0,
     user = False, kernel_stack_top = 0 \<rparr>"

datatype CreateError = NoThreadSlot | NoStack

record Machine =
  m_kernel :: Kernel
  m_sched :: Scheduler
  m_slots :: "Slot list"
  m_canary_failures :: usize
  m_trampoline_at :: u64
  m_tss :: Tss
  m_fpu :: bytes
  m_ports :: Ports
  m_service :: usize
  m_reached_cpl3 :: bool
  m_syscall_cs :: u64
  m_ticks_before :: u64

definition on_kernel :: "(Kernel \<Rightarrow> (Kernel \<times> 'r) panics) \<Rightarrow> Machine \<Rightarrow> (Machine \<times> 'r) panics" where
  "on_kernel f m = do { (k, r) \<leftarrow> f (m_kernel m); Some (m\<lparr>m_kernel := k\<rparr>, r) }"

definition set_mem :: "(nat \<Rightarrow> u8) \<Rightarrow> Machine \<Rightarrow> Machine" where
  "set_mem mem m = m\<lparr>m_kernel := (m_kernel m)\<lparr>k_mem := mem\<rparr>\<rparr>"

definition with_slots :: "(Slot list \<Rightarrow> (Slot list \<times> 'r) panics) \<Rightarrow> Machine \<Rightarrow> (Machine \<times> 'r) panics" where
  "with_slots f m = do {
     ((c, ss), r) \<leftarrow> with_critical f (k_cpu (m_kernel m)) (m_slots m);
     Some (m\<lparr>m_kernel := (m_kernel m)\<lparr>k_cpu := c\<rparr>, m_slots := ss\<rparr>, r)
   }"

definition with_sched :: "(Scheduler \<Rightarrow> (Scheduler \<times> 'r) panics) \<Rightarrow> Machine \<Rightarrow> (Machine \<times> 'r) panics" where
  "with_sched f m = do {
     ((c, s), r) \<leftarrow> with_critical f (k_cpu (m_kernel m)) (m_sched m);
     Some (m\<lparr>m_kernel := (m_kernel m)\<lparr>k_cpu := c\<rparr>, m_sched := s\<rparr>, r)
   }"

definition on_slot :: "usize \<Rightarrow> (Slot \<Rightarrow> Slot) \<Rightarrow> Slot list \<Rightarrow> (Slot list \<times> unit) panics" where
  "on_slot tid f ss = do { s \<leftarrow> index ss tid; ss \<leftarrow> index_set ss tid (f s); Some (ss, ()) }"

section \<open>The scheduler's entry points\<close>

definition init_boot :: "Machine \<Rightarrow> (Machine \<times> (SchedError + unit)) panics" where
  "init_boot = with_sched (\<lambda>s. register_boot s 0)"

definition create_thread :: "Machine \<Rightarrow> (Machine \<times> (SchedError + usize)) panics" where
  "create_thread = with_sched create"

definition exit_thread :: "Machine \<Rightarrow> (Machine \<times> Decision) panics" where
  "exit_thread m = do {
     (m, r) \<leftarrow> with_sched exit_current m;
     Some (m, case r of Inr d \<Rightarrow> d | Inl _ \<Rightarrow> Keep)
   }"

definition register_idle_thread :: "Machine \<Rightarrow> (Machine \<times> (SchedError + usize)) panics" where
  "register_idle_thread = with_sched register_idle_any"

definition thread_state :: "Machine \<Rightarrow> usize \<Rightarrow> (Machine \<times> (SchedError + ThreadState)) panics" where
  "thread_state m tid = with_sched (\<lambda>s. Some (s, state_of s tid)) m"

definition idle_thread :: "Machine \<Rightarrow> (Machine \<times> usize) panics" where
  "idle_thread = with_sched (\<lambda>s. Some (s, idle s))"

definition sched_ticks :: "Machine \<Rightarrow> (Machine \<times> u64) panics" where
  "sched_ticks = with_sched (\<lambda>s. Some (s, stats_ticks (sched_stats s)))"

definition stats_of :: "Machine \<Rightarrow> (Machine \<times> SchedStats) panics" where
  "stats_of = with_sched (\<lambda>s. Some (s, sched_stats s))"

section \<open>Creation\<close>

definition prepare_stack :: "Machine \<Rightarrow> usize \<Rightarrow> u64 \<Rightarrow> PhysRange \<Rightarrow> (Machine \<times> unit) panics" where
  "prepare_stack m tid start g = do {
     debug_assert (range_len g = THREAD_STACK_SIZE);
     let base = range_start g;
     hi \<leftarrow> range_end g;
     let mem = raw_store (k_mem (m_kernel m)) base (to_le_bytes 8 STACK_CANARY);
     frame_address \<leftarrow> usub hi SIZE_OF_IRQ_FRAME;
     lo \<leftarrow> uadd base 8;
     debug_assert (frame_address > lo);
     sp \<leftarrow> usub hi 8;
     let frame = frame_zero\<lparr>f_rdi := start, f_rsi := tid, f_vector := YIELD_VECTOR, f_rip := m_trampoline_at m, f_cs := KERNEL_CODE,
       f_ss := KERNEL_DATA, f_rflags := 0x202, f_rsp := sp\<rparr>;
     let m = set_mem (store_frame mem frame_address frame) m;
     with_slots (on_slot tid (\<lambda>s. s\<lparr>slot_context := \<lparr> ctx_rsp = frame_address, ctx_thread = take_bit 32 tid \<rparr>, stack := Some g,
       canary_address := base, thread_entry := start, fx := fx_default_state, user := False, kernel_stack_top := hi\<rparr>)) m
   }"

definition create_with_id :: "Machine \<Rightarrow> usize \<Rightarrow> u64 \<Rightarrow> (Machine \<times> (CreateError + usize)) panics" where
  "create_with_id m tid start = do {
     (m, g) \<leftarrow> on_kernel (\<lambda>k. alloc_frames k THREAD_STACK_PAGES) m;
     case g of
       None \<Rightarrow> Some (m, Inl NoStack)
     | Some g \<Rightarrow> do {
         debug_assert (tid < MAX_THREADS);
         (m, _) \<leftarrow> prepare_stack m tid start g;
         Some (m, Inr tid)
       }
   }"

definition thread_create :: "Machine \<Rightarrow> u64 \<Rightarrow> (Machine \<times> (CreateError + usize)) panics" where
  "thread_create m start = do {
     (m, r) \<leftarrow> create_thread m;
     case r of Inl _ \<Rightarrow> Some (m, Inl NoThreadSlot) | Inr tid \<Rightarrow> create_with_id m tid start
   }"

definition create_idle :: "Machine \<Rightarrow> u64 \<Rightarrow> (Machine \<times> (CreateError + usize)) panics" where
  "create_idle m start = do {
     (m, r) \<leftarrow> register_idle_thread m;
     case r of Inl _ \<Rightarrow> Some (m, Inl NoThreadSlot) | Inr tid \<Rightarrow> create_with_id m tid start
   }"

definition prepare_user_frame :: "Machine \<Rightarrow> usize \<Rightarrow> u64 \<Rightarrow> u64 \<Rightarrow> PhysRange \<Rightarrow> (Machine \<times> unit) panics" where
  "prepare_user_frame m tid entry_va user_stack_top g = do {
     let base = range_start g;
     hi \<leftarrow> range_end g;
     let mem = raw_store (k_mem (m_kernel m)) base (to_le_bytes 8 STACK_CANARY);
     frame_address \<leftarrow> usub hi SIZE_OF_IRQ_FRAME;
     let frame = frame_zero\<lparr>f_rip := entry_va, f_rsp := user_stack_top, f_cs := (USER_CODE OR 3), f_ss := (USER_DATA OR 3),
       f_rflags := 0x202, f_vector := YIELD_VECTOR\<rparr>;
     let m = set_mem (store_frame mem frame_address frame) m;
     with_slots (on_slot tid (\<lambda>s. s\<lparr>slot_context := \<lparr> ctx_rsp = frame_address, ctx_thread = take_bit 32 tid \<rparr>, stack := Some g,
       canary_address := base, thread_entry := entry_va, fx := fx_default_state, user := True, kernel_stack_top := hi\<rparr>)) m
   }"

definition create_user :: "Machine \<Rightarrow> u64 \<Rightarrow> u64 \<Rightarrow> (Machine \<times> (CreateError + usize)) panics" where
  "create_user m entry_va user_stack_top = do {
     (m, r) \<leftarrow> create_thread m;
     case r of
       Inl _ \<Rightarrow> Some (m, Inl NoThreadSlot)
     | Inr tid \<Rightarrow> do {
         (m, g) \<leftarrow> on_kernel (\<lambda>k. alloc_frames k THREAD_STACK_PAGES) m;
         case g of
           None \<Rightarrow> Some (m, Inl NoStack)
         | Some g \<Rightarrow> do { (m, _) \<leftarrow> prepare_user_frame m tid entry_va user_stack_top g; Some (m, Inr tid) }
       }
   }"

definition is_user :: "Machine \<Rightarrow> usize \<Rightarrow> (Machine \<times> bool) panics" where
  "is_user m tid = with_slots (\<lambda>ss. do { s \<leftarrow> index ss tid; Some (ss, user s) }) m"

definition kernel_stack_top_of :: "Machine \<Rightarrow> usize \<Rightarrow> (Machine \<times> u64) panics" where
  "kernel_stack_top_of m tid = with_slots (\<lambda>ss. do { s \<leftarrow> index ss tid; Some (ss, kernel_stack_top s) }) m"

section \<open>Reaping\<close>

definition canary_ok :: "Machine \<Rightarrow> usize \<Rightarrow> (Machine \<times> bool) panics" where
  "canary_ok m tid = with_slots (\<lambda>ss. do {
     s \<leftarrow> index ss tid;
     let address = canary_address s;
     Some (ss, address = 0 \<or> from_le_bytes (raw_slice (k_mem (m_kernel m)) address 8) = STACK_CANARY)
   }) m"

definition release :: "Machine \<Rightarrow> usize \<Rightarrow> (Machine \<times> unit) panics" where
  "release m tid = do {
     (m, g) \<leftarrow> with_slots (\<lambda>ss. do { s \<leftarrow> index ss tid; ss \<leftarrow> index_set ss tid (s\<lparr>stack := None\<rparr>); Some (ss, stack s) }) m;
     m \<leftarrow> (case g of
         Some g \<Rightarrow> do { (m, _) \<leftarrow> on_kernel (\<lambda>k. free_frames k g) m; Some m }
       | None \<Rightarrow> Some m);
     with_slots (on_slot tid (\<lambda>s. s\<lparr>canary_address := 0, thread_entry := 0, user := False, kernel_stack_top := 0,
       slot_context := (slot_context s)\<lparr>ctx_rsp := 0\<rparr>\<rparr>)) m
   }"

text \<open>The number of exited threads bounds the loop.\<close>

definition exited :: "Machine \<Rightarrow> nat" where
  "exited m = count_list (states (m_sched m)) Exited"

lemma with_critical_Some: "with_critical f c v = Some ((c', v'), r) \<Longrightarrow> f v = Some (v', r)"
  by (auto simp: with_critical_def guarded_run_def critical_acquire_def critical_release_def split_beta bind_eq_Some_conv)

lemma with_slots_sched: "with_slots f m = Some (m', r) \<Longrightarrow> m_sched m' = m_sched m"
  by (auto simp: with_slots_def bind_eq_Some_conv)

lemma on_kernel_sched: "on_kernel f m = Some (m', r) \<Longrightarrow> m_sched m' = m_sched m"
  by (auto simp: on_kernel_def bind_eq_Some_conv)

lemma canary_ok_sched: "canary_ok m tid = Some (m', r) \<Longrightarrow> m_sched m' = m_sched m"
  by (auto simp: canary_ok_def dest: with_slots_sched)

lemma release_sched: "release m tid = Some (m', r) \<Longrightarrow> m_sched m' = m_sched m"
  by (auto simp: release_def bind_eq_Some_conv dest!: with_slots_sched on_kernel_sched split: option.splits)

lemma count_list_update: "i < length xs \<Longrightarrow> xs ! i = x \<Longrightarrow> y \<noteq> x \<Longrightarrow> count_list (xs[i := y]) x < count_list xs x"
  by (induction xs arbitrary: i) (auto split: nat.splits)

lemma take_reapable_less:
  assumes "with_sched take_reapable m = Some (m', Some tid)"
  shows "exited m' < exited m"
  using assms
  by (auto simp: with_sched_def bind_eq_Some_conv take_reapable_def exited_def index_set_def dest!: with_critical_Some position_SomeD
      split: option.splits if_splits intro!: count_list_update)

function reap_exited :: "Machine \<Rightarrow> Machine panics" where
  "reap_exited m = do {
     (m, r) \<leftarrow> with_sched take_reapable m;
     case r of
       None \<Rightarrow> Some m
     | Some tid \<Rightarrow> do {
         (m, ok) \<leftarrow> canary_ok m tid;
         let m = (if ok then m else m\<lparr>m_canary_failures := (m_canary_failures m + 1) mod 2 ^ 64\<rparr>);
         (m, _) \<leftarrow> release m tid;
         reap_exited m
       }
   }"
  by pat_completeness auto

termination
  by (relation "measure exited")
    (auto simp: exited_def dest!: release_sched canary_ok_sched take_reapable_less)

declare reap_exited.simps [simp del]

section \<open>Switching\<close>

definition PREEMPTION_ENABLED :: bool where "PREEMPTION_ENABLED = True"

text \<open>The thread's slot behind the pointers \<open>context_and_fx\<close> returns.\<close>

definition context_and_fx :: "Machine \<Rightarrow> usize \<Rightarrow> Slot panics" where
  "context_and_fx m tid = do { debug_assert (tid < MAX_THREADS); index (m_slots m) tid }"

definition switch_to :: "Machine \<Rightarrow> usize \<Rightarrow> usize \<Rightarrow> u64 \<Rightarrow> (Machine \<times> u64) panics" where
  "switch_to m from to frame = do {
     _ \<leftarrow> context_and_fx m from;
     _ \<leftarrow> context_and_fx m to;
     let m = m\<lparr>m_slots := (m_slots m)[from := (m_slots m ! from)\<lparr>slot_context := (slot_context (m_slots m ! from))\<lparr>ctx_rsp := frame\<rparr>\<rparr>]\<rparr>;
     (m, u) \<leftarrow> is_user m to;
     m \<leftarrow> (if u then do { (m, sp) \<leftarrow> kernel_stack_top_of m to; Some (m\<lparr>m_tss := set_rsp0 (m_tss m) sp\<rparr>) } else Some m);
     let m = m\<lparr>m_slots := (m_slots m)[from := (m_slots m ! from)\<lparr>fx := m_fpu m\<rparr>]\<rparr>;
     let m = m\<lparr>m_fpu := fx (m_slots m ! to)\<rparr>;
     Some (m, ctx_rsp (slot_context (m_slots m ! to)))
   }"

definition on_syscall :: "Machine \<Rightarrow> IrqFrame \<Rightarrow> (Machine \<times> Decision) panics" where
  "on_syscall m f = exit_thread (m\<lparr>m_syscall_cs := f_cs f, m_reached_cpl3 := True\<rparr>)"

definition on_ports :: "(Ports \<Rightarrow> Ports) \<Rightarrow> Machine \<Rightarrow> Machine" where
  "on_ports f m = m\<lparr>m_ports := f (m_ports m)\<rparr>"

definition irq_decision :: "Machine \<Rightarrow> u64 \<Rightarrow> (Machine \<times> Decision) panics" where
  "irq_decision m frame = (let
     f = load_frame (k_mem (m_kernel m)) frame;
     vector = take_bit 8 (f_vector f) in
     if vector = TIMER_VECTOR then do {
       (m, d) \<leftarrow> with_sched (\<lambda>s. on_tick s PREEMPTION_ENABLED) m;
       Some (on_ports (pic_eoi TIMER_IRQ) m, d)
     }
     else if vector = YIELD_VECTOR then with_sched yield_current m
     else if vector = EXIT_VECTOR then exit_thread m
     else if vector = SYSCALL_VECTOR then on_syscall m f
     else if vector = SPURIOUS_IRQ7_VECTOR then Some (on_ports (fst \<circ> handle_spurious_irq7) m, Keep)
     else do {
       let irq = (vector + (256 - PIC1_OFFSET)) mod 256 AND 0x0F;
       p \<leftarrow> pic_mask (m_ports m) irq;
       Some (m\<lparr>m_ports := pic_eoi irq p\<rparr>, Keep)
     })"

definition irq_handler :: "Machine \<Rightarrow> u64 \<Rightarrow> (Machine \<times> u64) panics" where
  "irq_handler m frame = do {
     m \<leftarrow> reap_exited m;
     (m, d) \<leftarrow> irq_decision m frame;
     case d of
       Keep \<Rightarrow> Some (m, 0)
     | Switch from to \<Rightarrow> switch_to m from to frame
   }"

section \<open>Entering and leaving an interrupt\<close>

text \<open>
  The registers a thread runs with, apart from the flags, which are in \<^const>\<open>Cpu.rflags\<close> of the processor:
  the fifteen general registers in the order of the frame, then the others.
\<close>

record Regs =
  gprs :: "u64 list"
  reg_rip :: u64
  reg_cs :: u64
  reg_rsp :: u64
  reg_ss :: u64

text \<open>
  The processor switches to the stack of the task state when it comes from user mode, aligns the stack,
  pushes five words and masks interrupts; the stub pushes a zero and its vector; \<open>irq_common\<close> pushes the
  general registers.
\<close>

definition entry_frame :: "Machine \<Rightarrow> Regs \<Rightarrow> u64 panics" where
  "entry_frame m r = (let sp = (if reg_cs r AND 3 = 3 then tss_rsp0 (m_tss m) else reg_rsp r) in usub (sp - sp mod 16) (22 * 8))"

definition irq_entry :: "Machine \<Rightarrow> Regs \<Rightarrow> nat \<Rightarrow> (Machine \<times> u64) panics" where
  "irq_entry m r v = do {
     a \<leftarrow> entry_frame m r;
     let words = gprs r @ [v, 0, reg_rip r, reg_cs r, rflags (k_cpu (m_kernel m)), reg_rsp r, reg_ss r];
     let k = m_kernel m;
     let k = k\<lparr>k_mem := raw_store (k_mem k) a (words_bytes words), k_cpu := disable_interrupts (k_cpu k)\<rparr>;
     Some (m\<lparr>m_kernel := k\<rparr>, a)
   }"

definition irq_return :: "Machine \<Rightarrow> u64 \<Rightarrow> Machine \<times> Regs" where
  "irq_return m a = (let
     w = read_words (k_mem (m_kernel m)) a 22;
     k = m_kernel m;
     k = k\<lparr>k_cpu := (k_cpu k)\<lparr>rflags := w ! 19\<rparr>\<rparr> in
     (m\<lparr>m_kernel := k\<rparr>, \<lparr> gprs = take 15 w, reg_rip = w ! 17, reg_cs = w ! 18, reg_rsp = w ! 20, reg_ss = w ! 21 \<rparr>))"

definition irq_common :: "Machine \<Rightarrow> Regs \<Rightarrow> nat \<Rightarrow> (Machine \<times> Regs) panics" where
  "irq_common m r v = do {
     (m, a) \<leftarrow> irq_entry m r v;
     (m, rax) \<leftarrow> irq_handler m a;
     Some (irq_return m (if rax = 0 then a else rax))
   }"

section \<open>Yielding and exiting\<close>

definition yield_now :: "Machine \<Rightarrow> Regs \<Rightarrow> (Machine \<times> Regs) panics" where
  "yield_now m r = (if held_count (k_cpu (m_kernel m)) \<noteq> 0 then None else irq_common m r YIELD_VECTOR)"

definition thread_exit :: "Machine \<Rightarrow> Regs \<Rightarrow> (Machine \<times> Regs) panics" where
  "thread_exit m r = (if held_count (k_cpu (m_kernel m)) \<noteq> 0 then None else irq_common m r EXIT_VECTOR)"

section \<open>Access in a critical section\<close>

abbreviation cpu_fine :: "Machine \<Rightarrow> bool" where
  "cpu_fine m \<equiv> cpu_ok (k_cpu (m_kernel m))"

lemma with_slots_eq: "cpu_fine m \<Longrightarrow> with_slots f m = map_option (\<lambda>(ss, r). (m\<lparr>m_slots := ss\<rparr>, r)) (f (m_slots m))"
  by (cases "f (m_slots m)") (auto simp: with_slots_def with_critical_eq)

lemma with_sched_eq: "cpu_fine m \<Longrightarrow> with_sched f m = map_option (\<lambda>(s, r). (m\<lparr>m_sched := s\<rparr>, r)) (f (m_sched m))"
  by (cases "f (m_sched m)") (auto simp: with_sched_def with_critical_eq)

section \<open>Words in memory\<close>

lemma length_words_bytes [simp]: "length (words_bytes ws) = 8 * length ws"
  by (induction ws) (simp_all add: words_bytes_def)

lemma words_bytes_Cons: "words_bytes (w # ws) = to_le_bytes 8 w @ words_bytes ws"
  by (simp add: words_bytes_def)

lemma sub_words_bytes: "i < length ws \<Longrightarrow> sub (words_bytes ws) (8 * i) 8 = to_le_bytes 8 (ws ! i)"
proof (induction ws arbitrary: i)
  case (Cons w ws)
  show ?case
  proof (cases i)
    case 0
    then show ?thesis by (simp add: words_bytes_Cons sub_def del: to_le_bytes.simps)
  next
    case (Suc j)
    then have "sub (words_bytes (w # ws)) (8 * i) 8 = sub (words_bytes ws) (8 * j) 8"
      by (simp add: words_bytes_Cons sub_def del: to_le_bytes.simps)
    then show ?thesis using Cons Suc by simp
  qed
qed simp

lemma raw_slice_store_sub: "p + n \<le> length bs \<Longrightarrow> raw_slice (raw_store m a bs) (a + p) n = sub bs p n"
  by (rule nth_equalityI) (auto simp: raw_slice_def raw_store_def sub_def)

lemma raw_slice_store_apart: "{a ..< a + n} \<inter> {b ..< b + length bs} = {} \<Longrightarrow> raw_slice (raw_store m b bs) a n = raw_slice m a n"
  by (rule nth_equalityI) (auto simp: raw_slice_def raw_store_def disjoint_iff)

lemma length_read_words [simp]: "length (read_words m a n) = n"
  by (simp add: read_words_def)

text \<open>What was stored is read back, and a store elsewhere does not matter.\<close>

lemma read_words_store: "list_all (\<lambda>w. w \<le> U64_MAX) ws \<Longrightarrow> length ws = n \<Longrightarrow> read_words (raw_store m a (words_bytes ws)) a n = ws"
  by (rule nth_equalityI) (auto simp: read_words_def raw_slice_store_sub sub_words_bytes from_to_le_bytes_u64 list_all_length simp del: to_le_bytes.simps)

lemma read_words_apart:
  assumes "{a ..< a + 8 * n} \<inter> {b ..< b + length bs} = {}"
  shows "read_words (raw_store m b bs) a n = read_words m a n"
proof -
  have "raw_slice (raw_store m b bs) (a + 8 * i) 8 = raw_slice m (a + 8 * i) 8" if "i < n" for i
  proof (rule raw_slice_store_apart)
    have "{a + 8 * i ..< a + 8 * i + 8} \<subseteq> {a ..< a + 8 * n}" using that by auto
    then show "{a + 8 * i ..< a + 8 * i + 8} \<inter> {b ..< b + length bs} = {}" using assms by blast
  qed
  then show ?thesis by (simp add: read_words_def)
qed

lemma frame_of_frame_words [simp]: "frame_of_words (frame_words f) = f"
  by (simp add: frame_of_words_def frame_words_def)

lemma length_frame_words [simp]: "length (frame_words f) = 22"
  by (simp add: frame_words_def)

lemma load_store_frame: "list_all (\<lambda>w. w \<le> U64_MAX) (frame_words f) \<Longrightarrow> load_frame (store_frame m a f) a = f"
  by (simp add: load_frame_def store_frame_def read_words_store)

section \<open>The invariant\<close>

text \<open>
  A stack is a run of four frames of the allocator that are in use.  A slot with a stack belongs to a
  thread that exists, a slot without one is unused or the boot context's; a thread that is ready has a
  saved frame, an unused slot has none.
\<close>

definition stack_run :: "FrameAllocator \<Rightarrow> PhysRange \<Rightarrow> nat \<Rightarrow> bool" where
  "stack_run fa g s \<longleftrightarrow> g = \<lparr> range_start = frame_addr fa s, range_len = THREAD_STACK_PAGES * PAGE_SIZE \<rparr> \<and>
     (\<forall>i \<in> {s ..< s + THREAD_STACK_PAGES}. i < fa_frames fa \<and> bm (fa_allocatable fa) i \<and> i \<notin> free_set fa)"

definition range_bytes :: "PhysRange \<Rightarrow> nat set" where
  "range_bytes g = {range_start g ..< range_start g + range_len g}"

definition slot_inv :: "FrameAllocator \<Rightarrow> ThreadState \<Rightarrow> ThreadKind \<Rightarrow> Slot \<Rightarrow> bool" where
  "slot_inv fa st kd s \<longleftrightarrow>
     (case stack s of
        Some g \<Rightarrow> st \<noteq> Unused \<and> (\<exists>r. stack_run fa g r) \<and> canary_address s = range_start g \<and> kernel_stack_top s = range_start g + range_len g
      | None \<Rightarrow> st = Unused \<or> kd = Boot) \<and>
     (st = Ready \<longrightarrow> ctx_rsp (slot_context s) \<noteq> 0) \<and> (st = Unused \<longrightarrow> ctx_rsp (slot_context s) = 0 \<and> \<not> user s)"

definition slots_inv :: "FrameAllocator \<Rightarrow> Scheduler \<Rightarrow> Slot list \<Rightarrow> bool" where
  "slots_inv fa s ss \<longleftrightarrow> length ss = MAX_THREADS \<and> (\<forall>t < MAX_THREADS. slot_inv fa (states s ! t) (kinds s ! t) (ss ! t)) \<and>
     (\<forall>t < MAX_THREADS. \<forall>u < MAX_THREADS. \<forall>g h. t \<noteq> u \<longrightarrow> stack (ss ! t) = Some g \<longrightarrow> stack (ss ! u) = Some h \<longrightarrow>
        range_bytes g \<inter> range_bytes h = {})"

definition threads_inv :: "Machine \<Rightarrow> bool" where
  "threads_inv m \<longleftrightarrow> kernel_idle (m_kernel m) \<and> sched_inv (m_sched m) \<and>
     (\<exists>fa. frames_of (m_kernel m) = Some fa \<and> fa_inv fa \<and> slots_inv fa (m_sched m) (m_slots m))"

lemma threads_inv_cpu: "threads_inv m \<Longrightarrow> cpu_fine m"
  by (simp add: threads_inv_def kernel_idle_def)

lemma stack_run_bytes: "stack_run fa g s \<Longrightarrow> range_bytes g = {frame_addr fa s ..< frame_addr fa (s + THREAD_STACK_PAGES)}"
  by (simp add: stack_run_def range_bytes_def frame_addr_def algebra_simps)

text \<open>Memory of a stack and memory of a free frame do not meet.\<close>

lemma stack_run_free:
  assumes "stack_run fa g s" "{r ..< r + n} \<subseteq> free_set fa"
  shows "range_bytes g \<inter> {frame_addr fa r ..< frame_addr fa (r + n)} = {}"
proof -
  have "max s r \<notin> {s ..< s + THREAD_STACK_PAGES} \<or> max s r \<notin> {r ..< r + n}" using assms unfolding stack_run_def by blast
  then have "s + THREAD_STACK_PAGES \<le> r \<or> r + n \<le> s \<or> n = 0" by (auto simp: THREAD_STACK_PAGES_def max_def split: if_splits)
  then have "frame_addr fa (s + THREAD_STACK_PAGES) \<le> frame_addr fa r \<or> frame_addr fa (r + n) \<le> frame_addr fa s \<or> n = 0"
    by (auto simp: frame_addr_def)
  then show ?thesis unfolding stack_run_bytes [OF assms(1)] by auto
qed

end
