(* ===== verification/Thread_Table.thy ===== *)
theory Thread_Table
  imports Threads
begin

text \<open>
  Creating threads: each new thread gets a stack of its own and a frame from which it can be started, and
  what happens when no stack is left.
\<close>

section \<open>A stack for a new thread\<close>

lemma stack_run_facts:
  assumes "fa_inv fa" "stack_run fa g s"
  shows "range_len g = 16384" "range_start g + 16384 \<le> U64_MAX" "range_start g = frame_addr fa s" "4096 dvd range_start g"
proof -
  have "s + 3 < fa_frames fa" using assms(2) by (auto simp: stack_run_def THREAD_STACK_PAGES_def)
  then have "(fa_first_frame fa + s + 4) * 4096 \<le> (fa_first_frame fa + fa_frames fa) * 4096" by (intro mult_le_mono1) simp
  also have "\<dots> \<le> U64_MAX" using assms(1) by (simp add: fa_inv_def fa_shape_def PAGE_SIZE_def)
  finally show "range_start g + 16384 \<le> U64_MAX" using assms(2) by (simp add: stack_run_def frame_addr_def PAGE_SIZE_def)
  show "range_len g = 16384" "range_start g = frame_addr fa s" "4096 dvd range_start g"
    using assms(2) by (simp_all add: stack_run_def frame_addr_def THREAD_STACK_PAGES_def PAGE_SIZE_def)
qed

lemma alloc_stack:
  assumes "kernel_idle k" "frames_of k = Some fa" "fa_inv fa"
  obtains (none) "alloc_frames k THREAD_STACK_PAGES = Some (k, None)" "\<forall>s. \<not> {s ..< s + 4} \<subseteq> free_set fa"
  | (some) fa' g s where "alloc_frames k THREAD_STACK_PAGES = Some (set_frames (Some fa') k, Some g)" "fa_inv fa'" "fa_frame fa' = fa_frame fa"
      "stack_run fa' g s" "{s ..< s + 4} \<subseteq> free_set fa" "free_set fa' = free_set fa - {s ..< s + 4}"
proof -
  obtain fa' r where a: "alloc_contiguous fa 4 = Some (fa', r)" "fa_inv fa'" "fa_frame fa' = fa_frame fa"
    and spec: "case r of
       None \<Rightarrow> fa' = fa \<and> (\<forall>s. \<not> is_run (free_set fa) 4 s)
     | Some g \<Rightarrow> \<exists>s. first_run (free_set fa) 4 (Some s) \<and> g = \<lparr> range_start = frame_addr fa s, range_len = 4 * PAGE_SIZE \<rparr> \<and>
         free_set fa' = free_set fa - {s..<s + 4}"
    using alloc_contiguous_eq [OF assms(3), of 4] by auto
  have run: "alloc_frames k THREAD_STACK_PAGES = Some (set_frames (Some fa') k, r)"
    using a(1) by (simp add: alloc_frames_eq [OF assms(1,2)] THREAD_STACK_PAGES_def)
  show thesis
  proof (cases r)
    case None
    then show thesis using none run spec assms(2) by (simp add: set_frames_same is_run_def)
  next
    case (Some g)
    then obtain s where s: "is_run (free_set fa) 4 s" "g = \<lparr> range_start = frame_addr fa s, range_len = 4 * PAGE_SIZE \<rparr>"
      "free_set fa' = free_set fa - {s..<s + 4}" using spec by (auto simp: first_run_def)
    note same = fa_frame_simps [OF a(3)]
    have sub: "{s..<s + 4} \<subseteq> free_set fa" using run_subset [OF s(1)] .
    then have "\<forall>i \<in> {s ..< s + 4}. i < fa_frames fa' \<and> bm (fa_allocatable fa') i" unfolding same by (auto simp: free_set_def free_at_def)
    then have "stack_run fa' g s" using s by (auto simp: stack_run_def same THREAD_STACK_PAGES_def)
    then show thesis using some run Some a s sub by blast
  qed
qed

lemma stack_run_mono:
  assumes "stack_run fa g s" "fa_frame fa' = fa_frame fa" "free_set fa' \<subseteq> free_set fa"
  shows "stack_run fa' g s"
  using assms fa_frame_simps [OF assms(2)] by (auto simp: stack_run_def)

lemma slot_inv_mono:
  assumes "slot_inv fa st kd sl" "fa_frame fa' = fa_frame fa" "free_set fa' \<subseteq> free_set fa"
  shows "slot_inv fa' st kd sl"
  using assms(1) stack_run_mono [OF _ assms(2,3)] by (auto simp: slot_inv_def split: option.splits)

text \<open>A thread whose stack was free memory joins the table.\<close>

lemma slots_inv_add:
  assumes inv: "slots_inv fa s ss" and fa': "fa_frame fa' = fa_frame fa" "free_set fa' \<subseteq> free_set fa"
    and run: "stack_run fa' g r" "{r ..< r + 4} \<subseteq> free_set fa"
    and t: "t < MAX_THREADS" "length (states s) = MAX_THREADS" "length (kinds s) = MAX_THREADS"
    and s': "states s' = (states s)[t := Ready]" "kinds s' = (kinds s)[t := kd]"
    and sl: "stack sl = Some g" "canary_address sl = range_start g" "kernel_stack_top sl = range_start g + range_len g" "ctx_rsp (slot_context sl) \<noteq> 0"
  shows "slots_inv fa' s' (ss[t := sl])"
proof -
  have slots: "length ss = MAX_THREADS" "\<And>u. u < MAX_THREADS \<Longrightarrow> slot_inv fa (states s ! u) (kinds s ! u) (ss ! u)"
    and apart: "\<And>u v g h. u < MAX_THREADS \<Longrightarrow> v < MAX_THREADS \<Longrightarrow> u \<noteq> v \<Longrightarrow> stack (ss ! u) = Some g \<Longrightarrow> stack (ss ! v) = Some h \<Longrightarrow> range_bytes g \<inter> range_bytes h = {}"
    using inv unfolding slots_inv_def by blast+
  have new: "range_bytes h \<inter> range_bytes g = {}" if u: "u < MAX_THREADS" "stack (ss ! u) = Some h" for u h
  proof -
    obtain q where "stack_run fa h q" using slots(2) [OF u(1)] u(2) by (auto simp: slot_inv_def)
    then show ?thesis
      using stack_run_free [of fa h q r 4] run stack_run_bytes [OF run(1)] fa_frame_simps(2) [OF fa'(1)] by (simp add: THREAD_STACK_PAGES_def)
  qed
  have "slot_inv fa' (states s' ! u) (kinds s' ! u) (ss[t := sl] ! u)" if "u < MAX_THREADS" for u
  proof (cases "u = t")
    case True
    then show ?thesis using t s' sl slots(1) run(1) by (auto simp: slot_inv_def)
  next
    case False
    then show ?thesis using slot_inv_mono [OF slots(2) [OF that] fa'] s' by simp
  qed
  moreover have "range_bytes a \<inter> range_bytes b = {}"
    if uv: "u < MAX_THREADS" "v < MAX_THREADS" "u \<noteq> v" "stack (ss[t := sl] ! u) = Some a" "stack (ss[t := sl] ! v) = Some b" for u v a b
    using uv apart [of u v a b] new [of u a] new [of v b] sl(1) slots(1) t(1) by (cases "u = t"; cases "v = t") (auto simp: Int_commute)
  ultimately show ?thesis using slots(1) unfolding slots_inv_def by auto
qed

section \<open>The first frame\<close>

text \<open>The machine with a stack set up and entered in the table.\<close>

definition placed :: "Machine \<Rightarrow> usize \<Rightarrow> PhysRange \<Rightarrow> IrqFrame \<Rightarrow> u64 \<Rightarrow> bool \<Rightarrow> Machine" where
  "placed m tid g f start us = (let a = range_start g + range_len g - SIZE_OF_IRQ_FRAME in
     (set_mem (store_frame (raw_store (k_mem (m_kernel m)) (range_start g) (to_le_bytes 8 STACK_CANARY)) a f) m)
       \<lparr>m_slots := (m_slots m)[tid := \<lparr> slot_context = \<lparr> ctx_rsp = a, ctx_thread = take_bit 32 tid \<rparr>, stack = Some g, canary_address = range_start g,
          fx = fx_default_state, thread_entry = start, user = us, kernel_stack_top = range_start g + range_len g \<rparr>]\<rparr>)"

lemma set_mem_simps [simp]:
  "k_cpu (m_kernel (set_mem mem m)) = k_cpu (m_kernel m)" "m_slots (set_mem mem m) = m_slots m" "m_sched (set_mem mem m) = m_sched m"
  "kernel_idle (m_kernel (set_mem mem m)) = kernel_idle (m_kernel m)" "frames_of (m_kernel (set_mem mem m)) = frames_of (m_kernel m)"
  "k_mem (m_kernel (set_mem mem m)) = mem"
  by (simp_all add: set_mem_def kernel_idle_def frames_of_def)

lemma slot_overwrite [simp]:
  "sl\<lparr>slot_context := c, stack := g, canary_address := a, thread_entry := e, fx := x, user := u, kernel_stack_top := k\<rparr> =
    \<lparr> slot_context = c, stack = g, canary_address = a, fx = x, thread_entry = e, user = u, kernel_stack_top = k \<rparr>"
  by (cases sl) simp

lemma prepare_stack_eq:
  assumes "cpu_fine m" "tid < length (m_slots m)" "range_len g = 16384" "range_start g + 16384 \<le> U64_MAX"
  shows "prepare_stack m tid start g = Some (placed m tid g (frame_zero\<lparr>f_rdi := start, f_rsi := tid, f_vector := YIELD_VECTOR, f_rip := m_trampoline_at m,
    f_cs := KERNEL_CODE, f_ss := KERNEL_DATA, f_rflags := 0x202, f_rsp := range_start g + range_len g - 8\<rparr>) start False, ())"
  using assms
  by (simp add: prepare_stack_def placed_def Let_def debug_assert_def range_end_def uadd_def usub_def with_slots_eq on_slot_def index_def
      index_set_def rust_consts)

lemma prepare_user_frame_eq:
  assumes "cpu_fine m" "tid < length (m_slots m)" "range_len g = 16384" "range_start g + 16384 \<le> U64_MAX"
  shows "prepare_user_frame m tid va sp g = Some (placed m tid g (frame_zero\<lparr>f_rip := va, f_rsp := sp, f_cs := (USER_CODE OR 3),
    f_ss := (USER_DATA OR 3), f_rflags := 0x202, f_vector := YIELD_VECTOR\<rparr>) va True, ())"
  using assms
  by (simp add: prepare_user_frame_def placed_def Let_def range_end_def uadd_def usub_def with_slots_eq on_slot_def index_def
      index_set_def rust_consts)

lemma placed_simps [simp]:
  "m_sched (placed m tid g f start us) = m_sched m" "kernel_idle (m_kernel (placed m tid g f start us)) = kernel_idle (m_kernel m)"
  "frames_of (m_kernel (placed m tid g f start us)) = frames_of (m_kernel m)" "cpu_fine (placed m tid g f start us) = cpu_fine m"
  by (simp_all add: placed_def Let_def set_mem_def kernel_idle_def frames_of_def)

lemma placed_slots:
  "m_slots (placed m tid g f start us) = (m_slots m)[tid := \<lparr> slot_context = \<lparr> ctx_rsp = range_start g + range_len g - SIZE_OF_IRQ_FRAME,
     ctx_thread = take_bit 32 tid \<rparr>, stack = Some g, canary_address = range_start g, fx = fx_default_state, thread_entry = start, user = us,
     kernel_stack_top = range_start g + range_len g \<rparr>]"
  by (simp add: placed_def Let_def)

lemma placed_memory:
  assumes "range_len g = 16384" "x \<notin> range_bytes g"
  shows "k_mem (m_kernel (placed m tid g f start us)) x = k_mem (m_kernel m) x"
  using assms by (auto simp: placed_def Let_def store_frame_def raw_store_def range_bytes_def SIZE_OF_IRQ_FRAME_def)

lemma placed_frame:
  assumes "range_len g = 16384" "tid < length (m_slots m)" "list_all (\<lambda>w. w \<le> U64_MAX) (frame_words f)"
  shows "load_frame (k_mem (m_kernel (placed m tid g f start us))) (ctx_rsp (slot_context (m_slots (placed m tid g f start us) ! tid))) = f"
  using assms by (simp add: placed_def Let_def load_store_frame)

lemma placed_canary:
  assumes "range_len g = 16384" "tid < length (m_slots m)" "cpu_fine m"
  shows "canary_ok (placed m tid g f start us) tid = Some (placed m tid g f start us, True)"
proof -
  let ?m = "placed m tid g f start us"
  have "raw_slice (k_mem (m_kernel ?m)) (range_start g) 8 = to_le_bytes 8 STACK_CANARY"
    using assms(1) by (simp add: placed_def Let_def store_frame_def raw_slice_store_apart SIZE_OF_IRQ_FRAME_def raw_slice_store del: to_le_bytes.simps)
  then have "from_le_bytes (raw_slice (k_mem (m_kernel ?m)) (range_start g) 8) = STACK_CANARY"
    by (simp add: from_to_le_bytes_u64 STACK_CANARY_def U64_MAX_def del: to_le_bytes.simps)
  moreover have "canary_address (m_slots ?m ! tid) = range_start g" "tid < length (m_slots ?m)" using assms(2) by (simp_all add: placed_def Let_def)
  ultimately show ?thesis using assms(3) by (simp add: canary_ok_def with_slots_eq index_def)
qed

text \<open>
  A thread joins: its slot was unused, it is ready on a stack whose lowest word is the canary, and nothing
  else changes, neither another slot nor memory outside its stack.
\<close>

definition joins :: "Machine \<Rightarrow> Machine \<Rightarrow> usize \<Rightarrow> PhysRange \<Rightarrow> bool" where
  "joins m m' tid g \<longleftrightarrow> threads_inv m' \<and> tid < MAX_THREADS \<and> states (m_sched m) ! tid = Unused \<and> states (m_sched m') ! tid = Ready \<and>
     stack (m_slots m' ! tid) = Some g \<and> canary_ok m' tid = Some (m', True) \<and>
     (\<forall>u < MAX_THREADS. u \<noteq> tid \<longrightarrow> m_slots m' ! u = m_slots m ! u \<and> states (m_sched m') ! u = states (m_sched m) ! u) \<and>
     (\<forall>x. x \<notin> range_bytes g \<longrightarrow> k_mem (m_kernel m') x = k_mem (m_kernel m) x)"

text \<open>The frame a thread starts from.\<close>

definition saved_frame :: "Machine \<Rightarrow> usize \<Rightarrow> IrqFrame" where
  "saved_frame m tid = load_frame (k_mem (m_kernel m)) (ctx_rsp (slot_context (m_slots m ! tid)))"

lemma stack_step:
  assumes inv: "threads_inv m" and t: "tid < MAX_THREADS" "states (m_sched m) ! tid = Unused"
    and s': "sched_inv s'" "states s' = (states (m_sched m))[tid := Ready]" "kinds s' = (kinds (m_sched m))[tid := kd]"
  obtains (none) fa where "frames_of (m_kernel m) = Some fa" "\<forall>s. \<not> {s ..< s + 4} \<subseteq> free_set fa"
      "on_kernel (\<lambda>k. alloc_frames k THREAD_STACK_PAGES) (m\<lparr>m_sched := s'\<rparr>) = Some (m\<lparr>m_sched := s'\<rparr>, None)"
  | (some) m2 g fa r fa' where "on_kernel (\<lambda>k. alloc_frames k THREAD_STACK_PAGES) (m\<lparr>m_sched := s'\<rparr>) = Some (m2, Some g)" "cpu_fine m2"
      "tid < length (m_slots m2)" "m_trampoline_at m2 = m_trampoline_at m" "range_len g = 16384" "range_start g + 16384 \<le> U64_MAX" "4096 dvd range_start g"
      "\<And>f start us. joins m (placed m2 tid g f start us) tid g" "m_sched m2 = s'"
      "frames_of (m_kernel m) = Some fa" "{r ..< r + 4} \<subseteq> free_set fa" "range_start g = frame_addr fa r"
      "m2 = m\<lparr>m_sched := s', m_kernel := set_frames (Some fa') (m_kernel m)\<rparr>"
proof -
  let ?s = "m_sched m"
  obtain fa where k: "kernel_idle (m_kernel m)" "sched_inv ?s" "frames_of (m_kernel m) = Some fa" "fa_inv fa" "slots_inv fa ?s (m_slots m)"
    using inv by (auto simp: threads_inv_def)
  have len: "length (m_slots m) = MAX_THREADS" "length (states ?s) = MAX_THREADS" "length (kinds ?s) = MAX_THREADS"
    using k(2,5) sched_inv_lengths [OF k(2)] by (auto simp: slots_inv_def)
  from k(1,3,4) show thesis
  proof (cases rule: alloc_stack)
    case none
    then show thesis using that(1) k(3) by (simp add: on_kernel_def)
  next
    case (some fa' g r)
    let ?m = "m\<lparr>m_sched := s', m_kernel := set_frames (Some fa') (m_kernel m)\<rparr>"
    note g = stack_run_facts [OF some(2,4)]
    have same: "m_slots ?m = m_slots m" by simp
    have "joins m (placed ?m tid g f start us) tid g" for f start us
    proof -
      have "slots_inv fa' s' (m_slots (placed ?m tid g f start us))"
        unfolding placed_slots same
        using some(6) by (intro slots_inv_add [OF k(5) some(3) _ some(4,5) t(1) len(2,3) s'(2,3)]) (auto simp: g(1) SIZE_OF_IRQ_FRAME_def)
      then have "threads_inv (placed ?m tid g f start us)" using k(1) s'(1) some(2) by (auto simp: threads_inv_def)
      moreover have "canary_ok (placed ?m tid g f start us) tid = Some (placed ?m tid g f start us, True)"
        using placed_canary [of g tid ?m] g(1) t(1) len(1) k(1) by (simp add: kernel_idle_def set_frames_def)
      ultimately show ?thesis
        using t s'(2) len placed_memory [OF g(1), of _ ?m] by (auto simp: joins_def placed_def Let_def)
    qed
    moreover have "cpu_fine ?m" using k(1) by (simp add: kernel_idle_def set_frames_def)
    ultimately show thesis
      using that(2) [of ?m g fa r fa'] some(1,5) g t(1) len(1) k(3) fa_frame_simps(2) [OF some(3)] by (simp add: on_kernel_def)
  qed
qed

section \<open>Properties\<close>

lemma created_joins:
  assumes "threads_inv m" "start \<le> U64_MAX" "m_trampoline_at m \<le> U64_MAX" "sp \<le> U64_MAX"
    and "position (\<lambda>st. st = Unused) (states (m_sched m)) = Some tid" "frames_of (m_kernel m) = Some fa" "{s ..< s + 4} \<subseteq> free_set fa"
  shows "(\<exists>m' g. thread_create m start = Some (m', Inr tid) \<and> joins m m' tid g \<and> ready_queue (m_sched m') = ready_queue (m_sched m) @ [tid] \<and>
      (let f = saved_frame m' tid in f_rip f = m_trampoline_at m \<and> f_rdi f = start \<and> f_rsi f = tid \<and> f_cs f = KERNEL_CODE \<and> f_ss f = KERNEL_DATA \<and>
         bit (f_rflags f) 9 \<and> f_rsp f mod 16 = 8 \<and> f_rsp f \<in> range_bytes g)) \<and>
    (\<exists>m' g. create_user m start sp = Some (m', Inr tid) \<and> joins m m' tid g \<and> ready_queue (m_sched m') = ready_queue (m_sched m) @ [tid] \<and>
      user (m_slots m' ! tid) \<and>
      (let f = saved_frame m' tid in f_rip f = start \<and> f_rsp f = sp \<and> f_cs f = USER_CODE + 3 \<and> f_ss f = USER_DATA + 3 \<and> bit (f_rflags f) 9) \<and>
      k_arena (m_kernel m') = k_arena (m_kernel m) \<and> k_arena_at (m_kernel m') = k_arena_at (m_kernel m) \<and> m_ticks_before m' = m_ticks_before m \<and>
      range_len g = 16384 \<and> (\<exists>q. {q ..< q + 4} \<subseteq> free_set fa \<and> range_start g = frame_addr fa q))"
proof -
  let ?s = "m_sched m"
  have inv: "sched_inv ?s" using assms(1) by (simp add: threads_inv_def)
  have t: "tid < MAX_THREADS" "states ?s ! tid = Unused" using assms(5) sched_inv_lengths [OF inv] by (simp_all add: position_Some_iff)
  obtain s' where s': "create ?s = Some (s', Inr tid)" "sched_inv s'" "ready_queue s' = ready_queue ?s @ [tid]"
    "states s' = (states ?s)[tid := Ready]" "kinds s' = (kinds ?s)[tid := Normal]"
    using create_refines [OF inv] assms(5) by (auto simp: sched_rest_def)
  have ct: "create_thread m = Some (m\<lparr>m_sched := s'\<rparr>, Inr tid)"
    using s'(1) threads_inv_cpu [OF assms(1)] by (simp add: create_thread_def with_sched_eq)
  from assms(1) t s'(2,4,5) show ?thesis
  proof (cases rule: stack_step)
    case (none fa')
    then show ?thesis using assms(6,7) by auto
  next
    case (some m2 g fb q fc)
    let ?top = "range_start g + range_len g"
    let ?f = "frame_zero\<lparr>f_rdi := start, f_rsi := tid, f_vector := YIELD_VECTOR, f_rip := m_trampoline_at m2,
      f_cs := KERNEL_CODE, f_ss := KERNEL_DATA, f_rflags := 0x202, f_rsp := ?top - 8\<rparr>"
    let ?u = "frame_zero\<lparr>f_rip := start, f_rsp := sp, f_cs := (USER_CODE OR 3), f_ss := (USER_DATA OR 3), f_rflags := 0x202, f_vector := YIELD_VECTOR\<rparr>"
    have run: "thread_create m start = Some (placed m2 tid g ?f start False, Inr tid)" "create_user m start sp = Some (placed m2 tid g ?u start True, Inr tid)"
      using some t(1) by (simp_all add: thread_create_def create_user_def create_with_id_def ct debug_assert_def prepare_stack_eq prepare_user_frame_eq)
    have fits: "list_all (\<lambda>w. w \<le> U64_MAX) (frame_words ?f)" "list_all (\<lambda>w. w \<le> U64_MAX) (frame_words ?u)"
      using assms(2-4) t(1) some(4-6) by (simp_all add: frame_words_def frame_zero_def frame_of_words_def rust_consts)
    have saved: "saved_frame (placed m2 tid g ?f start False) tid = ?f" "saved_frame (placed m2 tid g ?u start True) tid = ?u"
      unfolding saved_frame_def by (rule placed_frame [OF some(5,3)] fits)+
    obtain k where "range_start g = 4096 * k" using some(7) by (elim dvdE)
    then have "?top - 8 = 8 + 16 * (1023 + 256 * k)" using some(5) by simp
    then have sp: "(?top - 8) mod 16 = 8" "?top - 8 \<in> range_bytes g" using some(5) by (simp_all only: mod_mult_self2, simp_all add: range_bytes_def)
    have c: "bit (514 :: nat) 9" "USER_CODE OR 3 = USER_CODE + 3" "USER_DATA OR 3 = USER_DATA + 3" by (simp_all add: rust_consts bit_iff_odd)
    have us: "user (m_slots (placed m2 tid g ?u start True) ! tid)" using some(3) by (simp add: placed_slots)
    have place: "\<exists>q. {q ..< q + 4} \<subseteq> free_set fa \<and> range_start g = frame_addr fa q" using some(10-12) assms(6) by auto
    have rest: "k_arena (m_kernel (placed m2 tid g f start us)) = k_arena (m_kernel m)" "k_arena_at (m_kernel (placed m2 tid g f start us)) = k_arena_at (m_kernel m)"
      "m_ticks_before (placed m2 tid g f start us) = m_ticks_before m" for f start us
      by (simp_all add: some(13) placed_def Let_def set_mem_def set_frames_def)
    show ?thesis
      by (intro conjI exI [of _ "placed m2 tid g ?f start False"] exI [of _ "placed m2 tid g ?u start True"] exI [of _ g] run some(8) us rest some(5) place;
        simp only: saved Let_def placed_simps some(9) s'(3); simp add: c sp some(4) del: bit_numeral_simps)
  qed
qed

text \<open>
  C33. Creating a kernel or a user thread with a free slot and a free stack: the thread joins the
  table in the lowest unused slot and at the end of the ready queue, on memory that no other thread uses,
  and its first frame starts it as asked with interrupts on.  A kernel thread starts in the trampoline
  with its entry point and number as arguments on an aligned stack, a user thread at its entry
  point and stack with user selectors.
\<close>

theorem created_thread_joins:
  assumes "threads_inv m" "start \<le> U64_MAX" "m_trampoline_at m \<le> U64_MAX" "sp \<le> U64_MAX"
    and "position (\<lambda>st. st = Unused) (states (m_sched m)) = Some tid" "frames_of (m_kernel m) = Some fa" "{s ..< s + 4} \<subseteq> free_set fa"
  shows "(\<exists>m' g. thread_create m start = Some (m', Inr tid) \<and> joins m m' tid g \<and> ready_queue (m_sched m') = ready_queue (m_sched m) @ [tid] \<and>
      (let f = saved_frame m' tid in f_rip f = m_trampoline_at m \<and> f_rdi f = start \<and> f_rsi f = tid \<and> f_cs f = KERNEL_CODE \<and> f_ss f = KERNEL_DATA \<and>
         bit (f_rflags f) 9 \<and> f_rsp f mod 16 = 8 \<and> f_rsp f \<in> range_bytes g)) \<and>
    (\<exists>m' g. create_user m start sp = Some (m', Inr tid) \<and> joins m m' tid g \<and> ready_queue (m_sched m') = ready_queue (m_sched m) @ [tid] \<and>
      user (m_slots m' ! tid) \<and>
      (let f = saved_frame m' tid in f_rip f = start \<and> f_rsp f = sp \<and> f_cs f = USER_CODE + 3 \<and> f_ss f = USER_DATA + 3 \<and> bit (f_rflags f) 9))"
  using created_joins [OF assms] by blast

text \<open>The boot context alone, with the allocator of a small machine.\<close>

definition boot_sched :: Scheduler where
  "boot_sched = fst (the (register_boot sched_new 0))"

definition sample_machine :: Machine where
  "sample_machine = \<lparr> m_kernel = sample_kernel\<lparr>k_frames := spin_lock_new (Some sample_fa)\<rparr>, m_sched = boot_sched, m_slots = replicate 16 slot_new,
     m_canary_failures = 0, m_trampoline_at = 2162688, m_tss = tss_new, m_fpu = fx_zeroed, m_ports = sample_ports, m_service = USIZE_MAX,
     m_reached_cpl3 = False, m_syscall_cs = 0, m_ticks_before = 0 \<rparr>"

lemma boot_sched: "sched_inv boot_sched" "states boot_sched = Running # replicate 15 Unused" "kinds boot_sched ! 0 = Boot" "current boot_sched = 0"
  "ready_queue boot_sched = []" "switches boot_sched = 0" "ticks boot_sched = 0"
proof -
  have r: "replicate 16 x = x # replicate 15 x" for x :: 'a by (simp add: numeral_eq_Suc)
  have "current sched_new = NO_THREAD" "states sched_new ! 0 = Unused" "ready_queue sched_new = []"
    by (simp_all add: sched_new_def MAX_THREADS_def ready_queue_def)
  then obtain s where s: "register_boot sched_new 0 = Some (s, Inr ())" "sched_inv s"
    using register_boot_inv [OF sched_inv_new, of 0] by (auto simp: MAX_THREADS_def)
  then show "sched_inv boot_sched" by (simp add: boot_sched_def)
  show "states boot_sched = Running # replicate 15 Unused" "kinds boot_sched ! 0 = Boot" "current boot_sched = 0" "ready_queue boot_sched = []"
    "switches boot_sched = 0" "ticks boot_sched = 0"
    by (simp_all add: boot_sched_def register_boot_def sched_new_def index_set_def ready_queue_def MAX_THREADS_def r)
qed

lemma boot_machine_inv:
  assumes "fa_inv fa"
  shows "threads_inv (sample_machine\<lparr>m_kernel := sample_kernel\<lparr>k_frames := spin_lock_new (Some fa)\<rparr>\<rparr>)"
proof -
  have "slot_inv fa (states boot_sched ! t) (kinds boot_sched ! t) slot_new" if "t < 16" for t
    using that boot_sched(2,3) by (cases t) (auto simp: slot_inv_def slot_new_def)
  then have "slots_inv fa boot_sched (replicate 16 slot_new)"
    by (auto simp: slots_inv_def MAX_THREADS_def) (auto simp: slot_new_def)
  then show ?thesis
    using boot_sched(1) assms sample_idle(1)
    by (simp add: threads_inv_def sample_machine_def kernel_idle_def frames_of_def spin_lock_new_def)
qed

lemma sample_machine_inv: "threads_inv sample_machine"
  using boot_machine_inv [OF sample_fa_inv] by (simp add: sample_machine_def)

lemma sample_free: "{2 ..< 2 + 4} \<subseteq> free_set sample_fa" "card (free_set sample_fa) = 7"
proof -
  have "list_all (\<lambda>i. i < fa_frames sample_fa \<and> free_at sample_fa i) [2 ..< 2 + 4]" by code_simp
  then show "{2 ..< 2 + 4} \<subseteq> free_set sample_fa" by (auto simp: list_all_iff free_set_def simp del: upt_rec_numeral)
  have "fa_free_frames sample_fa = 7" by code_simp
  then show "card (free_set sample_fa) = 7" using sample_fa_inv by (simp add: fa_inv_def)
qed

theorem created_thread_joins_witness:
  "\<exists>m g. thread_create sample_machine 2170880 = Some (m, Inr 1) \<and> joins sample_machine m 1 g \<and> f_rdi (saved_frame m 1) = 2170880"
proof -
  have p: "position (\<lambda>st. st = Unused) (states (m_sched sample_machine)) = Some 1"
    by (simp add: sample_machine_def boot_sched(2) position_Some_iff)
  have "frames_of (m_kernel sample_machine) = Some sample_fa" "m_trampoline_at sample_machine \<le> U64_MAX"
    by (simp_all add: sample_machine_def frames_of_def spin_lock_new_def U64_MAX_def)
  then show ?thesis
    using created_thread_joins [OF sample_machine_inv _ _ _ p _ sample_free(1), of 2170880 0] by (auto simp: U64_MAX_def Let_def)
qed

text \<open>
  C34. When no four consecutive frames are free, creating a thread fails, but the thread stays in the
  scheduler: it is ready and in the queue, without a stack or a saved frame.  The scheduler will
  choose it, and the switch then returns zero, which the interrupt exit takes for \<open>no switch\<close>: the
  old thread goes on running while the scheduler believes the new one does.
\<close>

theorem create_without_stack:
  assumes "threads_inv m" "position (\<lambda>st. st = Unused) (states (m_sched m)) = Some tid"
    and "frames_of (m_kernel m) = Some fa" "\<forall>s. \<not> {s ..< s + 4} \<subseteq> free_set fa"
  shows "\<exists>m'. thread_create m start = Some (m', Inl NoStack) \<and> create_user m va sp = Some (m', Inl NoStack) \<and>
    ready_queue (m_sched m') = ready_queue (m_sched m) @ [tid] \<and> stack (m_slots m' ! tid) = None \<and> \<not> threads_inv m' \<and>
    (\<forall>old < MAX_THREADS. \<forall>frame. old \<noteq> tid \<longrightarrow> (\<exists>m''. switch_to m' old tid frame = Some (m'', 0)))"
proof -
  let ?s = "m_sched m"
  have inv: "sched_inv ?s" and slots: "slots_inv fa ?s (m_slots m)" and k: "kernel_idle (m_kernel m)" "fa_inv fa"
    using assms(1,3) by (auto simp: threads_inv_def)
  have t: "tid < MAX_THREADS" "states ?s ! tid = Unused" using assms(2) sched_inv_lengths [OF inv] by (simp_all add: position_Some_iff)
  obtain s' where s': "create ?s = Some (s', Inr tid)" "sched_inv s'" "ready_queue s' = ready_queue ?s @ [tid]"
    "states s' = (states ?s)[tid := Ready]" "kinds s' = (kinds ?s)[tid := Normal]"
    using create_refines [OF inv] assms(2) by (auto simp: sched_rest_def)
  let ?m = "m\<lparr>m_sched := s'\<rparr>"
  have cpu: "cpu_fine ?m" using threads_inv_cpu [OF assms(1)] by simp
  have ct: "create_thread m = Some (?m, Inr tid)"
    using s'(1) threads_inv_cpu [OF assms(1)] by (simp add: create_thread_def with_sched_eq)
  have sl: "length (m_slots m) = MAX_THREADS" "stack (m_slots m ! tid) = None" "ctx_rsp (slot_context (m_slots m ! tid)) = 0" "\<not> user (m_slots m ! tid)"
    using slots t by (auto simp: slots_inv_def slot_inv_def split: option.splits)
  have "\<not> slots_inv fb s' (m_slots m)" for fb
    using t sl s'(4,5) sched_inv_lengths [OF inv] by (auto simp: slots_inv_def slot_inv_def intro!: exI [of _ tid])
  then have "\<not> threads_inv ?m" by (simp add: threads_inv_def)
  moreover have "\<exists>m''. switch_to ?m old tid frame = Some (m'', 0)" if "old < MAX_THREADS" "old \<noteq> tid" for old frame
    using that t sl cpu by (simp add: switch_to_def context_and_fx_def debug_assert_def index_def is_user_def with_slots_eq)
  moreover have "on_kernel (\<lambda>k. alloc_frames k THREAD_STACK_PAGES) ?m = Some (?m, None)"
    using k(1) assms(3) k(2)
  proof (cases rule: alloc_stack)
    case none
    then show ?thesis by (simp add: on_kernel_def)
  next
    case (some fa' g s)
    then show ?thesis using assms(4) by blast
  qed
  ultimately show ?thesis
    using s'(3) sl(2) by (intro exI [of _ ?m]) (simp add: thread_create_def create_user_def create_with_id_def ct)
qed

text \<open>The small machine with every frame in use.\<close>

definition full_fa :: FrameAllocator where
  "full_fa = sample_fa\<lparr>fa_used := [255], fa_free_frames := 0\<rparr>"

lemma full_fa: "fa_inv full_fa" "free_set full_fa = {}"
proof -
  have "list_all (\<lambda>i. \<not> free_at full_fa i) [0..<8]" by code_simp
  then show "free_set full_fa = {}" by (auto simp: free_set_def list_all_iff full_fa_def sample_fa_def simp del: upt_rec_numeral)
  moreover have "fa_frame full_fa = fa_frame sample_fa" "fa_free_frames full_fa = 0" by (simp_all add: full_fa_def fa_frame_def sample_fa_def)
  ultimately show "fa_inv full_fa" using fa_invI [OF sample_fa_inv, of full_fa] by simp
qed

theorem create_without_stack_witness:
  "\<exists>m m' m''. thread_create m 2170880 = Some (m', Inl NoStack) \<and> 1 \<in> set (ready_queue (m_sched m')) \<and> switch_to m' 0 1 3211000 = Some (m'', 0)"
proof -
  let ?m = "sample_machine\<lparr>m_kernel := sample_kernel\<lparr>k_frames := spin_lock_new (Some full_fa)\<rparr>\<rparr>"
  have "position (\<lambda>st. st = Unused) (states (m_sched ?m)) = Some 1" by (simp add: sample_machine_def boot_sched(2) position_Some_iff)
  moreover have "frames_of (m_kernel ?m) = Some full_fa" by (simp add: frames_of_def spin_lock_new_def)
  ultimately obtain m' where m': "thread_create ?m 2170880 = Some (m', Inl NoStack)" "ready_queue (m_sched m') = ready_queue (m_sched ?m) @ [1]"
    "\<forall>old < MAX_THREADS. \<forall>frame. old \<noteq> 1 \<longrightarrow> (\<exists>m''. switch_to m' old 1 frame = Some (m'', 0))"
    using create_without_stack [OF boot_machine_inv [OF full_fa(1)], of 1 full_fa 2170880 0 0] full_fa(2) by auto
  obtain m'' where "switch_to m' 0 1 3211000 = Some (m'', 0)" using m'(3) [rule_format, of 0] by (auto simp: MAX_THREADS_def)
  moreover have "1 \<in> set (ready_queue (m_sched m'))" by (simp add: m'(2))
  ultimately show ?thesis using m'(1) by blast
qed

end
