(* ===== verification/Thread_Switch.thy ===== *)
theory Thread_Switch
  imports Thread_Table
begin

text \<open>
  Reaping and switching: what the interrupt handler does to the thread table, the frame allocator and the
  registers of the threads involved.
\<close>

section \<open>Releasing a stack\<close>

lemma free_loop_run:
  assumes "fa_inv fa" "a \<le> b" "\<forall>i \<in> {a ..< b}. i < fa_frames fa \<and> bm (fa_allocatable fa) i \<and> i \<notin> free_set fa"
  shows "\<exists>fa'. free_loop fa (frame_addr fa a) (frame_addr fa b) = Some (fa', Inr ()) \<and> fa_inv fa' \<and> fa_frame fa' = fa_frame fa \<and>
    free_set fa' = free_set fa \<union> {a ..< b}"
  using assms
proof (induction "b - a" arbitrary: fa a)
  case 0
  then show ?case by (subst free_loop.simps) auto
next
  case (Suc n)
  then have ab: "a < b" "n = b - Suc a" by simp_all
  then obtain fa1 where f: "frame_free fa \<lparr> frame_address = frame_addr fa a \<rparr> = Some (fa1, Inr ())" "fa_inv fa1" "fa_frame fa1 = fa_frame fa"
    "free_set fa1 = insert a (free_set fa)"
    using frame_free_used [OF Suc.prems(1), of a] Suc.prems(3) by auto
  note same = fa_frame_simps [OF f(3)]
  have "(fa_first_frame fa + Suc a) * PAGE_SIZE \<le> (fa_first_frame fa + fa_frames fa) * PAGE_SIZE" using Suc.prems(3) ab by (intro mult_le_mono1) (simp add: Suc_le_eq)
  also have "\<dots> \<le> U64_MAX" using Suc.prems(1) by (simp add: fa_inv_def fa_shape_def)
  finally have u: "uadd (frame_addr fa a) PAGE_SIZE = Some (frame_addr fa (Suc a))" by (simp add: uadd_def frame_addr_def algebra_simps)
  obtain fa' where "free_loop fa1 (frame_addr fa1 (Suc a)) (frame_addr fa1 b) = Some (fa', Inr ())" "fa_inv fa'" "fa_frame fa' = fa_frame fa1"
    "free_set fa' = free_set fa1 \<union> {Suc a ..< b}"
    using Suc.hyps(1) [OF ab(2), of fa1] Suc.prems(3) f ab(1) unfolding same by auto
  moreover have "frame_addr fa a < frame_addr fa b" using ab by (simp add: frame_addr_def PAGE_SIZE_def)
  moreover have "{a ..< b} = insert a {Suc a ..< b}" using ab by auto
  ultimately show ?case
    using f u same by (subst free_loop.simps) (auto simp: try_then_def)
qed

definition frames_in :: "FrameAllocator \<Rightarrow> PhysRange \<Rightarrow> nat set" where
  "frames_in fa g = {i. frame_addr fa i \<in> range_bytes g}"

lemma frames_in_run: "stack_run fa g s \<Longrightarrow> frames_in fa g = {s ..< s + THREAD_STACK_PAGES}"
  by (auto simp: frames_in_def stack_run_bytes frame_addr_def PAGE_SIZE_def)

lemma free_stack:
  assumes "kernel_idle k" "frames_of k = Some fa" "fa_inv fa" "stack_run fa g s"
  shows "\<exists>fa'. free_frames k g = Some (set_frames (Some fa') k, Inr ()) \<and> fa_inv fa' \<and> fa_frame fa' = fa_frame fa \<and>
    free_set fa' = free_set fa \<union> frames_in fa g"
proof -
  note g = stack_run_facts [OF assms(3,4)]
  have stop: "range_end g = Some (frame_addr fa (s + THREAD_STACK_PAGES))"
    using g(1,2) unfolding g(3) by (simp add: range_end_def uadd_def g(3)) (simp add: frame_addr_def THREAD_STACK_PAGES_def PAGE_SIZE_def)
  obtain fa' where "free_loop fa (frame_addr fa s) (frame_addr fa (s + THREAD_STACK_PAGES)) = Some (fa', Inr ())" "fa_inv fa'" "fa_frame fa' = fa_frame fa"
    "free_set fa' = free_set fa \<union> {s ..< s + THREAD_STACK_PAGES}"
    using free_loop_run [OF assms(3), of s "s + THREAD_STACK_PAGES"] assms(4) by (auto simp: stack_run_def)
  moreover from this(1) have "free_frames k g = Some (set_frames (Some fa') k, Inr ())"
    using assms(1,2) stop by (simp add: free_frames_def with_frames_eq expect_frames_def g(3))
  ultimately show ?thesis by (auto simp: frames_in_run [OF assms(4)])
qed

section \<open>One thread is reaped\<close>

definition exited_ids :: "Machine \<Rightarrow> nat set" where
  "exited_ids m = {u. u < MAX_THREADS \<and> states (m_sched m) ! u = Exited}"

definition stack_frames :: "FrameAllocator \<Rightarrow> Slot \<Rightarrow> nat set" where
  "stack_frames fa sl = (case stack sl of Some g \<Rightarrow> frames_in fa g | None \<Rightarrow> {})"

definition canary_broken :: "Machine \<Rightarrow> nat \<Rightarrow> bool" where
  "canary_broken m u \<longleftrightarrow> canary_address (m_slots m ! u) \<noteq> 0 \<and>
     from_le_bytes (raw_slice (k_mem (m_kernel m)) (canary_address (m_slots m ! u)) 8) \<noteq> STACK_CANARY"

definition slot_cleared :: "Slot \<Rightarrow> Slot" where
  "slot_cleared s = s\<lparr>stack := None, canary_address := 0, thread_entry := 0, user := False, kernel_stack_top := 0,
     slot_context := (slot_context s)\<lparr>ctx_rsp := 0\<rparr>\<rparr>"

text \<open>The machine with another allocator state, scheduler, table and failure count.\<close>

definition revised :: "Machine \<Rightarrow> FrameAllocator \<Rightarrow> Scheduler \<Rightarrow> Slot list \<Rightarrow> nat \<Rightarrow> Machine" where
  "revised m fa s ss n = m\<lparr>m_kernel := set_frames (Some fa) (m_kernel m), m_sched := s, m_slots := ss, m_canary_failures := n\<rparr>"

lemma revised_simps [simp]:
  "m_sched (revised m fa s ss n) = s" "m_slots (revised m fa s ss n) = ss" "m_canary_failures (revised m fa s ss n) = n"
  "frames_of (m_kernel (revised m fa s ss n)) = Some fa" "kernel_idle (m_kernel (revised m fa s ss n)) = kernel_idle (m_kernel m)"
  "k_mem (m_kernel (revised m fa s ss n)) = k_mem (m_kernel m)" "cpu_fine (revised m fa s ss n) = cpu_fine m"
  "revised (revised m fa s ss n) fa' s' ss' n' = revised m fa' s' ss' n'"
  by (simp_all add: revised_def) (simp_all add: set_frames_def)

lemma release_eq:
  assumes k: "kernel_idle (m_kernel m)" "frames_of (m_kernel m) = Some fa" "fa_inv fa" and t: "t < length (m_slots m)"
    and run: "\<forall>g. stack (m_slots m ! t) = Some g \<longrightarrow> (\<exists>r. stack_run fa g r)"
  shows "\<exists>fa'. release m t = Some (revised m fa' (m_sched m) ((m_slots m)[t := slot_cleared (m_slots m ! t)]) (m_canary_failures m), ()) \<and>
    fa_inv fa' \<and> fa_frame fa' = fa_frame fa \<and> free_set fa' = free_set fa \<union> stack_frames fa (m_slots m ! t)"
proof -
  let ?sl = "m_slots m ! t"
  let ?m1 = "m\<lparr>m_slots := (m_slots m)[t := ?sl\<lparr>stack := None\<rparr>]\<rparr>"
  have c: "cpu_fine m" using k(1) by (simp add: kernel_idle_def)
  have idle: "cpu_ok (k_cpu (set_frames (Some fb) (m_kernel m)))" for fb using c by (simp add: set_frames_def)
  have clear: "(?sl\<lparr>stack := None\<rparr>)\<lparr>canary_address := 0, thread_entry := 0, user := False, kernel_stack_top := 0,
       slot_context := (slot_context (?sl\<lparr>stack := None\<rparr>))\<lparr>ctx_rsp := 0\<rparr>\<rparr> = slot_cleared ?sl"
    by (simp add: slot_cleared_def)
  show ?thesis
  proof (cases "stack ?sl")
    case None
    have same: "revised m fa (m_sched m) ss (m_canary_failures m) = m\<lparr>m_slots := ss\<rparr>" for ss
      by (simp add: revised_def set_frames_same [OF k(2)])
    show ?thesis
      unfolding same [symmetric]
      using None k c t clear by (intro exI [of _ fa]) (simp add: release_def with_slots_eq index_def index_set_def on_slot_def stack_frames_def same)
  next
    case (Some g)
    then obtain r where "stack_run fa g r" using run by blast
    then obtain fa' where f: "free_frames (m_kernel m) g = Some (set_frames (Some fa') (m_kernel m), Inr ())" "fa_inv fa'" "fa_frame fa' = fa_frame fa"
      "free_set fa' = free_set fa \<union> frames_in fa g" using free_stack [OF k] by blast
    then show ?thesis
      using Some c t idle clear
      by (intro exI [of _ fa']) (simp add: release_def with_slots_eq index_def index_set_def on_slot_def stack_frames_def on_kernel_def revised_def)
  qed
qed

text \<open>Of the stacks in use, only the released one becomes free.\<close>

lemma slots_inv_remove:
  assumes inv: "slots_inv fa s ss" and fa': "fa_frame fa' = fa_frame fa" "free_set fa' = free_set fa \<union> stack_frames fa (ss ! t)"
    and t: "t < MAX_THREADS" "length (states s) = MAX_THREADS" "length (kinds s) = MAX_THREADS"
    and s': "states s' = (states s)[t := Unused]" "kinds s' = (kinds s)[t := Normal]"
  shows "slots_inv fa' s' (ss[t := slot_cleared (ss ! t)])"
proof -
  have slots: "length ss = MAX_THREADS" "\<And>u. u < MAX_THREADS \<Longrightarrow> slot_inv fa (states s ! u) (kinds s ! u) (ss ! u)"
    and apart: "\<And>u v g h. u < MAX_THREADS \<Longrightarrow> v < MAX_THREADS \<Longrightarrow> u \<noteq> v \<Longrightarrow> stack (ss ! u) = Some g \<Longrightarrow> stack (ss ! v) = Some h \<Longrightarrow> range_bytes g \<inter> range_bytes h = {}"
    using inv unfolding slots_inv_def by blast+
  have keep: "stack_run fa' g r" if u: "u < MAX_THREADS" "u \<noteq> t" "stack (ss ! u) = Some g" "stack_run fa g r" for u g r
  proof -
    have "frames_in fa g \<inter> stack_frames fa (ss ! t) = {}"
      using apart [OF u(1) t(1) u(2,3)] by (auto simp: stack_frames_def frames_in_def split: option.splits)
    then show ?thesis
      using u(4) fa_frame_simps [OF fa'(1)] fa'(2) unfolding frames_in_run [OF u(4)] stack_run_def by auto
  qed
  have "slot_inv fa' (states s' ! u) (kinds s' ! u) (ss[t := slot_cleared (ss ! t)] ! u)" if u: "u < MAX_THREADS" for u
    using slots(2) [OF u] keep [OF u] u t s' slots(1)
    by (cases "u = t") (auto simp: slot_inv_def slot_cleared_def split: option.splits)
  moreover have "range_bytes a \<inter> range_bytes b = {}"
    if uv: "u < MAX_THREADS" "v < MAX_THREADS" "u \<noteq> v" "stack (ss[t := slot_cleared (ss ! t)] ! u) = Some a" "stack (ss[t := slot_cleared (ss ! t)] ! v) = Some b" for u v a b
    using uv apart [of u v a b] slots(1) t(1) by (cases "u = t"; cases "v = t") (auto simp: slot_cleared_def)
  ultimately show ?thesis using slots(1) unfolding slots_inv_def by auto
qed

section \<open>All exited threads are reaped\<close>

text \<open>
  After reaping no thread is exited, exactly the stacks of the exited ones have become free memory, each
  broken canary has been counted, and nothing else has changed: the ready queue, the running thread,
  the slots of all other threads, and memory.
\<close>

definition reaped :: "Machine \<Rightarrow> FrameAllocator \<Rightarrow> Machine \<Rightarrow> bool" where
  "reaped m fa m' \<longleftrightarrow> threads_inv m' \<and> exited_ids m' = {} \<and>
     (\<exists>fa' s' ss. m' = revised m fa' s' ss ((m_canary_failures m + card {u \<in> exited_ids m. canary_broken m u}) mod 2 ^ 64) \<and>
       fa_frame fa' = fa_frame fa \<and> free_set fa' = free_set fa \<union> (\<Union>u \<in> exited_ids m. stack_frames fa (m_slots m ! u)) \<and>
       ready_queue s' = ready_queue (m_sched m) \<and> current s' = current (m_sched m) \<and> idle s' = idle (m_sched m) \<and>
       ticks s' = ticks (m_sched m) \<and> switches s' = switches (m_sched m) \<and>
       (\<forall>u < MAX_THREADS. if u \<in> exited_ids m then states s' ! u = Unused \<and> stack (ss ! u) = None
          else states s' ! u = states (m_sched m) ! u \<and> kinds s' ! u = kinds (m_sched m) ! u \<and> ss ! u = m_slots m ! u))"

lemma reap_step:
  assumes inv: "threads_inv m" and fa: "frames_of (m_kernel m) = Some fa" and t: "t \<in> exited_ids m"
    and first: "position (\<lambda>st. st = Exited) (states (m_sched m)) = Some t"
  shows "\<exists>fa' s' n. let m' = revised m fa' s' ((m_slots m)[t := slot_cleared (m_slots m ! t)]) n in
    reap_exited m = reap_exited m' \<and> threads_inv m' \<and> fa_frame fa' = fa_frame fa \<and> free_set fa' = free_set fa \<union> stack_frames fa (m_slots m ! t) \<and>
    ready_queue s' = ready_queue (m_sched m) \<and>
    sched_rest s' = ((states (m_sched m))[t := Unused], (kinds (m_sched m))[t := Normal], current (m_sched m), idle (m_sched m), ticks (m_sched m), switches (m_sched m)) \<and>
    n = (if canary_broken m t then (m_canary_failures m + 1) mod 2 ^ 64 else m_canary_failures m)"
proof -
  let ?s = "m_sched m" and ?sl = "m_slots m ! t"
  have k: "kernel_idle (m_kernel m)" "sched_inv ?s" "fa_inv fa" "slots_inv fa ?s (m_slots m)" using inv fa by (auto simp: threads_inv_def)
  note c = threads_inv_cpu [OF inv]
  have len: "length (states ?s) = MAX_THREADS" "length (kinds ?s) = MAX_THREADS" using sched_inv_lengths [OF k(2)] by auto
  have tm: "t < MAX_THREADS" "states ?s ! t = Exited" "t < length (m_slots m)" using t k(4) by (auto simp: exited_ids_def slots_inv_def)
  let ?s1 = "?s\<lparr>states := (states ?s)[t := Unused], kinds := (kinds ?s)[t := Normal]\<rparr>"
  let ?m1 = "m\<lparr>m_sched := ?s1\<rparr>"
  have tr: "take_reapable ?s = Some (?s1, Some t)" using take_reapable_refines [OF k(2)] first by simp
  define n where "n = (if canary_broken m t then (m_canary_failures m + 1) mod 2 ^ 64 else m_canary_failures m)"
  let ?m2 = "?m1\<lparr>m_canary_failures := n\<rparr>"
  have can: "canary_ok ?m1 t = Some (?m1, \<not> canary_broken m t)" using c tm(3) by (auto simp: canary_ok_def with_slots_eq index_def canary_broken_def Let_def)
  have run: "\<forall>g. stack ?sl = Some g \<longrightarrow> (\<exists>r. stack_run fa g r)" using k(4) tm(1) by (auto simp: slots_inv_def slot_inv_def)
  obtain fa' where f: "release ?m2 t = Some (revised ?m2 fa' (m_sched ?m2) ((m_slots ?m2)[t := slot_cleared (m_slots ?m2 ! t)]) (m_canary_failures ?m2), ())"
    "fa_inv fa'" "fa_frame fa' = fa_frame fa" "free_set fa' = free_set fa \<union> stack_frames fa ?sl"
    using release_eq [of ?m2 fa t] k(1,3) fa tm(3) run by auto
  let ?m' = "revised m fa' ?s1 ((m_slots m)[t := slot_cleared ?sl]) n"
  have "revised ?m2 fa' (m_sched ?m2) ((m_slots ?m2)[t := slot_cleared (m_slots ?m2 ! t)]) (m_canary_failures ?m2) = ?m'" by (simp add: revised_def)
  then have "reap_exited m = reap_exited ?m'"
    using f(1) tr can c n_def by (subst reap_exited.simps) (auto simp: with_sched_eq)
  moreover have "threads_inv ?m'"
    using k(1) f(2) take_reapable_inv [OF k(2) tr] slots_inv_remove [OF k(4) f(3,4) tm(1) len, of ?s1] by (auto simp: threads_inv_def)
  ultimately show ?thesis
    using f n_def by (intro exI [of _ fa'] exI [of _ ?s1] exI [of _ n]) (simp add: sched_rest_def)
qed

lemma reaped_step:
  assumes t: "t \<in> exited_ids m" and len: "length (states (m_sched m)) = MAX_THREADS" "length (kinds (m_sched m)) = MAX_THREADS" "length (m_slots m) = MAX_THREADS"
    and m1: "m1 = revised m fa1 s1 ((m_slots m)[t := slot_cleared (m_slots m ! t)]) n" "fa_frame fa1 = fa_frame fa"
      "free_set fa1 = free_set fa \<union> stack_frames fa (m_slots m ! t)" "ready_queue s1 = ready_queue (m_sched m)"
      "sched_rest s1 = ((states (m_sched m))[t := Unused], (kinds (m_sched m))[t := Normal], current (m_sched m), idle (m_sched m), ticks (m_sched m), switches (m_sched m))"
      "n = (if canary_broken m t then (m_canary_failures m + 1) mod 2 ^ 64 else m_canary_failures m)"
    and r: "reaped m1 fa1 m'"
  shows "reaped m fa m'"
proof -
  have tm: "t < MAX_THREADS" using t by (simp add: exited_ids_def)
  have rest: "states s1 = (states (m_sched m))[t := Unused]" "kinds s1 = (kinds (m_sched m))[t := Normal]" "current s1 = current (m_sched m)"
    "idle s1 = idle (m_sched m)" "ticks s1 = ticks (m_sched m)" "switches s1 = switches (m_sched m)" using m1(5) by (simp_all add: sched_rest_def)
  have ex: "exited_ids m1 = exited_ids m - {t}" using m1(1) rest(1) len(1) tm by (auto simp: exited_ids_def nth_list_update)
  have other: "m_slots m1 ! u = m_slots m ! u" "canary_broken m1 u = canary_broken m u" if "u \<noteq> t" for u
    using that m1(1) by (simp_all add: canary_broken_def)
  have sf: "stack_frames fa1 = stack_frames fa" using fa_frame_simps(2) [OF m1(2)] by (intro ext) (simp add: stack_frames_def frames_in_def split: option.split)
  have fin: "finite (exited_ids m)" by (simp add: exited_ids_def)
  let ?B = "{u \<in> exited_ids m. canary_broken m u}"
  have b: "{u \<in> exited_ids m1. canary_broken m1 u} = ?B - {t}" unfolding ex using other(2) by blast
  have count: "(n + card (?B - {t})) mod 2 ^ 64 = (m_canary_failures m + card ?B) mod 2 ^ 64"
  proof (cases "canary_broken m t")
    case True
    then have "card ?B = 1 + card (?B - {t})" using t fin card_Suc_Diff1 [of ?B t] by simp
    then show ?thesis using True unfolding m1(6) by (simp only: if_True mod_add_left_eq add.assoc)
  next
    case False
    then have "?B - {t} = ?B" by blast
    then show ?thesis using False unfolding m1(6) by simp
  qed
  have un: "free_set fa \<union> stack_frames fa (m_slots m ! t) \<union> (\<Union>u \<in> exited_ids m - {t}. stack_frames fa (m_slots m1 ! u)) =
      free_set fa \<union> (\<Union>u \<in> exited_ids m. stack_frames fa (m_slots m ! u))"
    using t other(1) by auto
  obtain fa' s' ss where r': "threads_inv m'" "exited_ids m' = {}" "m' = revised m1 fa' s' ss ((m_canary_failures m1 + card {u \<in> exited_ids m1. canary_broken m1 u}) mod 2 ^ 64)"
    "fa_frame fa' = fa_frame fa1" "free_set fa' = free_set fa1 \<union> (\<Union>u \<in> exited_ids m1. stack_frames fa1 (m_slots m1 ! u))"
    "ready_queue s' = ready_queue (m_sched m1)" "current s' = current (m_sched m1)" "idle s' = idle (m_sched m1)" "ticks s' = ticks (m_sched m1)"
    "switches s' = switches (m_sched m1)"
    and sl: "\<forall>u < MAX_THREADS. if u \<in> exited_ids m1 then states s' ! u = Unused \<and> stack (ss ! u) = None
          else states s' ! u = states (m_sched m1) ! u \<and> kinds s' ! u = kinds (m_sched m1) ! u \<and> ss ! u = m_slots m1 ! u"
    using r unfolding reaped_def by blast
  have slots: "if u \<in> exited_ids m then states s' ! u = Unused \<and> stack (ss ! u) = None
          else states s' ! u = states (m_sched m) ! u \<and> kinds s' ! u = kinds (m_sched m) ! u \<and> ss ! u = m_slots m ! u" if "u < MAX_THREADS" for u
    using sl [rule_format, OF that] that t tm ex rest(1,2) m1(1) len other(1) by (cases "u = t") (auto simp: slot_cleared_def)
  have "m_canary_failures m1 = n" "revised m1 fa' s' ss k = revised m fa' s' ss k" for k by (simp_all add: m1(1))
  then have m': "m' = revised m fa' s' ss ((m_canary_failures m + card ?B) mod 2 ^ 64)" using r'(3) unfolding b by (simp only: count)
  have sch: "m_sched m1 = s1" by (simp add: m1(1))
  show ?thesis
    unfolding reaped_def
  proof (intro conjI exI [of _ fa'] exI [of _ s'] exI [of _ ss] allI impI)
    show "free_set fa' = free_set fa \<union> (\<Union>u \<in> exited_ids m. stack_frames fa (m_slots m ! u))"
      using r'(5) un unfolding ex sf m1(3) by simp
  qed (use r' sch m' slots m1(2,4) rest in simp_all)
qed

lemma reap_exited_eq:
  assumes "threads_inv m" "frames_of (m_kernel m) = Some fa" "m_canary_failures m < 2 ^ 64"
  shows "\<exists>m'. reap_exited m = Some m' \<and> reaped m fa m'"
  using assms
proof (induction "card (exited_ids m)" arbitrary: m fa rule: less_induct)
  case less
  let ?s = "m_sched m"
  have k: "kernel_idle (m_kernel m)" "sched_inv ?s" "fa_inv fa" "slots_inv fa ?s (m_slots m)" using less.prems by (auto simp: threads_inv_def)
  have len: "length (states ?s) = MAX_THREADS" "length (kinds ?s) = MAX_THREADS" "length (m_slots m) = MAX_THREADS"
    using sched_inv_lengths [OF k(2)] k(4) by (auto simp: slots_inv_def)
  show ?case
  proof (cases "position (\<lambda>st. st = Exited) (states ?s)")
    case None
    then have ex: "exited_ids m = {}" using len by (auto simp: exited_ids_def position_None_iff)
    have "reap_exited m = Some m"
      using take_reapable_refines [OF k(2)] None threads_inv_cpu [OF less.prems(1)] by (subst reap_exited.simps) (simp add: with_sched_eq)
    moreover have "m = revised m fa ?s (m_slots m) (m_canary_failures m)" by (simp add: revised_def set_frames_same [OF less.prems(2)])
    then have "reaped m fa m" unfolding reaped_def using ex less.prems by (auto intro!: exI [of _ fa] exI [of _ ?s] exI [of _ "m_slots m"])
    ultimately show ?thesis by blast
  next
    case (Some t)
    then have t: "t \<in> exited_ids m" using len(1) by (auto simp: exited_ids_def position_Some_iff)
    obtain fa1 s1 n m1 where s: "m1 = revised m fa1 s1 ((m_slots m)[t := slot_cleared (m_slots m ! t)]) n" "reap_exited m = reap_exited m1" "threads_inv m1"
      "fa_frame fa1 = fa_frame fa" "free_set fa1 = free_set fa \<union> stack_frames fa (m_slots m ! t)" "ready_queue s1 = ready_queue ?s"
      "sched_rest s1 = ((states ?s)[t := Unused], (kinds ?s)[t := Normal], current ?s, idle ?s, ticks ?s, switches ?s)"
      "n = (if canary_broken m t then (m_canary_failures m + 1) mod 2 ^ 64 else m_canary_failures m)"
      using reap_step [OF less.prems(1,2) t Some] by (auto simp: Let_def)
    have "exited_ids m1 \<subset> exited_ids m"
      using s(1,7) len(1) t by (auto simp: exited_ids_def sched_rest_def nth_list_update split: if_splits)
    then have "card (exited_ids m1) < card (exited_ids m)" by (intro psubset_card_mono) (simp_all add: exited_ids_def)
    moreover have "frames_of (m_kernel m1) = Some fa1" "m_canary_failures m1 < 2 ^ 64" using s(1,8) less.prems(3) by simp_all
    ultimately obtain m' where m': "reap_exited m1 = Some m'" "reaped m1 fa1 m'" using less.hyps s(3) by blast
    then show ?thesis using s(2) reaped_step [OF t len s(1,4-8) m'(2)] by (intro exI [of _ m']) simp
  qed
qed

section \<open>Switching\<close>

definition slot_saved :: "Slot \<Rightarrow> u64 \<Rightarrow> bytes \<Rightarrow> Slot" where
  "slot_saved s frame fpu = s\<lparr>slot_context := (slot_context s)\<lparr>ctx_rsp := frame\<rparr>, fx := fpu\<rparr>"

lemma switch_to_eq:
  assumes "cpu_fine m" "length (m_slots m) = MAX_THREADS" "old < MAX_THREADS" "t < MAX_THREADS" "old \<noteq> t"
  shows "switch_to m old t frame = Some (m\<lparr>m_slots := (m_slots m)[old := slot_saved (m_slots m ! old) frame (m_fpu m)], m_fpu := fx (m_slots m ! t),
      m_tss := (if user (m_slots m ! t) then set_rsp0 (m_tss m) (kernel_stack_top (m_slots m ! t)) else m_tss m)\<rparr>,
    ctx_rsp (slot_context (m_slots m ! t)))"
  using assms
  by (cases "user (m_slots m ! t)")
    (simp_all add: switch_to_def context_and_fx_def debug_assert_def index_def is_user_def kernel_stack_top_of_def with_slots_eq slot_saved_def)

lemma slots_inv_switch:
  assumes inv: "slots_inv fa s ss" "sched_inv s" and ids: "old < MAX_THREADS" "t < MAX_THREADS" "old \<noteq> t"
    and st: "states s ! old = Running" "states s ! t = Ready"
    and s': "states s' = (states s)[old := x, t := Running]" "kinds s' = kinds s" "x = Exited \<or> x = Ready \<and> frame \<noteq> 0"
  shows "slots_inv fa s' (ss[old := slot_saved (ss ! old) frame fpu])"
proof -
  have len: "length (states s) = MAX_THREADS" "length ss = MAX_THREADS" using inv sched_inv_lengths [of s] by (auto simp: slots_inv_def)
  have same: "stack (ss[old := slot_saved (ss ! old) frame fpu] ! u) = stack (ss ! u)" for u
    using ids len by (cases "u = old") (simp_all add: slot_saved_def)
  have "slot_inv fa (states s' ! u) (kinds s' ! u) (ss[old := slot_saved (ss ! old) frame fpu] ! u)" if u: "u < MAX_THREADS" for u
  proof -
    have "slot_inv fa (states s ! u) (kinds s ! u) (ss ! u)" using inv(1) u by (simp add: slots_inv_def)
    then show ?thesis
      using u ids st s' len by (cases "u = old"; cases "u = t") (auto simp: slot_inv_def slot_saved_def split: option.splits)
  qed
  then show ?thesis using inv(1) unfolding slots_inv_def same by simp
qed

text \<open>The registers saved in a thread's frame.\<close>

definition saved_regs :: "Machine \<Rightarrow> usize \<Rightarrow> Regs \<times> u64" where
  "saved_regs m t = (let f = irq_return m (ctx_rsp (slot_context (m_slots m ! t))) in (snd f, rflags (k_cpu (m_kernel (fst f)))))"

definition regs_fit :: "Machine \<Rightarrow> Regs \<Rightarrow> bool" where
  "regs_fit m r \<longleftrightarrow> length (gprs r) = 15 \<and> list_all (\<lambda>w. w \<le> U64_MAX) (gprs r @ [reg_rip r, reg_cs r, rflags (k_cpu (m_kernel m)), reg_rsp r, reg_ss r])"

definition entry_words :: "Machine \<Rightarrow> Regs \<Rightarrow> nat \<Rightarrow> u64 list" where
  "entry_words m r v = gprs r @ [v, 0, reg_rip r, reg_cs r, rflags (k_cpu (m_kernel m)), reg_rsp r, reg_ss r]"

text \<open>The machine inside the handler.\<close>

definition entered :: "Machine \<Rightarrow> Regs \<Rightarrow> nat \<Rightarrow> u64 \<Rightarrow> Machine" where
  "entered m r v a = m\<lparr>m_kernel := (m_kernel m)\<lparr>k_mem := raw_store (k_mem (m_kernel m)) a (words_bytes (entry_words m r v)),
     k_cpu := disable_interrupts (k_cpu (m_kernel m))\<rparr>\<rparr>"

lemma irq_entry_eq: "entry_frame m r = Some a \<Longrightarrow> irq_entry m r v = Some (entered m r v a, a)"
  by (simp add: irq_entry_def entered_def entry_words_def Let_def)

lemma entered_simps [simp]:
  "m_sched (entered m r v a) = m_sched m" "m_slots (entered m r v a) = m_slots m" "m_fpu (entered m r v a) = m_fpu m" "m_tss (entered m r v a) = m_tss m"
  "m_canary_failures (entered m r v a) = m_canary_failures m" "m_ports (entered m r v a) = m_ports m"
  "kernel_idle (m_kernel (entered m r v a)) = kernel_idle (m_kernel m)" "frames_of (m_kernel (entered m r v a)) = frames_of (m_kernel m)"
  "threads_inv (entered m r v a) = threads_inv m"
proof -
  show k: "kernel_idle (m_kernel (entered m r v a)) = kernel_idle (m_kernel m)" "frames_of (m_kernel (entered m r v a)) = frames_of (m_kernel m)"
    by (simp_all add: entered_def kernel_idle_def frames_of_def cpu_ok_def disable_interrupts_def)
  show s: "m_sched (entered m r v a) = m_sched m" "m_slots (entered m r v a) = m_slots m" "m_fpu (entered m r v a) = m_fpu m" "m_tss (entered m r v a) = m_tss m"
    "m_canary_failures (entered m r v a) = m_canary_failures m" "m_ports (entered m r v a) = m_ports m" by (simp_all add: entered_def)
  show "threads_inv (entered m r v a) = threads_inv m" by (simp add: threads_inv_def k s)
qed

lemma length_entry_words: "regs_fit m r \<Longrightarrow> length (entry_words m r v) = 22"
  by (simp add: entry_words_def regs_fit_def)

lemma read_entered:
  assumes "regs_fit m r" "v < 256"
  shows "read_words (k_mem (m_kernel (entered m r v a))) a 22 = entry_words m r v"
  using assms by (simp add: entered_def) (rule read_words_store; simp add: entry_words_def regs_fit_def U64_MAX_def)

lemma entry_words_nth:
  assumes "regs_fit m r"
  shows "entry_words m r v ! 15 = v" "entry_words m r v ! 17 = reg_rip r" "entry_words m r v ! 18 = reg_cs r"
    "entry_words m r v ! 19 = rflags (k_cpu (m_kernel m))" "entry_words m r v ! 20 = reg_rsp r" "entry_words m r v ! 21 = reg_ss r"
    "take 15 (entry_words m r v) = gprs r"
  using assms by (simp_all add: entry_words_def regs_fit_def nth_append)

text \<open>Returning to the frame just built restores the registers and the flags.\<close>

lemma return_entered:
  assumes "regs_fit m r" "v < 256" "k_mem (m_kernel m') = k_mem (m_kernel (entered m r v a))"
  shows "snd (irq_return m' a) = r" "rflags (k_cpu (m_kernel (fst (irq_return m' a)))) = rflags (k_cpu (m_kernel m))"
  using read_entered [OF assms(1,2), of a] entry_words_nth [OF assms(1), of v] unfolding irq_return_def assms(3) by (simp_all add: Let_def)

end
