(* ===== verification/Interrupts.thy ===== *)
theory Interrupts
  imports Thread_Switch
begin

text \<open>
  Interrupts from entry to return: the properties of \<open>irq_common\<close> with the handler of
  \<^verbatim>\<open>src/crates/kernel/src/sched.rs\<close> for the timer, a yield and an exit.
\<close>

section \<open>The scheduler's decision\<close>

definition rotation :: "Scheduler \<Rightarrow> nat \<Rightarrow> (Scheduler \<times> Decision) panics" where
  "rotation s v = (if v = TIMER_VECTOR then on_tick s PREEMPTION_ENABLED else yield_current s)"

lemma rotation_cases:
  assumes inv: "sched_inv s" and cur: "current s \<noteq> NO_THREAD" and bounds: "switches s < U64_MAX" "ticks s < U64_MAX"
  obtains (keep) s' where "ready_queue s = []" "rotation s v = Some (s', Keep)" "sched_inv s'" "states s' = states s" "kinds s' = kinds s"
      "current s' = current s" "ready_queue s' = []"
  | (switch) s' t ts where "ready_queue s = t # ts" "rotation s v = Some (s', Switch (current s) t)" "sched_inv s'"
      "states s' = (states s)[current s := Ready, t := Running]" "kinds s' = kinds s" "current s' = t"
      "ready_queue s' = ts @ (if kinds s ! current s = Idle then [] else [current s])"
proof -
  define s1 where "s1 = (if v = TIMER_VECTOR then s\<lparr>ticks := ticks s + 1\<rparr> else s)"
  have rot: "rotation s v = sched_rotate s1"
    using bounds(2) by (simp add: rotation_def s1_def on_tick_def yield_current_def uadd_def PREEMPTION_ENABLED_def)
  have s1: "sched_inv s1" "current s1 = current s" "states s1 = states s" "kinds s1 = kinds s" "ready_queue s1 = ready_queue s" "switches s1 = switches s"
    using inv by (simp_all add: s1_def sched_inv_def)
  show thesis
  proof (cases "ready_queue s")
    case Nil
    then show thesis using keep [of s1] rotate_keep [OF s1(1)] rot s1 by simp
  next
    case (Cons t ts)
    obtain s' where s': "sched_rotate s1 = Some (s', Switch (current s1) t)" "ready_queue s' = ts @ (if kinds s1 ! current s1 = Idle then [] else [current s1])"
      "sched_rest s' = ((states s1)[current s1 := Ready, t := Running], kinds s1, t, idle s1, ticks s1, switches s1 + 1)"
      using rotate_step [OF s1(1), of t ts] cur bounds s1 Cons by auto
    moreover have "sched_inv s'" using rotate_refines [OF s1(1)] s'(1) bounds s1(6) by auto
    ultimately show thesis using switch [of t ts s'] Cons rot s1 by (simp add: sched_rest_def)
  qed
qed

section \<open>The handler\<close>

lemma vector_read:
  assumes "regs_fit m r" "v < 256" "k_mem (m_kernel m') = k_mem (m_kernel (entered m r v a))"
  shows "take_bit 8 (f_vector (load_frame (k_mem (m_kernel m')) a)) = v"
proof -
  have "f_vector (load_frame (k_mem (m_kernel m')) a) = v"
    using read_entered [OF assms(1,2), of a] entry_words_nth(1) [OF assms(1)] unfolding assms(3) by (simp add: load_frame_def frame_of_words_def)
  then show ?thesis using assms(2) by (simp add: take_bit_eq_mod)
qed

text \<open>The ports after the handler: the timer is acknowledged once, a yield touches none.\<close>

definition ports_after :: "Machine \<Rightarrow> nat \<Rightarrow> Ports" where
  "ports_after m v = (if v = TIMER_VECTOR then pic_eoi TIMER_IRQ (m_ports m) else m_ports m)"

lemma irq_decision_rotation:
  assumes "take_bit 8 (f_vector (load_frame (k_mem (m_kernel m)) a)) = v" "v = TIMER_VECTOR \<or> v = YIELD_VECTOR" "cpu_fine m"
  shows "irq_decision m a = map_option (\<lambda>(s, d). (m\<lparr>m_sched := s, m_ports := ports_after m v\<rparr>, d)) (rotation (m_sched m) v)"
  using assms
  by (cases "rotation (m_sched m) v")
    (auto simp: irq_decision_def rotation_def with_sched_eq on_ports_def ports_after_def rust_consts split: if_splits)

lemma reap_entered:
  assumes "threads_inv m" "m_canary_failures m < 2 ^ 64" "entry_frame m r = Some a"
  obtains fa m1 where "frames_of (m_kernel m) = Some fa" "reap_exited (entered m r v a) = Some m1" "reaped (entered m r v a) fa m1"
proof -
  obtain fa where fa: "frames_of (m_kernel m) = Some fa" using assms(1) by (auto simp: threads_inv_def)
  then show thesis using reap_exited_eq [of "entered m r v a" fa] assms that by auto
qed

text \<open>What reaping keeps, in the form the switch needs.\<close>

lemma reaped_keeps:
  assumes "reaped m fa m'" "threads_inv m"
  shows "threads_inv m'" "cpu_fine m'" "k_mem (m_kernel m') = k_mem (m_kernel m)" "k_cpu (m_kernel m') = k_cpu (m_kernel m)"
    "ready_queue (m_sched m') = ready_queue (m_sched m)" "current (m_sched m') = current (m_sched m)" "idle (m_sched m') = idle (m_sched m)"
    "ticks (m_sched m') = ticks (m_sched m)" "switches (m_sched m') = switches (m_sched m)" "m_fpu m' = m_fpu m" "m_tss m' = m_tss m" "m_ports m' = m_ports m"
    "\<And>u. u < MAX_THREADS \<Longrightarrow> states (m_sched m) ! u \<noteq> Exited \<Longrightarrow> m_slots m' ! u = m_slots m ! u \<and> states (m_sched m') ! u = states (m_sched m) ! u \<and>
       kinds (m_sched m') ! u = kinds (m_sched m) ! u"
proof -
  obtain fa' s' ss n where m': "m' = revised m fa' s' ss n" and inv: "threads_inv m'"
    and s': "ready_queue s' = ready_queue (m_sched m)" "current s' = current (m_sched m)" "idle s' = idle (m_sched m)"
      "ticks s' = ticks (m_sched m)" "switches s' = switches (m_sched m)"
    and sl: "\<forall>u < MAX_THREADS. if u \<in> exited_ids m then states s' ! u = Unused \<and> stack (ss ! u) = None
          else states s' ! u = states (m_sched m) ! u \<and> kinds s' ! u = kinds (m_sched m) ! u \<and> ss ! u = m_slots m ! u"
    using assms(1) unfolding reaped_def by blast
  show "threads_inv m'" "cpu_fine m'" using inv threads_inv_cpu by auto
  show "k_mem (m_kernel m') = k_mem (m_kernel m)" "k_cpu (m_kernel m') = k_cpu (m_kernel m)" "m_fpu m' = m_fpu m" "m_tss m' = m_tss m" "m_ports m' = m_ports m"
    by (simp_all add: m') (simp_all add: revised_def set_frames_def)
  show "ready_queue (m_sched m') = ready_queue (m_sched m)" "current (m_sched m') = current (m_sched m)" "idle (m_sched m') = idle (m_sched m)"
    "ticks (m_sched m') = ticks (m_sched m)" "switches (m_sched m') = switches (m_sched m)" using s' by (simp_all add: m')
  show "m_slots m' ! u = m_slots m ! u \<and> states (m_sched m') ! u = states (m_sched m) ! u \<and> kinds (m_sched m') ! u = kinds (m_sched m) ! u"
    if "u < MAX_THREADS" "states (m_sched m) ! u \<noteq> Exited" for u
    using sl that by (auto simp: m' exited_ids_def)
qed

section \<open>The switch and the return\<close>

lemma irq_return_simps [simp]:
  "m_sched (fst (irq_return m p)) = m_sched m" "m_slots (fst (irq_return m p)) = m_slots m" "m_fpu (fst (irq_return m p)) = m_fpu m"
  "m_tss (fst (irq_return m p)) = m_tss m" "m_ports (fst (irq_return m p)) = m_ports m" "m_syscall_cs (fst (irq_return m p)) = m_syscall_cs m"
    "m_reached_cpl3 (fst (irq_return m p)) = m_reached_cpl3 m" "k_mem (m_kernel (fst (irq_return m p))) = k_mem (m_kernel m)"
  "kernel_idle (m_kernel (fst (irq_return m p))) = kernel_idle (m_kernel m)" "frames_of (m_kernel (fst (irq_return m p))) = frames_of (m_kernel m)"
  "threads_inv (fst (irq_return m p)) = threads_inv m"
proof -
  show k: "kernel_idle (m_kernel (fst (irq_return m p))) = kernel_idle (m_kernel m)" "frames_of (m_kernel (fst (irq_return m p))) = frames_of (m_kernel m)"
    by (simp_all add: irq_return_def Let_def kernel_idle_def frames_of_def cpu_ok_def)
  show s: "m_sched (fst (irq_return m p)) = m_sched m" "m_slots (fst (irq_return m p)) = m_slots m" "m_fpu (fst (irq_return m p)) = m_fpu m"
    "m_tss (fst (irq_return m p)) = m_tss m" "m_ports (fst (irq_return m p)) = m_ports m" "m_syscall_cs (fst (irq_return m p)) = m_syscall_cs m"
    "m_reached_cpl3 (fst (irq_return m p)) = m_reached_cpl3 m" "k_mem (m_kernel (fst (irq_return m p))) = k_mem (m_kernel m)"
    by (simp_all add: irq_return_def Let_def)
  show "threads_inv (fst (irq_return m p)) = threads_inv m" by (simp add: threads_inv_def k s)
qed

lemma irq_return_read:
  assumes "read_words (k_mem (m_kernel m')) p 22 = read_words (k_mem (m_kernel m)) p 22"
  shows "snd (irq_return m' p) = snd (irq_return m p)" "rflags (k_cpu (m_kernel (fst (irq_return m' p)))) = rflags (k_cpu (m_kernel (fst (irq_return m p))))"
  using assms by (simp_all add: irq_return_def Let_def)

text \<open>
  The thread \<open>c\<close> leaves in the frame at \<open>a\<close> and \<open>t\<close> continues: the registers of the two threads are
  exchanged, those of the floating-point unit included, and the task state follows a user thread.
\<close>

definition exchanged :: "Machine \<Rightarrow> Regs \<Rightarrow> nat \<Rightarrow> nat \<Rightarrow> Machine \<Rightarrow> Regs \<Rightarrow> bool" where
  "exchanged m r c t m' r' \<longleftrightarrow> (r', rflags (k_cpu (m_kernel m'))) = saved_regs m t \<and> m_fpu m' = fx (m_slots m ! t) \<and>
     saved_regs m' c = (r, rflags (k_cpu (m_kernel m))) \<and> fx (m_slots m' ! c) = m_fpu m \<and>
     tss_rsp0 (m_tss m') = (if user (m_slots m ! t) then kernel_stack_top (m_slots m ! t) else tss_rsp0 (m_tss m)) \<and>
     (\<forall>u < MAX_THREADS. u \<noteq> c \<longrightarrow> states (m_sched m) ! u \<noteq> Exited \<longrightarrow> m_slots m' ! u = m_slots m ! u)"

lemma switch_exchanges:
  assumes inv: "threads_inv m" and fit: "regs_fit m r" "v < 256"
    and re: "reaped (entered m r v a) fa m1"
    and c: "c = current (m_sched m)" "c \<noteq> NO_THREAD" and t: "t < MAX_THREADS" "states (m_sched m) ! t = Ready" "t \<noteq> c"
    and s2: "sched_inv s2" "states s2 = (states (m_sched m1))[c := x, t := Running]" "kinds s2 = kinds (m_sched m1)" "x = Exited \<or> x = Ready \<and> a \<noteq> 0"
    and apart: "{a ..< a + 176} \<inter> {ctx_rsp (slot_context (m_slots m ! t)) ..< ctx_rsp (slot_context (m_slots m ! t)) + 176} = {}"
    and m2: "m2 = m1\<lparr>m_sched := s2, m_ports := q, m_syscall_cs := cs, m_reached_cpl3 := b\<rparr>"
  shows "\<exists>m3. switch_to m2 c t a = Some (m3, ctx_rsp (slot_context (m_slots m ! t))) \<and> ctx_rsp (slot_context (m_slots m ! t)) \<noteq> 0 \<and> m_sched m3 = s2 \<and>
    m_ports m3 = q \<and> m_syscall_cs m3 = cs \<and> m_reached_cpl3 m3 = b \<and> stack (m_slots m3 ! c) = stack (m_slots m ! c) \<and> k_mem (m_kernel m3) = k_mem (m_kernel (entered m r v a)) \<and>
    (let f = irq_return m3 (ctx_rsp (slot_context (m_slots m ! t))) in threads_inv (fst f) \<and> exchanged m r c t (fst f) (snd f))"
proof -
  let ?s = "m_sched m" and ?p = "ctx_rsp (slot_context (m_slots m ! t))"
  have e: "threads_inv (entered m r v a)" using inv by simp
  note R = reaped_keeps [OF re e]
  obtain fa1 where k: "kernel_idle (m_kernel m1)" "sched_inv (m_sched m1)" "frames_of (m_kernel m1) = Some fa1" "fa_inv fa1" "slots_inv fa1 (m_sched m1) (m_slots m1)"
    using R(1) by (auto simp: threads_inv_def)
  have inv': "sched_inv ?s" using inv by (simp add: threads_inv_def)
  have cm: "c < MAX_THREADS" "states ?s ! c = Running" using current_slot [OF inv'] c by simp_all
  have c1: "m_slots m1 ! c = m_slots m ! c" "states (m_sched m1) ! c = Running" using R(13) [of c] cm by simp_all
  have t1: "m_slots m1 ! t = m_slots m ! t" "states (m_sched m1) ! t = Ready" using R(13) [of t] t by simp_all
  have len: "length (m_slots m1) = MAX_THREADS" using k(5) by (simp add: slots_inv_def)
  have p: "?p \<noteq> 0" using k(5) t(1) t1 by (auto simp: slots_inv_def slot_inv_def)
  let ?m3 = "m2\<lparr>m_slots := (m_slots m1)[c := slot_saved (m_slots m1 ! c) a (m_fpu m)], m_fpu := fx (m_slots m ! t),
      m_tss := (if user (m_slots m ! t) then set_rsp0 (m_tss m) (kernel_stack_top (m_slots m ! t)) else m_tss m)\<rparr>"
  have run: "switch_to m2 c t a = Some (?m3, ?p)"
    using switch_to_eq [of m2 c t a] R(2,10,11) len cm(1) t t1(1) by (simp add: m2)
  have mem: "k_mem (m_kernel ?m3) = k_mem (m_kernel (entered m r v a))" using R(3) by (simp add: m2)
  have "slots_inv fa1 s2 ((m_slots m1)[c := slot_saved (m_slots m1 ! c) a (m_fpu m)])"
    by (rule slots_inv_switch [OF k(5,2) cm(1) t(1) _ c1(2) t1(2) s2(2-4)]) (use t(3) in simp)
  then have ti: "threads_inv ?m3" using k s2(1) by (auto simp: threads_inv_def m2)
  have "read_words (k_mem (m_kernel ?m3)) ?p 22 = read_words (k_mem (m_kernel m)) ?p 22"
    unfolding mem using read_words_apart [of ?p 22 a "words_bytes (entry_words m r v)"] apart length_entry_words [OF fit(1)]
    by (simp add: entered_def Int_commute)
  note ret = irq_return_read [of ?m3 ?p m, OF this]
  let ?f = "irq_return ?m3 ?p"
  have sc: "ctx_rsp (slot_context (m_slots (fst ?f) ! c)) = a" "fx (m_slots (fst ?f) ! c) = m_fpu m" using len cm(1) by (simp_all add: slot_saved_def)
  have "k_mem (m_kernel (fst ?f)) = k_mem (m_kernel (entered m r v a))" using mem by simp
  then have saved: "saved_regs (fst ?f) c = (r, rflags (k_cpu (m_kernel m)))"
    unfolding saved_regs_def sc using return_entered [OF fit] by (simp add: Let_def)
  have "exchanged m r c t (fst ?f) (snd ?f)"
    unfolding exchanged_def saved sc using ret R(13) cm(1) len by (auto simp: saved_regs_def Let_def set_rsp0_def)
  then show ?thesis
    using run p ti mem c1(1) cm(1) len by (intro exI [of _ ?m3]) (simp add: m2 Let_def slot_saved_def)
qed

section \<open>Properties\<close>

lemma nth_list_update': "i < length xs \<Longrightarrow> xs[j := x] ! i = (if i = j then x else xs ! i)"
  by (cases "i = j") simp_all

lemma entered_outside:
  assumes "regs_fit m r" "x \<notin> {a ..< a + 176}"
  shows "k_mem (m_kernel (entered m r v a)) x = k_mem (m_kernel m) x"
  using assms length_entry_words [OF assms(1), of v] by (auto simp: entered_def raw_store_def)

definition freed_by_reaping :: "Machine \<Rightarrow> Machine \<Rightarrow> bool" where
  "freed_by_reaping m m' \<longleftrightarrow> (\<exists>fa fa'. frames_of (m_kernel m) = Some fa \<and> frames_of (m_kernel m') = Some fa' \<and>
     free_set fa' = free_set fa \<union> (\<Union>u \<in> exited_ids m. stack_frames fa (m_slots m ! u)))"

lemma reaped_freed:
  assumes "reaped (entered m r v a) fa m1" "frames_of (m_kernel m) = Some fa" "frames_of (m_kernel m') = frames_of (m_kernel m1)"
  shows "freed_by_reaping m m'"
proof -
  have "exited_ids (entered m r v a) = exited_ids m" by (simp add: exited_ids_def)
  then show ?thesis using assms unfolding reaped_def freed_by_reaping_def by auto
qed

lemma switch_to_frames: "switch_to m c t a = Some (m', p) \<Longrightarrow> cpu_fine m \<Longrightarrow> frames_of (m_kernel m') = frames_of (m_kernel m)"
  by (auto simp: switch_to_def is_user_def kernel_stack_top_of_def with_slots_eq bind_eq_Some_conv split: if_splits)

text \<open>
  C35. A timer interrupt or a yield: with no other thread ready, the interrupted thread continues with
  every register as it was; otherwise the head of the ready queue continues from its saved
  registers while those of the interrupted thread, which goes to the end of the queue unless it is the idle
  thread, are saved in its stead, the floating-point state included.  Beforehand the
  stacks of exited threads become free.  The table's invariant holds, memory changes only in
  the interrupt frame, and the timer is acknowledged exactly once.
\<close>

theorem interrupt_switches:
  assumes "threads_inv m" "m_canary_failures m < 2 ^ 64" "regs_fit m r" "entry_frame m r = Some a" "0 < a"
    and "v = TIMER_VECTOR \<or> v = YIELD_VECTOR" "current (m_sched m) \<noteq> NO_THREAD" "switches (m_sched m) < U64_MAX" "ticks (m_sched m) < U64_MAX"
    and "\<forall>t \<in> set (ready_queue (m_sched m)). {a ..< a + 176} \<inter> {ctx_rsp (slot_context (m_slots m ! t)) ..< ctx_rsp (slot_context (m_slots m ! t)) + 176} = {}"
  shows "\<exists>m' r'. irq_common m r v = Some (m', r') \<and> threads_inv m' \<and> exited_ids m' = {} \<and> freed_by_reaping m m' \<and>
    p_out (m_ports m') = p_out (m_ports m) @ (if v = TIMER_VECTOR then [(PIC1, 0x20)] else []) \<and>
    (\<forall>x. x \<notin> {a ..< a + 176} \<longrightarrow> k_mem (m_kernel m') x = k_mem (m_kernel m) x) \<and>
    (case ready_queue (m_sched m) of
       [] \<Rightarrow> r' = r \<and> rflags (k_cpu (m_kernel m')) = rflags (k_cpu (m_kernel m)) \<and> m_fpu m' = m_fpu m \<and> current (m_sched m') = current (m_sched m)
     | t # ts \<Rightarrow> exchanged m r (current (m_sched m)) t m' r' \<and> current (m_sched m') = t \<and>
         ready_queue (m_sched m') = ts @ (if kinds (m_sched m) ! current (m_sched m) = Idle then [] else [current (m_sched m)]))"
proof -
  let ?s = "m_sched m" and ?c = "current (m_sched m)" and ?e = "entered m r v a"
  have v: "v < 256" using assms(6) by (auto simp: rust_consts)
  obtain fa m1 where re: "frames_of (m_kernel m) = Some fa" "reap_exited ?e = Some m1" "reaped ?e fa m1" using reap_entered [OF assms(1,2,4)] by blast
  have e: "threads_inv ?e" using assms(1) by simp
  note R = reaped_keeps [OF re(3) e]
  have inv: "sched_inv ?s" "sched_inv (m_sched m1)" using assms(1) R(1) by (simp_all add: threads_inv_def)
  have ex1: "exited_ids m1 = {}" using re(3) by (simp add: reaped_def)
  have len: "length (states (m_sched m1)) = MAX_THREADS" using sched_inv_lengths [OF inv(2)] by simp
  have dec: "irq_decision m1 a = map_option (\<lambda>(s, d). (m1\<lparr>m_sched := s, m_ports := ports_after m1 v\<rparr>, d)) (rotation (m_sched m1) v)"
    using irq_decision_rotation [OF vector_read [OF assms(3) v R(3)] assms(6) R(2)] .
  have out: "p_out (ports_after m1 v) = p_out (m_ports m) @ (if v = TIMER_VECTOR then [(PIC1, 0x20)] else [])"
    using R(12) by (simp add: ports_after_def pic_eoi_def TIMER_IRQ_def)
  have pre: "current (m_sched m1) \<noteq> NO_THREAD" "switches (m_sched m1) < U64_MAX" "ticks (m_sched m1) < U64_MAX" using R(6,8,9) assms(7-9) by simp_all
  have entry: "irq_common m r v = do { (m, rax) \<leftarrow> irq_handler ?e a; Some (irq_return m (if rax = 0 then a else rax)) }"
    using irq_entry_eq [OF assms(4)] by (simp add: irq_common_def)
  from inv(2) pre show ?thesis
  proof (cases rule: rotation_cases [where v = v])
    case (keep s')
    let ?m = "m1\<lparr>m_sched := s', m_ports := ports_after m1 v\<rparr>"
    let ?f = "irq_return ?m a"
    have run: "irq_common m r v = Some ?f" unfolding entry by (simp add: irq_handler_def re(2) dec keep(2))
    have "slots_inv fb s' (m_slots m1) = slots_inv fb (m_sched m1) (m_slots m1)" for fb using keep(4,5) by (simp add: slots_inv_def)
    then have "threads_inv ?m" using R(1) keep(3) by (auto simp: threads_inv_def)
    moreover have "exited_ids ?m = {}" using ex1 keep(4) by (simp add: exited_ids_def)
    moreover have "rflags (k_cpu (m_kernel (fst ?f))) = rflags (k_cpu (m_kernel m))" using return_entered(2) [OF assms(3) v, of ?m a] R(3) by simp
    moreover have "?f = (fst ?f, r)" using return_entered(1) [OF assms(3) v, of ?m a] R(3) by (simp add: prod_eq_iff)
    moreover have "freed_by_reaping m (fst ?f)" by (rule reaped_freed [OF re(3,1)]) simp
    moreover have "k_mem (m_kernel (fst ?f)) x = k_mem (m_kernel m) x" if "x \<notin> {a ..< a + 176}" for x using entered_outside [OF assms(3) that] R(3) by simp
    ultimately show ?thesis
      using run out keep(1,6) R(5,6,10) by (intro exI [of _ "fst ?f"] exI [of _ r]) (simp add: exited_ids_def)
  next
    case (switch s' t ts)
    then have rq: "ready_queue ?s = t # ts" and cur: "current (m_sched m1) = ?c" using R(5,6) by simp_all
    note ready = ready_slot [OF inv(1), of t, unfolded rq, simplified]
    let ?p = "ctx_rsp (slot_context (m_slots m ! t))" and ?m2 = "m1\<lparr>m_sched := s', m_ports := ports_after m1 v\<rparr>"
    have m2: "?m2 = m1\<lparr>m_sched := s', m_ports := ports_after m1 v, m_syscall_cs := m_syscall_cs m1, m_reached_cpl3 := m_reached_cpl3 m1\<rparr>" by simp
    have "{a ..< a + 176} \<inter> {?p ..< ?p + 176} = {}" using assms(10) rq by simp
    then obtain m3 where m3: "switch_to ?m2 ?c t a = Some (m3, ?p)" "?p \<noteq> 0" "m_sched m3 = s'" "m_ports m3 = ports_after m1 v" "k_mem (m_kernel m3) = k_mem (m_kernel ?e)"
      "threads_inv (fst (irq_return m3 ?p))" "exchanged m r ?c t (fst (irq_return m3 ?p)) (snd (irq_return m3 ?p))"
      using switch_exchanges [OF assms(1,3) v re(3) refl assms(7) ready(1,2,5) switch(3) switch(4) [unfolded cur] switch(5) _ _ m2] assms(5) by (auto simp: Let_def)
    let ?f = "irq_return m3 ?p"
    have run: "irq_common m r v = Some ?f" unfolding entry using m3(1,2) by (simp add: irq_handler_def re(2) dec switch(2) cur)
    have "exited_ids (fst ?f) = {}" using ex1 m3(3) switch(4) len by (auto simp: exited_ids_def nth_list_update' split: if_splits)
    moreover have "freed_by_reaping m (fst ?f)"
      by (rule reaped_freed [OF re(3,1)]) (use switch_to_frames [OF m3(1)] R(2) in simp)
    moreover have "k_mem (m_kernel (fst ?f)) x = k_mem (m_kernel m) x" if "x \<notin> {a ..< a + 176}" for x using entered_outside [OF assms(3) that] m3(5) by simp
    moreover have "kinds (m_sched m1) ! ?c = kinds ?s ! ?c" using R(13) [of ?c] current_slot [OF inv(1) assms(7)] by simp
    ultimately show ?thesis
      using run out m3 rq switch(6,7) cur by (intro exI [of _ "fst ?f"] exI [of _ "snd ?f"]) simp
  qed
qed

text \<open>The small machine with one thread beside the boot context, which runs on the boot stack.\<close>

definition boot_regs :: Regs where
  "boot_regs = \<lparr> gprs = replicate 15 7, reg_rip = 2129920, reg_cs = 8, reg_rsp = 3211264, reg_ss = 16 \<rparr>"

lemma sample_with_thread:
  assumes s': "sched_inv s'" "states s' = (states boot_sched)[1 := Ready]" "kinds s' = (kinds boot_sched)[1 := kd]"
  obtains m where "threads_inv m" "m_canary_failures m = 0" "regs_fit m boot_regs" "entry_frame m boot_regs = Some 3211088" "m_sched m = s'"
    "{3211088 ..< 3211088 + 176} \<inter> {ctx_rsp (slot_context (m_slots m ! 1)) ..< ctx_rsp (slot_context (m_slots m ! 1)) + 176} = {}"
proof -
  let ?m = sample_machine
  have b: "m_sched ?m = boot_sched" by (simp add: sample_machine_def)
  have t: "1 < MAX_THREADS" "states (m_sched ?m) ! 1 = Unused" by (simp_all add: MAX_THREADS_def b boot_sched(2))
  from sample_machine_inv t assms [folded b] show thesis
  proof (cases rule: stack_step)
    case (none fa)
    moreover from this(1) have "fa = sample_fa" by (simp add: sample_machine_def frames_of_def spin_lock_new_def)
    ultimately show thesis using sample_free(1) by blast
  next
    case (some m2 g fa r fb)
    let ?p = "placed m2 1 g frame_zero 0 False"
    have fa: "fa = sample_fa" using some(10) by (simp add: sample_machine_def frames_of_def spin_lock_new_def)
    have "r + 3 \<in> free_set sample_fa" using some(11) fa by auto
    then have "range_start g \<le> 1064960" using some(12) fa by (simp add: free_set_def frame_addr_def sample_fa_def PAGE_SIZE_def)
    moreover have "ctx_rsp (slot_context (m_slots ?p ! 1)) = range_start g + 16208" using some(3,5) by (simp add: placed_slots SIZE_OF_IRQ_FRAME_def)
    moreover have "k_cpu (m_kernel ?p) = \<lparr> rflags = 2, held = 0 \<rparr>" "m_canary_failures ?p = 0" "m_sched ?p = s'"
      by (simp_all add: some(13) placed_def Let_def set_mem_def set_frames_def sample_machine_def sample_kernel_def)
    moreover from this have "regs_fit ?p boot_regs" "entry_frame ?p boot_regs = Some 3211088"
      by (simp_all add: regs_fit_def entry_frame_def boot_regs_def U64_MAX_def usub_def list_all_iff)
    ultimately show thesis
      using some(8) by (intro that [of ?p]) (auto simp: joins_def)
  qed
qed

lemma boot_unused: "position (\<lambda>st. st = Unused) (states boot_sched) = Some 1"
  by (simp add: boot_sched(2) position_Some_iff)

theorem interrupt_switches_witness:
  "\<exists>m m' r. threads_inv m \<and> irq_common m boot_regs TIMER_VECTOR = Some (m', r) \<and> current (m_sched m) = 0 \<and> current (m_sched m') = 1 \<and> fst (saved_regs m' 0) = boot_regs"
proof -
  obtain s' where s': "sched_inv s'" "ready_queue s' = [1]" "states s' = (states boot_sched)[1 := Ready]" "kinds s' = (kinds boot_sched)[1 := Normal]"
    "current s' = 0" "switches s' = 0" "ticks s' = 0"
    using create_refines [OF boot_sched(1)] boot_unused boot_sched(4-7) by (auto simp: sched_rest_def)
  obtain m where m: "threads_inv m" "m_canary_failures m = 0" "regs_fit m boot_regs" "entry_frame m boot_regs = Some 3211088" "m_sched m = s'"
    "{3211088 ..< 3211088 + 176} \<inter> {ctx_rsp (slot_context (m_slots m ! 1)) ..< ctx_rsp (slot_context (m_slots m ! 1)) + 176} = {}"
    using sample_with_thread [OF s'(1,3,4)] by blast
  have c: "m_canary_failures m < 2 ^ 64" "current (m_sched m) \<noteq> NO_THREAD" "switches (m_sched m) < U64_MAX" "ticks (m_sched m) < U64_MAX"
    using m(2,5) s'(5-7) by (simp_all add: rust_consts)
  have "\<forall>t \<in> set (ready_queue (m_sched m)). {3211088 ..< 3211088 + 176} \<inter> {ctx_rsp (slot_context (m_slots m ! t)) ..< ctx_rsp (slot_context (m_slots m ! t)) + 176} = {}"
    using m(5,6) s'(2) by simp
  note t = interrupt_switches [OF m(1) c(1) m(3,4) _ disjI1 [OF refl] c(2-4) this]
  obtain m' r' where "irq_common m boot_regs TIMER_VECTOR = Some (m', r')" "exchanged m boot_regs 0 1 m' r'" "current (m_sched m') = 1"
    using t m(5) s'(2,5) by auto
  then show ?thesis using m(1,5) s'(5) by (intro exI [of _ m] exI [of _ m'] exI [of _ r']) (simp add: exchanged_def)
qed

text \<open>The thread that follows an exit.\<close>

definition successor :: "Scheduler \<Rightarrow> nat" where
  "successor s = (case ready_queue s of [] \<Rightarrow> idle s | t # _ \<Rightarrow> t)"

lemma exit_next:
  assumes inv: "sched_inv s" and cur: "current s \<noteq> NO_THREAD" "current s \<noteq> idle s" "idle s \<noteq> NO_THREAD" and sw: "switches s < U64_MAX"
  shows "\<exists>s'. exit_current s = Some (s', Inr (Switch (current s) (successor s))) \<and> sched_inv s' \<and>
      states s' = (states s)[current s := Exited, successor s := Running] \<and> kinds s' = kinds s \<and> current s' = successor s \<and>
      ready_queue s' = tl (ready_queue s) \<and> successor s < MAX_THREADS \<and> states s ! successor s = Ready \<and> successor s \<noteq> current s"
proof -
  obtain s' r where r: "exit_current s = Some (s', r)" "r \<noteq> Inl NothingToRun \<longrightarrow> sched_inv s'" using exit_refines [OF inv sw] cur by blast
  have tab: "table_inv (states s) (kinds s) (ready_queue s) (current s) (idle s)" using inv by (simp add: sched_inv_def)
  show ?thesis
  proof (cases "ready_queue s")
    case Nil
    have i: "idle s < MAX_THREADS" using tab cur(3) by (simp add: table_inv_def)
    have "states s ! idle s = Ready" using table_inv_slot [OF tab i] cur(2) by (auto simp: slot_ok_def)
    then show ?thesis using exit_no_ready [OF inv cur(1) Nil sw] r i cur Nil by (auto simp: successor_def)
  next
    case (Cons t ts)
    note ready = ready_slot [OF inv, of t, unfolded Cons, simplified]
    obtain s'' where "exit_current s = Some (s'', Inr (Switch (current s) t))" "ready_queue s'' = ts"
      "sched_rest s'' = ((states s)[current s := Exited, t := Running], kinds s, t, idle s, ticks s, switches s + 1)"
      using exit_ready [OF inv cur(1) Cons sw] by blast
    then show ?thesis using r ready Cons by (auto simp: successor_def sched_rest_def)
  qed
qed

lemma irq_decision_exit:
  assumes "take_bit 8 (f_vector (load_frame (k_mem (m_kernel m)) a)) = v" "v = EXIT_VECTOR \<or> v = SYSCALL_VECTOR" "cpu_fine m"
    and "exit_current (m_sched m) = Some (s', Inr d)" "f_cs (load_frame (k_mem (m_kernel m)) a) = cs"
  shows "irq_decision m a = Some (m\<lparr>m_sched := s', m_ports := m_ports m, m_syscall_cs := (if v = SYSCALL_VECTOR then cs else m_syscall_cs m),
    m_reached_cpl3 := (m_reached_cpl3 m \<or> v = SYSCALL_VECTOR)\<rparr>, d)"
  using assms by (auto simp: irq_decision_def exit_thread_def on_syscall_def with_sched_eq rust_consts)

text \<open>
  C36. An exit, by the thread itself or through the system call of a user thread: the thread is marked
  exited and the next ready thread, or the idle thread, continues from its saved registers.  The exited thread
  keeps its stack, on which the handler still runs, until a later interrupt reaps it; the stacks of
  threads that had exited before become free.  The system call records the code segment it came from.
\<close>

theorem exit_switches_away:
  assumes "threads_inv m" "m_canary_failures m < 2 ^ 64" "regs_fit m r" "entry_frame m r = Some a" "v = EXIT_VECTOR \<or> v = SYSCALL_VECTOR"
    and "current (m_sched m) \<noteq> NO_THREAD" "current (m_sched m) \<noteq> idle (m_sched m)" "idle (m_sched m) \<noteq> NO_THREAD" "switches (m_sched m) < U64_MAX"
    and "{a ..< a + 176} \<inter> {ctx_rsp (slot_context (m_slots m ! successor (m_sched m))) ..< ctx_rsp (slot_context (m_slots m ! successor (m_sched m))) + 176} = {}"
  shows "\<exists>m' r'. irq_common m r v = Some (m', r') \<and> threads_inv m' \<and> exchanged m r (current (m_sched m)) (successor (m_sched m)) m' r' \<and>
    current (m_sched m') = successor (m_sched m) \<and> exited_ids m' = {current (m_sched m)} \<and>
    stack (m_slots m' ! current (m_sched m)) = stack (m_slots m ! current (m_sched m)) \<and> freed_by_reaping m m' \<and>
    (v = SYSCALL_VECTOR \<longrightarrow> m_reached_cpl3 m' \<and> m_syscall_cs m' = reg_cs r)"
proof -
  let ?s = "m_sched m" and ?c = "current (m_sched m)" and ?e = "entered m r v a" and ?t = "successor (m_sched m)"
  have v: "v < 256" using assms(5) by (auto simp: rust_consts)
  obtain fa m1 where re: "frames_of (m_kernel m) = Some fa" "reap_exited ?e = Some m1" "reaped ?e fa m1" using reap_entered [OF assms(1,2,4)] by blast
  have e: "threads_inv ?e" using assms(1) by simp
  note R = reaped_keeps [OF re(3) e]
  have inv: "sched_inv ?s" "sched_inv (m_sched m1)" using assms(1) R(1) by (simp_all add: threads_inv_def)
  have ex1: "exited_ids m1 = {}" using re(3) by (simp add: reaped_def)
  have len: "length (states (m_sched m1)) = MAX_THREADS" using sched_inv_lengths [OF inv(2)] by simp
  have suc: "successor (m_sched m1) = ?t" "current (m_sched m1) = ?c" using R(5-7) by (simp_all add: successor_def split: list.split)
  obtain s' where s': "exit_current (m_sched m1) = Some (s', Inr (Switch ?c ?t))" "sched_inv s'" "states s' = (states (m_sched m1))[?c := Exited, ?t := Running]"
    "kinds s' = kinds (m_sched m1)" "current s' = ?t"
    using exit_next [OF inv(2)] assms(6-9) R(6,7,9) suc by auto
  have t: "?t < MAX_THREADS" "states ?s ! ?t = Ready" "?t \<noteq> ?c" using exit_next [OF inv(1) assms(6-9)] by blast+
  have cs: "f_cs (load_frame (k_mem (m_kernel m1)) a) = reg_cs r"
    using read_entered [OF assms(3) v, of a] entry_words_nth(3) [OF assms(3)] R(3) by (simp add: load_frame_def frame_of_words_def)
  define m2 where "m2 = m1\<lparr>m_sched := s', m_ports := m_ports m1, m_syscall_cs := (if v = SYSCALL_VECTOR then reg_cs r else m_syscall_cs m1),
    m_reached_cpl3 := (m_reached_cpl3 m1 \<or> v = SYSCALL_VECTOR)\<rparr>"
  have dec: "irq_decision m1 a = Some (m2, Switch ?c ?t)"
    using irq_decision_exit [OF vector_read [OF assms(3) v R(3)] assms(5) R(2) s'(1) cs] by (simp add: m2_def)
  let ?p = "ctx_rsp (slot_context (m_slots m ! ?t))"
  obtain m3 where m3: "switch_to m2 ?c ?t a = Some (m3, ?p)" "?p \<noteq> 0" "m_sched m3 = s'" "m_syscall_cs m3 = (if v = SYSCALL_VECTOR then reg_cs r else m_syscall_cs m1)"
    "m_reached_cpl3 m3 = (m_reached_cpl3 m1 \<or> v = SYSCALL_VECTOR)" "stack (m_slots m3 ! ?c) = stack (m_slots m ! ?c)"
    "threads_inv (fst (irq_return m3 ?p))" "exchanged m r ?c ?t (fst (irq_return m3 ?p)) (snd (irq_return m3 ?p))"
    using switch_exchanges [OF assms(1,3) v re(3) refl assms(6) t s'(2-4) _ assms(10) m2_def] by (auto simp: Let_def)
  let ?f = "irq_return m3 ?p"
  have run: "irq_common m r v = Some (fst ?f, snd ?f)"
    using irq_entry_eq [OF assms(4), of v] m3(1,2) dec by (simp add: irq_common_def irq_handler_def re(2))
  have "exited_ids (fst ?f) = {?c}"
    using ex1 m3(3) s'(3) len t(3) current_slot [OF inv(1) assms(6)] by (auto simp: exited_ids_def nth_list_update' split: if_splits)
  moreover have "freed_by_reaping m (fst ?f)" by (rule reaped_freed [OF re(3,1)]) (use switch_to_frames [OF m3(1)] R(2) m2_def in simp)
  ultimately show ?thesis
    using run m3 s'(5) by (intro exI [of _ "fst ?f"] exI [of _ "snd ?f"]) simp
qed

theorem exit_switches_away_witness:
  "\<exists>m m' r. threads_inv m \<and> irq_common m boot_regs EXIT_VECTOR = Some (m', r) \<and> current (m_sched m') = 1 \<and> exited_ids m' = {0}"
proof -
  let ?s = "boot_sched\<lparr>states := (states boot_sched)[1 := Ready], kinds := (kinds boot_sched)[1 := Idle], idle := 1\<rparr>"
  have i: "idle boot_sched = NO_THREAD" by (simp add: boot_sched_def register_boot_def sched_new_def index_set_def MAX_THREADS_def)
  then have "register_idle_any boot_sched = Some (?s, Inr 1)" using register_idle_any_refines [OF boot_sched(1)] boot_unused by simp
  then have s: "sched_inv ?s" by (rule register_idle_any_inv [OF boot_sched(1)])
  obtain m where m: "threads_inv m" "m_canary_failures m = 0" "regs_fit m boot_regs" "entry_frame m boot_regs = Some 3211088" "m_sched m = ?s"
    "{3211088 ..< 3211088 + 176} \<inter> {ctx_rsp (slot_context (m_slots m ! 1)) ..< ctx_rsp (slot_context (m_slots m ! 1)) + 176} = {}"
    by (rule sample_with_thread [OF s]) simp_all
  have c: "m_canary_failures m < 2 ^ 64" "current (m_sched m) \<noteq> NO_THREAD" "current (m_sched m) \<noteq> idle (m_sched m)" "idle (m_sched m) \<noteq> NO_THREAD"
    "switches (m_sched m) < U64_MAX" using m(2,5) boot_sched(4,6) by (simp_all add: rust_consts)
  have suc: "successor (m_sched m) = 1" using m(5) boot_sched(5) by (simp add: successor_def)
  show ?thesis
    using exit_switches_away [OF m(1) c(1) m(3,4) disjI1 [OF refl] c(2-5)] m(1,5,6) suc boot_sched(4) by auto
qed

text \<open>
  C37. Reaping ends: it returns after at most one round per exited thread.  Then no thread is
  exited, exactly the stacks of the threads that were have become free memory, one failure is counted
  per broken canary, and the queue, the running thread, all other slots and memory are as before.
\<close>

theorem reaping_ends:
  assumes "threads_inv m" "frames_of (m_kernel m) = Some fa" "m_canary_failures m < 2 ^ 64"
  shows "\<exists>m' fa' s' ss. reap_exited m = Some m' \<and> threads_inv m' \<and> exited_ids m' = {} \<and>
    m' = m\<lparr>m_kernel := set_frames (Some fa') (m_kernel m), m_sched := s', m_slots := ss,
      m_canary_failures := (m_canary_failures m + card {u \<in> exited_ids m. canary_broken m u}) mod 2 ^ 64\<rparr> \<and>
    free_set fa' = free_set fa \<union> (\<Union>u \<in> exited_ids m. stack_frames fa (m_slots m ! u)) \<and>
    ready_queue s' = ready_queue (m_sched m) \<and> current s' = current (m_sched m) \<and>
    (\<forall>u < MAX_THREADS. u \<notin> exited_ids m \<longrightarrow> states s' ! u = states (m_sched m) ! u \<and> ss ! u = m_slots m ! u)"
proof -
  obtain m' where m': "reap_exited m = Some m'" "reaped m fa m'" using reap_exited_eq [OF assms] by blast
  then obtain fa' s' ss where r: "m' = revised m fa' s' ss ((m_canary_failures m + card {u \<in> exited_ids m. canary_broken m u}) mod 2 ^ 64)"
    "free_set fa' = free_set fa \<union> (\<Union>u \<in> exited_ids m. stack_frames fa (m_slots m ! u))"
    "ready_queue s' = ready_queue (m_sched m)" "current s' = current (m_sched m)"
    "\<forall>u < MAX_THREADS. if u \<in> exited_ids m then states s' ! u = Unused \<and> stack (ss ! u) = None
       else states s' ! u = states (m_sched m) ! u \<and> kinds s' ! u = kinds (m_sched m) ! u \<and> ss ! u = m_slots m ! u"
    unfolding reaped_def by blast
  have "states s' ! u = states (m_sched m) ! u \<and> ss ! u = m_slots m ! u" if "u < MAX_THREADS" "u \<notin> exited_ids m" for u
    using r(5) that by simp
  then show ?thesis
    using m' r(1-4) unfolding reaped_def revised_def by (intro exI [of _ m'] exI [of _ fa'] exI [of _ s'] exI [of _ ss]) blast
qed

text \<open>The small machine after its thread has exited.\<close>

lemma sample_exited: "\<exists>m fa. threads_inv m \<and> frames_of (m_kernel m) = Some fa \<and> m_canary_failures m = 0 \<and> exited_ids m = {1}"
proof -
  let ?x = "boot_sched\<lparr>states := (states boot_sched)[1 := Exited]\<rparr>"
  have tab: "table_inv (states boot_sched) (kinds boot_sched) (ready_queue boot_sched) (current boot_sched) (idle boot_sched)" and ring: "ring_wf boot_sched"
    using boot_sched(1) by (simp_all add: sched_inv_def)
  have l: "length (states boot_sched) = MAX_THREADS" "length (kinds boot_sched) = MAX_THREADS" using tab by (simp_all add: table_inv_def)
  have one: "slot_ok (set (ready_queue boot_sched)) (current boot_sched) (idle boot_sched) 1 Unused (kinds boot_sched ! 1)"
    using table_inv_slot [OF tab, of 1] by (simp add: boot_sched(2) MAX_THREADS_def)
  have st: "states ?x ! t = (if t = 1 then Exited else states boot_sched ! t)" if "t < MAX_THREADS" for t using that l by (simp add: nth_list_update')
  have alive: "states boot_sched ! t \<noteq> Exited" if "t < MAX_THREADS" for t using that by (cases t) (simp_all add: boot_sched(2) MAX_THREADS_def)
  have "slot_ok (set (ready_queue boot_sched)) (current boot_sched) (idle boot_sched) t (states ?x ! t) (kinds boot_sched ! t)" if "t < MAX_THREADS" for t
    using table_inv_slot [OF tab that] one unfolding st [OF that] by (cases "t = 1") (auto simp: slot_ok_def)
  then have x: "sched_inv ?x" using tab ring by (simp add: sched_inv_def table_inv_def)
  obtain s' where s': "sched_inv s'" "states s' = (states boot_sched)[1 := Ready]" "kinds s' = (kinds boot_sched)[1 := Normal]"
    using create_refines [OF boot_sched(1)] boot_unused by (auto simp: sched_rest_def)
  obtain m where m: "threads_inv m" "m_canary_failures m = 0" "m_sched m = s'" using sample_with_thread [OF s'] by blast
  then obtain fa where fa: "frames_of (m_kernel m) = Some fa" "fa_inv fa" "slots_inv fa s' (m_slots m)" "kernel_idle (m_kernel m)" by (auto simp: threads_inv_def)
  have "slots_inv fa ?x (m_slots m)"
  proof -
    have "slot_inv fa (states ?x ! t) (kinds ?x ! t) (m_slots m ! t)" if "t < MAX_THREADS" for t
    proof -
      have "slot_inv fa (states s' ! t) (kinds s' ! t) (m_slots m ! t)" using fa(3) that by (simp add: slots_inv_def)
      then show ?thesis
        using that s'(2,3) l unfolding st [OF that] by (cases "t = 1") (simp_all add: slot_inv_def split: option.splits)
    qed
    then show ?thesis using fa(3) unfolding slots_inv_def by simp
  qed
  then have "threads_inv (m\<lparr>m_sched := ?x\<rparr>)" using x fa by (auto simp: threads_inv_def)
  moreover have "exited_ids (m\<lparr>m_sched := ?x\<rparr>) = {1}"
    using st alive by (auto simp: exited_ids_def MAX_THREADS_def split: if_splits)
  ultimately show ?thesis using fa(1) m(2) by (intro exI [of _ "m\<lparr>m_sched := ?x\<rparr>"] exI [of _ fa]) simp
qed

theorem reaping_ends_witness:
  "\<exists>m m'. exited_ids m = {1} \<and> reap_exited m = Some m' \<and> threads_inv m' \<and> exited_ids m' = {}"
proof -
  obtain m fa where "threads_inv m" "frames_of (m_kernel m) = Some fa" "m_canary_failures m < 2 ^ 64" "exited_ids m = {1}" using sample_exited by auto
  then show ?thesis using reaping_ends [of m fa] by blast
qed

end
