(* ===== verification/User_Service.thy ===== *)
theory User_Service
  imports Interrupts
begin

text \<open>
  The first user service, \<^verbatim>\<open>src/crates/kernel/src/user.rs\<close>, and the bounded waits of
  \<^verbatim>\<open>src/crates/kernel/src/sched.rs\<close>: the kernel maps the image and a stack for user mode, creates the service's thread
  and waits for it.

  A wait runs while interrupts change the machine.  What it observes is an argument: the value of the
  condition, or of the clock, at each of its reads.
\<close>

section \<open>The model\<close>

definition USER_STACK_PAGES :: usize where [rust_consts]: "USER_STACK_PAGES = 4"
definition USER_STACK_VA :: u64 where [rust_consts]: "USER_STACK_VA = USER_BASE + 0x200000"

datatype InitError =
    NoUserImage
  | NoUserStack
  | MapUserFailed UserMapError
  | ThreadFailed CreateError

definition user_init :: "Machine \<Rightarrow> BootInfo \<Rightarrow> (Machine \<times> (InitError + usize)) panics" where
  "user_init m boot_info =
     (if \<not> has_user_image boot_info then Some (m, Inl NoUserImage)
      else do {
        (m, g) \<leftarrow> on_kernel (\<lambda>k. alloc_frames k USER_STACK_PAGES) m;
        case g of
          None \<Rightarrow> Some (m, Inl NoUserStack)
        | Some g \<Rightarrow> do {
            let (address, arena, pml4_offset, first_free) = page_arena (m_kernel m);
            size \<leftarrow> umul USER_STACK_PAGES 4096;
            let mappings =
              [\<lparr> mp_vaddr = user_vaddr boot_info, mp_paddr = user_phys boot_info, mp_size = user_size boot_info, mp_writable = False \<rparr>,
               \<lparr> mp_vaddr = USER_STACK_VA, mp_paddr = range_start g, mp_size = size, mp_writable = True \<rparr>];
            (arena, r) \<leftarrow> map_user_region address arena pml4_offset first_free mappings;
            let m = m\<lparr>m_kernel := (m_kernel m)\<lparr>k_arena := arena\<rparr>\<rparr>;
            case r of
              Inl e \<Rightarrow> Some (m, Inl (MapUserFailed e))
            | Inr mapped \<Rightarrow> do {
                (m, t) \<leftarrow> sched_ticks m;
                let m = m\<lparr>m_ticks_before := t\<rparr>;
                n \<leftarrow> umul 4096 USER_STACK_PAGES;
                sp \<leftarrow> uadd USER_STACK_VA n;
                (m, r) \<leftarrow> create_user m (BootInfo.user_entry boot_info) sp;
                case r of
                  Inl e \<Rightarrow> Some (m, Inl (ThreadFailed e))
                | Inr tid \<Rightarrow> Some (m\<lparr>m_service := tid\<rparr>, Inr tid)
              }
          }
      })"

definition reached_cpl3 :: "Machine \<Rightarrow> bool" where
  "reached_cpl3 m = m_reached_cpl3 m"

definition syscall_cs :: "Machine \<Rightarrow> u64" where
  "syscall_cs m = m_syscall_cs m"

definition elapsed_ticks :: "Machine \<Rightarrow> (Machine \<times> u64) panics" where
  "elapsed_ticks m = do { (m, t) \<leftarrow> sched_ticks m; Some (m, saturating_sub t (m_ticks_before m)) }"

function wait_until_from :: "(nat \<Rightarrow> bool) \<Rightarrow> u64 \<Rightarrow> u64 \<Rightarrow> bool" where
  "wait_until_from predicate budget spins =
     (if predicate spins then True
      else if spins \<ge> budget then False
      else wait_until_from predicate budget (spins + 1))"
  by pat_completeness auto

termination
  by (relation "measure (\<lambda>(predicate, budget, spins). budget - spins)") auto

declare wait_until_from.simps [simp del]

definition wait_until :: "(nat \<Rightarrow> bool) \<Rightarrow> u64 \<Rightarrow> bool" where
  "wait_until predicate budget = wait_until_from predicate budget 0"

definition SPIN_BUDGET :: u64 where [rust_consts]: "SPIN_BUDGET = 200000000"

function wait_for_ticks_from :: "(nat \<Rightarrow> u64) \<Rightarrow> u64 \<Rightarrow> u64 \<Rightarrow> u64 option" where
  "wait_for_ticks_from clock wanted spins =
     (let t = clock spins in
      if t \<ge> wanted then Some t
      else if spins \<ge> SPIN_BUDGET then None
      else wait_for_ticks_from clock wanted (spins + 1))"
  by pat_completeness auto

termination
  by (relation "measure (\<lambda>(clock, wanted, spins). SPIN_BUDGET - spins)") auto

declare wait_for_ticks_from.simps [simp del]

definition wait_for_ticks :: "(nat \<Rightarrow> u64) \<Rightarrow> u64 \<Rightarrow> u64 option" where
  "wait_for_ticks clock wanted = wait_for_ticks_from clock wanted 0"

section \<open>Waiting\<close>

lemma wait_until_iff: "wait_until predicate budget \<longleftrightarrow> (\<exists>i \<le> budget. predicate i)"
proof -
  have "wait_until_from predicate budget k \<longleftrightarrow> (\<exists>i. k \<le> i \<and> i \<le> budget \<and> predicate i)" if "k \<le> budget" for k
    using that
  proof (induction predicate budget k rule: wait_until_from.induct)
    case (1 predicate budget k)
    show ?case
    proof (cases "predicate k \<or> budget \<le> k")
      case True
      then have "wait_until_from predicate budget k = predicate k" by (subst wait_until_from.simps) auto
      then show ?thesis using True 1(2) by (auto intro: exI [of _ k] dest: le_antisym)
    next
      case False
      then have "wait_until_from predicate budget k = wait_until_from predicate budget (k + 1)" by (subst wait_until_from.simps) auto
      also have "\<dots> \<longleftrightarrow> (\<exists>i. k + 1 \<le> i \<and> i \<le> budget \<and> predicate i)" using 1(1) False by simp
      also have "\<dots> \<longleftrightarrow> (\<exists>i. k \<le> i \<and> i \<le> budget \<and> predicate i)" using False by (metis Suc_eq_plus1 Suc_leD le_antisym not_less_eq_eq)
      finally show ?thesis .
    qed
  qed
  then show ?thesis by (simp add: wait_until_def)
qed

lemma wait_for_ticks_first:
  assumes "i \<le> SPIN_BUDGET" "wanted \<le> clock i" "\<forall>j < i. clock j < wanted"
  shows "wait_for_ticks clock wanted = Some (clock i)"
proof -
  have "wait_for_ticks_from clock wanted k = Some (clock i)" if "k \<le> i" for k
    using that assms
  proof (induction clock wanted k rule: wait_for_ticks_from.induct)
    case (1 clock wanted k)
    show ?case
    proof (cases "k = i")
      case True
      then show ?thesis using 1(4) by (subst wait_for_ticks_from.simps) simp
    next
      case False
      then have "k < i" using 1(2) by simp
      then have "\<not> wanted \<le> clock k" "\<not> SPIN_BUDGET \<le> k" "k + 1 \<le> i" using 1(3,5) by (auto simp: not_le)
      then show ?thesis using 1 by (subst wait_for_ticks_from.simps) (simp add: Let_def)
    qed
  qed
  then show ?thesis by (simp add: wait_for_ticks_def)
qed

lemma wait_for_ticks_None:
  assumes "\<forall>j \<le> SPIN_BUDGET. clock j < wanted"
  shows "wait_for_ticks clock wanted = None"
proof -
  have "wait_for_ticks_from clock wanted k = None" if "k \<le> SPIN_BUDGET" for k
    using that assms
    by (induction clock wanted k rule: wait_for_ticks_from.induct) (subst wait_for_ticks_from.simps, auto simp: Let_def not_le)
  then show ?thesis by (simp add: wait_for_ticks_def)
qed

section \<open>Starting the service\<close>

lemma threads_inv_cong:
  "kernel_idle (m_kernel m') = kernel_idle (m_kernel m) \<Longrightarrow> frames_of (m_kernel m') = frames_of (m_kernel m) \<Longrightarrow> m_sched m' = m_sched m \<Longrightarrow>
    m_slots m' = m_slots m \<Longrightarrow> threads_inv m' = threads_inv m"
  by (simp add: threads_inv_def)

lemma threads_inv_taken:
  assumes "threads_inv m" "frames_of (m_kernel m) = Some fa" "fa_inv fa'" "fa_frame fa' = fa_frame fa" "free_set fa' \<subseteq> free_set fa"
  shows "threads_inv (m\<lparr>m_kernel := set_frames (Some fa') (m_kernel m)\<rparr>)"
proof -
  have "slots_inv fa (m_sched m) (m_slots m)" using assms(1,2) by (auto simp: threads_inv_def)
  then have "slots_inv fa' (m_sched m) (m_slots m)" using slot_inv_mono [OF _ assms(4,5)] unfolding slots_inv_def by blast
  then show ?thesis using assms(1,3) by (simp add: threads_inv_def)
qed

lemma run_left:
  assumes "{s ..< s + 11} \<subseteq> F"
  shows "\<exists>q. {q ..< q + 4} \<subseteq> F - {r ..< r + 4 :: nat}"
proof (cases "r + 4 \<le> s + 7")
  case True
  then have "{s + 7 ..< s + 7 + 4} \<subseteq> F - {r ..< r + 4}" using assms by auto
  then show ?thesis by blast
next
  case False
  then have "{s ..< s + 4} \<subseteq> F - {r ..< r + 4}" using assms by auto
  then show ?thesis by blast
qed

text \<open>The mappings the service asks for.\<close>

definition service_mappings :: "BootInfo \<Rightarrow> PhysRange \<Rightarrow> Mapping list" where
  "service_mappings bi g =
     [\<lparr> mp_vaddr = user_vaddr bi, mp_paddr = user_phys bi, mp_size = user_size bi, mp_writable = False \<rparr>,
      \<lparr> mp_vaddr = USER_STACK_VA, mp_paddr = range_start g, mp_size = 16384, mp_writable = True \<rparr>]"

definition image_fits :: "BootInfo \<Rightarrow> bool" where
  "image_fits bi \<longleftrightarrow> 4096 dvd user_vaddr bi \<and> 4096 dvd user_phys bi \<and> 4096 dvd user_size bi \<and> USER_BASE \<le> user_vaddr bi \<and>
     user_vaddr bi + user_size bi \<le> USER_STACK_VA \<and> user_phys bi + user_size bi \<le> 2 ^ 52"

lemma service_mappings_ok:
  assumes "image_fits bi" "0 < user_size bi" "4096 dvd range_start g" "range_start g + 16384 \<le> 2 ^ 52"
  shows "\<forall>x \<in> set (service_mappings bi g). mapping_ok x \<and> mp_paddr x + mp_size x \<le> 2 ^ 52" "mappings_apart (service_mappings bi g)"
    "slots (service_mappings bi g) = 2"
proof -
  have i: "4096 dvd user_vaddr bi" "4096 dvd user_phys bi" "4096 dvd user_size bi" "4294967296 \<le> user_vaddr bi"
    "user_vaddr bi + user_size bi \<le> 4297064448" "user_phys bi + user_size bi \<le> 2 ^ 52"
    using assms(1) by (simp_all add: image_fits_def rust_consts)
  show "\<forall>x \<in> set (service_mappings bi g). mapping_ok x \<and> mp_paddr x + mp_size x \<le> 2 ^ 52"
    using i assms(2-4) by (simp add: service_mappings_def mapping_ok_def rust_consts)
  show "mappings_apart (service_mappings bi g)"
    using i(5) assms(2) by (auto simp: service_mappings_def mappings_apart_def rust_consts)
  show "slots (service_mappings bi g) = 2"
    using i(4,5) assms(2) by (simp add: service_mappings_def slots_def last_slot_def rust_consts)
qed

definition build_arena :: "Kernel \<Rightarrow> bool" where
  "build_arena k \<longleftrightarrow> length (k_arena k) = ARENA_BYTES \<and> k_arena_at k + ARENA_BYTES \<le> 2 ^ 52 \<and>
     (\<exists>m a r. map_wf m \<and> length a = ARENA_BYTES \<and> build (k_arena_at k) a m PagingConfig_M2 = Some (k_arena k, Inr r))"

lemma service_maps:
  assumes arena: "build_arena k" and img: "image_fits bi" "0 < user_size bi" and g: "4096 dvd range_start g" "range_start g + 16384 \<le> 2 ^ 52"
  shows "\<exists>a u. map_user_region (k_arena_at k) (k_arena k) 0 (KERNEL_TABLE_PAGES * PAGE_SIZE) (service_mappings bi g) = Some (a, Inr u) \<and>
    (\<forall>x \<in> set (service_mappings bi g). \<forall>d < mp_size x. walk (entry a) (k_arena_at k) 0 (mp_vaddr x + d) =
      Some \<lparr> phys = mp_paddr x + d, may_write = mp_writable x, may_user = True \<rparr>) \<and>
    (\<forall>va. USER_BASE \<le> va \<and> va < 2 ^ 48 \<and> (\<forall>x \<in> set (service_mappings bi g). va \<notin> {mp_vaddr x ..< mp_vaddr x + mp_size x}) \<longrightarrow>
      walk (entry a) (k_arena_at k) 0 va = None) \<and>
    (\<forall>va < USER_BASE. walk (entry a) (k_arena_at k) 0 va = walk (entry (k_arena k)) (k_arena_at k) 0 va)"
proof -
  obtain mp a0 r where b: "map_wf mp" "length a0 = ARENA_BYTES" "build (k_arena_at k) a0 mp PagingConfig_M2 = Some (k_arena k, Inr r)"
    and k: "length (k_arena k) = ARENA_BYTES" "k_arena_at k + ARENA_BYTES \<le> 2 ^ 52" using arena by (auto simp: build_arena_def)
  have c: "KERNEL_TABLE_PAGES = 7" "PAGE_SIZE = 4096" "ARENA_BYTES = 45056" "max_identity_bytes PagingConfig_M2 \<le> USER_BASE" "table_pages PagingConfig_M2 = 7"
    by (simp_all add: arena_constants PAGE_SIZE_def PagingConfig_M2_def MAX_IDENTITY_BYTES_def USER_BASE_def table_pages_def pds_of_def pts_of_def div_ceil_def rust_consts)
  have l: "length a0 \<le> ISIZE_MAX" "k_arena_at k + length a0 \<le> 2 ^ 52" "7 * 4096 \<le> U64_MAX" using b(2) k(2) c(3) by (simp_all add: rust_consts)
  have used: "pt_tables_used r \<le> 7" using build_summary [OF b(1) l(1,2) b(3)] c(5) by auto
  obtain fine where t: "kernel_tables (k_arena_at k) (k_arena k) 7" "\<not> present (entry (k_arena k) 1 4)"
    using built_tables [OF b(1) l(1,2) b(3) c(4) used l(3)] by blast
  note ok = service_mappings_ok [OF img g]
  have ne: "service_mappings bi g \<noteq> []" by (simp add: service_mappings_def)
  have "7 + 1 + slots (service_mappings bi g) \<le> length (k_arena k) div 4096" by (simp add: ok(3) k(1) c(3))
  then obtain a u where a: "map_user_region (k_arena_at k) (k_arena k) 0 (7 * 4096) (service_mappings bi g) = Some (a, Inr u)"
    using map_user_region_ok [OF t(1) _ t(2) ne ok(1,2)] by blast
  have "\<forall>x \<in> set (service_mappings bi g). mp_paddr x + mp_size x \<le> 2 ^ 52" using ok(1) by blast
  from user_region_walk [OF b(1) l(1,2) b(3) c(4) used l(3) a ne ok(2) this] show ?thesis using a unfolding c(1,2) by blast
qed

text \<open>The machine after the user stack has been taken.\<close>

lemma user_stack_taken:
  assumes "threads_inv m" "frames_of (m_kernel m) = Some fa" "{s ..< s + 11} \<subseteq> free_set fa"
  obtains fa' g r q where "on_kernel (\<lambda>k. alloc_frames k USER_STACK_PAGES) m = Some (m\<lparr>m_kernel := set_frames (Some fa') (m_kernel m)\<rparr>, Some g)"
    "threads_inv (m\<lparr>m_kernel := set_frames (Some fa') (m_kernel m)\<rparr>)" "fa_inv fa'" "fa_frame fa' = fa_frame fa" "stack_run fa' g r" "{r ..< r + 4} \<subseteq> free_set fa"
    "{q ..< q + 4} \<subseteq> free_set fa'"
proof -
  have k: "kernel_idle (m_kernel m)" "fa_inv fa" using assms(1,2) by (auto simp: threads_inv_def)
  have n: "USER_STACK_PAGES = THREAD_STACK_PAGES" by (simp add: rust_consts)
  from k(1) assms(2) k(2) show thesis
  proof (cases rule: alloc_stack)
    case none
    have "{s ..< s + 4} \<subseteq> free_set fa" using assms(3) by auto
    then show thesis using none(2) by blast
  next
    case (some fa' g r)
    obtain q where "{q ..< q + 4} \<subseteq> free_set fa - {r ..< r + 4}" using run_left [OF assms(3)] by blast
    then show thesis
      using that [of fa' g r q] some threads_inv_taken [OF assms(1,2) some(2,3)] by (auto simp: on_kernel_def n)
  qed
qed

lemma user_stack_low:
  assumes "fa_frame fa' = fa_frame fa" "stack_run fa' g r" "(fa_first_frame fa + fa_frames fa) * 4096 \<le> 2 ^ 52"
  shows "range_start g + 16384 \<le> 2 ^ 52"
proof -
  have "r + 3 < fa_frames fa'" using assms(2) by (auto simp: stack_run_def THREAD_STACK_PAGES_def)
  then have "(fa_first_frame fa' + r + 4) * 4096 \<le> (fa_first_frame fa' + fa_frames fa') * 4096" by (intro mult_le_mono1) simp
  moreover have "range_start g + 16384 = (fa_first_frame fa' + r + 4) * 4096" using assms(2) by (simp add: stack_run_def frame_addr_def PAGE_SIZE_def algebra_simps)
  ultimately show ?thesis using assms(1,3) by (simp add: fa_frame_def)
qed

text \<open>No kernel stack meets the user stack.\<close>

lemma user_stack_apart:
  assumes m: "threads_inv m" "frames_of (m_kernel m) = Some fa" and g: "fa_frame fa' = fa_frame fa" "stack_run fa' g r" "{r ..< r + 4} \<subseteq> free_set fa"
    and h: "range_len h = 16384" "{p ..< p + 4} \<subseteq> free_set fa'" "range_start h = frame_addr fa' p"
    and m': "joins m2 m' tid h" "m_slots m2 = m_slots m" and t: "t < MAX_THREADS" "stack (m_slots m' ! t) = Some h'"
  shows "range_bytes h' \<inter> range_bytes g = {}"
proof (cases "t = tid")
  case True
  have "range_bytes h = {frame_addr fa' p ..< frame_addr fa' (p + 4)}" using h(1,3) by (simp add: range_bytes_def frame_addr_def PAGE_SIZE_def algebra_simps)
  then show ?thesis using stack_run_free [OF g(2) h(2)] m'(1) t(2) True by (auto simp: joins_def)
next
  case False
  then have "stack (m_slots m ! t) = Some h'" using m' t by (simp add: joins_def)
  moreover have "slot_inv fa (states (m_sched m) ! t) (kinds (m_sched m) ! t) (m_slots m ! t)" using m t(1) by (auto simp: threads_inv_def slots_inv_def)
  ultimately obtain q where "stack_run fa h' q" by (auto simp: slot_inv_def)
  moreover have "frame_addr fa' i = frame_addr fa i" for i using g(1) by (simp add: frame_addr_def fa_frame_def)
  ultimately show ?thesis using stack_run_free [OF _ g(3)] stack_run_bytes [OF g(2)] by (simp add: THREAD_STACK_PAGES_def)
qed

lemma user_init_run:
  assumes "has_user_image bi" "threads_inv m" "on_kernel (\<lambda>k. alloc_frames k USER_STACK_PAGES) m = Some (m\<lparr>m_kernel := set_frames (Some fa') (m_kernel m)\<rparr>, Some g)"
    and a: "map_user_region (k_arena_at (m_kernel m)) (k_arena (m_kernel m)) 0 (KERNEL_TABLE_PAGES * PAGE_SIZE) (service_mappings bi g) = Some (a, Inr u)"
    and c: "create_user (m\<lparr>m_kernel := (set_frames (Some fa') (m_kernel m))\<lparr>k_arena := a\<rparr>, m_ticks_before := ticks (m_sched m)\<rparr>)
      (BootInfo.user_entry bi) (USER_STACK_VA + 16384) = Some (m', Inr tid)"
  shows "user_init m bi = Some (m'\<lparr>m_service := tid\<rparr>, Inr tid)"
proof -
  have cpu: "cpu_fine (m\<lparr>m_kernel := (set_frames (Some fa') (m_kernel m))\<lparr>k_arena := a\<rparr>\<rparr>)"
    using threads_inv_cpu [OF assms(2)] by (simp add: set_frames_def)
  have n: "umul USER_STACK_PAGES 4096 = Some 16384" "umul 4096 USER_STACK_PAGES = Some 16384" "uadd USER_STACK_VA 16384 = Some (USER_STACK_VA + 16384)"
    by (simp_all add: umul_def uadd_def rust_consts)
  have pa: "page_arena (set_frames (Some fa') (m_kernel m)) =
      (k_arena_at (m_kernel m), k_arena (m_kernel m), 0, KERNEL_TABLE_PAGES * PAGE_SIZE)"
    by (simp add: page_arena_def set_frames_def)
  have tk: "sched_ticks (m\<lparr>m_kernel := (set_frames (Some fa') (m_kernel m))\<lparr>k_arena := a\<rparr>\<rparr>) =
      Some (m\<lparr>m_kernel := (set_frames (Some fa') (m_kernel m))\<lparr>k_arena := a\<rparr>\<rparr>, ticks (m_sched m))"
    using cpu by (simp add: sched_ticks_def with_sched_eq sched_stats_def)
  show ?thesis
    using assms(1,3) a c by (simp add: user_init_def pa n tk Let_def service_mappings_def)
qed

text \<open>
  C40. Starting the user service on a kernel with page tables as built at boot, a free slot and enough free frames:
  the service's thread joins the ready queue with a user-mode frame at the image's entry point and the top of its
  stack.  In the page tables the image is mapped for user mode and read-only, the stack for user mode and writable on
  frames no kernel stack shares; every other address of the user region faults and the kernel's own mappings are
  as before.
\<close>

theorem user_service_starts:
  assumes m: "threads_inv m" "frames_of (m_kernel m) = Some fa" "{s ..< s + 11} \<subseteq> free_set fa" "position (\<lambda>st. st = Unused) (states (m_sched m)) = Some tid"
    and low: "(fa_first_frame fa + fa_frames fa) * 4096 \<le> 2 ^ 52" "m_trampoline_at m \<le> U64_MAX" and arena: "build_arena (m_kernel m)"
    and bi: "has_user_image bi" "BootInfo.user_entry bi \<le> U64_MAX" "image_fits bi"
  shows "\<exists>m' g. user_init m bi = Some (m', Inr tid) \<and> threads_inv m' \<and> m_service m' = tid \<and> m_ticks_before m' = ticks (m_sched m) \<and>
    ready_queue (m_sched m') = ready_queue (m_sched m) @ [tid] \<and> user (m_slots m' ! tid) \<and>
    (let f = saved_frame m' tid in f_rip f = BootInfo.user_entry bi \<and> f_rsp f = USER_STACK_VA + 16384 \<and> f_cs f = USER_CODE + 3 \<and> f_ss f = USER_DATA + 3) \<and>
    (let w = walk (entry (k_arena (m_kernel m'))) (k_arena_at (m_kernel m)) 0 in
      (\<forall>d < user_size bi. w (user_vaddr bi + d) = Some \<lparr> phys = user_phys bi + d, may_write = False, may_user = True \<rparr>) \<and>
      (\<forall>d < 16384. w (USER_STACK_VA + d) = Some \<lparr> phys = range_start g + d, may_write = True, may_user = True \<rparr>) \<and>
      (\<forall>va. USER_BASE \<le> va \<and> va < 2 ^ 48 \<and> va \<notin> {user_vaddr bi ..< user_vaddr bi + user_size bi} \<and> va \<notin> {USER_STACK_VA ..< USER_STACK_VA + 16384} \<longrightarrow> w va = None) \<and>
      (\<forall>va < USER_BASE. w va = walk (entry (k_arena (m_kernel m))) (k_arena_at (m_kernel m)) 0 va)) \<and>
    (\<forall>t < MAX_THREADS. \<forall>h. stack (m_slots m' ! t) = Some h \<longrightarrow> range_bytes h \<inter> range_bytes g = {})"
proof -
  obtain fa' g r q where T: "on_kernel (\<lambda>k. alloc_frames k USER_STACK_PAGES) m = Some (m\<lparr>m_kernel := set_frames (Some fa') (m_kernel m)\<rparr>, Some g)"
    "threads_inv (m\<lparr>m_kernel := set_frames (Some fa') (m_kernel m)\<rparr>)" "fa_inv fa'" "fa_frame fa' = fa_frame fa" "stack_run fa' g r"
    "{r ..< r + 4} \<subseteq> free_set fa" "{q ..< q + 4} \<subseteq> free_set fa'"
    using user_stack_taken [OF m(1-3)] by blast
  note g = stack_run_facts [OF T(3,5)]
  note top = user_stack_low [OF T(4,5) low(1)]
  have size: "0 < user_size bi" using bi(1) by (simp add: has_user_image_def)
  let ?m1 = "m\<lparr>m_kernel := set_frames (Some fa') (m_kernel m)\<rparr>"
  obtain a u where a: "map_user_region (k_arena_at (m_kernel m)) (k_arena (m_kernel m)) 0 (KERNEL_TABLE_PAGES * PAGE_SIZE) (service_mappings bi g) = Some (a, Inr u)"
    and W: "\<forall>x \<in> set (service_mappings bi g). \<forall>d < mp_size x. walk (entry a) (k_arena_at (m_kernel m)) 0 (mp_vaddr x + d) =
      Some \<lparr> phys = mp_paddr x + d, may_write = mp_writable x, may_user = True \<rparr>"
    "\<forall>va. USER_BASE \<le> va \<and> va < 2 ^ 48 \<and> (\<forall>x \<in> set (service_mappings bi g). va \<notin> {mp_vaddr x ..< mp_vaddr x + mp_size x}) \<longrightarrow>
      walk (entry a) (k_arena_at (m_kernel m)) 0 va = None"
    "\<forall>va < USER_BASE. walk (entry a) (k_arena_at (m_kernel m)) 0 va = walk (entry (k_arena (m_kernel m))) (k_arena_at (m_kernel m)) 0 va"
    using service_maps [OF arena bi(3) size g(4) top] by blast
  let ?m2 = "m\<lparr>m_kernel := (set_frames (Some fa') (m_kernel m))\<lparr>k_arena := a\<rparr>, m_ticks_before := ticks (m_sched m)\<rparr>"
  have "threads_inv ?m2 = threads_inv ?m1" by (rule threads_inv_cong) (simp_all add: kernel_idle_def frames_of_def)
  then have m2: "threads_inv ?m2" "frames_of (m_kernel ?m2) = Some fa'" "position (\<lambda>st. st = Unused) (states (m_sched ?m2)) = Some tid" "m_trampoline_at ?m2 \<le> U64_MAX"
    using T(2) m(4) low(2) by (simp_all add: frames_of_def set_frames_def)
  have "USER_STACK_VA + 16384 \<le> U64_MAX" by (simp add: rust_consts)
  from created_joins [OF m2(1) bi(2) m2(4) this m2(3,2) T(7)] obtain m' h p where C:
    "create_user ?m2 (BootInfo.user_entry bi) (USER_STACK_VA + 16384) = Some (m', Inr tid)" "joins ?m2 m' tid h"
    "ready_queue (m_sched m') = ready_queue (m_sched ?m2) @ [tid]" "user (m_slots m' ! tid)"
    "let f = saved_frame m' tid in f_rip f = BootInfo.user_entry bi \<and> f_rsp f = USER_STACK_VA + 16384 \<and> f_cs f = USER_CODE + 3 \<and> f_ss f = USER_DATA + 3 \<and> bit (f_rflags f) 9"
    "k_arena (m_kernel m') = k_arena (m_kernel ?m2)" "m_ticks_before m' = m_ticks_before ?m2"
    "range_len h = 16384" "{p ..< p + 4} \<subseteq> free_set fa'" "range_start h = frame_addr fa' p" by blast
  note run = user_init_run [OF bi(1) m(1) T(1) a C(1)]
  have apart: "\<forall>t < MAX_THREADS. \<forall>h'. stack (m_slots m' ! t) = Some h' \<longrightarrow> range_bytes h' \<inter> range_bytes g = {}"
    using user_stack_apart [OF m(1,2) T(4-6) C(8-10,2)] by simp
  let ?f = "m'\<lparr>m_service := tid\<rparr>"
  have inv: "threads_inv ?f" using C(2) threads_inv_cong [of ?f m'] by (simp add: joins_def)
  have f: "saved_frame ?f tid = saved_frame m' tid" by (simp add: saved_frame_def)
  show ?thesis
    by (intro exI [of _ ?f] exI [of _ g]) (use run inv C(3-7) apart W in \<open>simp add: f Let_def service_mappings_def\<close>)
qed

text \<open>A machine with sixteen free frames and the page tables of the sample memory map, and a handover with a user image.\<close>

definition wide_fa :: FrameAllocator where
  "wide_fa = \<lparr> fa_allocatable = [255, 255], fa_used = [0, 0], fa_first_frame = 256, fa_frames = 16, fa_free_frames = 16,
     fa_reserved = replicate 8 \<lparr> rsv_start = 0, rsv_end = 0 \<rparr>, fa_reserved_len = 0 \<rparr>"

definition sample_info :: BootInfo where
  "sample_info = boot_info_new\<lparr> user_phys := 3145728, user_size := 8192, user_vaddr := USER_BASE, user_entry := USER_BASE + 64 \<rparr>"

lemma wide_fa: "free_set wide_fa = {..<16}" "fa_inv wide_fa"
proof -
  have "list_all (free_at wide_fa) [0..<16]" by code_simp
  then show f: "free_set wide_fa = {..<16}" by (auto simp: list_all_iff free_set_def wide_fa_def simp del: upt_rec_numeral)
  have "\<not> reserved_at wide_fa a" for a by (simp add: reserved_at_def wide_fa_def)
  then show "fa_inv wide_fa" by (simp add: fa_inv_def f) (simp add: fa_shape_def wide_fa_def rust_consts)
qed

lemma service_arena: "\<exists>a. build_arena (sample_kernel\<lparr>k_frames := spin_lock_new (Some wide_fa), k_arena := a\<rparr>)"
proof -
  have c: "0 < build_limit 17825792 PagingConfig_M2" "max_identity_bytes PagingConfig_M2 \<le> MAX_IDENTITY_SUPPORTED"
    "fine_grained_bytes PagingConfig_M2 \<le> MAX_FINE_GRAINED_SUPPORTED" "table_pages PagingConfig_M2 = 7"
    by (simp_all add: build_limit_def PagingConfig_M2_def table_pages_def pds_of_def pts_of_def div_ceil_def rust_consts)
  have "arena_ok (k_arena_at sample_kernel) (length (k_arena sample_kernel)) (table_pages PagingConfig_M2)"
    by (simp add: arena_ok_def sample_kernel_def c(4) ISIZE_MAX_def)
  then obtain a r where "build (k_arena_at sample_kernel) (k_arena sample_kernel) sample_map PagingConfig_M2 = Some (a, Inr r)" "length a = length (k_arena sample_kernel)"
    using build_ok [OF _ sample_map_wf sample_top c(1-3) refl refl, of "k_arena_at sample_kernel" "k_arena sample_kernel"] by blast
  moreover have "length (k_arena sample_kernel) = ARENA_BYTES" "k_arena_at sample_kernel + ARENA_BYTES \<le> 2 ^ 52" by (simp_all add: sample_kernel_def arena_constants)
  ultimately show ?thesis using sample_map_wf by (intro exI [of _ a]) (auto simp: build_arena_def)
qed

theorem user_service_starts_witness:
  "\<exists>m m'. threads_inv m \<and> user_init m sample_info = Some (m', Inr 1) \<and> threads_inv m' \<and> ready_queue (m_sched m') = [1] \<and>
    walk (entry (k_arena (m_kernel m'))) 2097152 0 (USER_BASE + 64) = Some \<lparr> phys = 3145792, may_write = False, may_user = True \<rparr>"
proof -
  obtain a where a: "build_arena (sample_kernel\<lparr>k_frames := spin_lock_new (Some wide_fa), k_arena := a\<rparr>)" using service_arena by blast
  let ?m = "sample_machine\<lparr>m_kernel := sample_kernel\<lparr>k_frames := spin_lock_new (Some wide_fa), k_arena := a\<rparr>\<rparr>"
  have "threads_inv ?m = threads_inv (sample_machine\<lparr>m_kernel := sample_kernel\<lparr>k_frames := spin_lock_new (Some wide_fa)\<rparr>\<rparr>)"
    by (rule threads_inv_cong) (simp_all add: kernel_idle_def frames_of_def)
  then have inv: "threads_inv ?m" using boot_machine_inv [OF wide_fa(2)] by simp
  have m: "frames_of (m_kernel ?m) = Some wide_fa" "{0 ..< 0 + 11} \<subseteq> free_set wide_fa" "position (\<lambda>st. st = Unused) (states (m_sched ?m)) = Some 1"
    "(fa_first_frame wide_fa + fa_frames wide_fa) * 4096 \<le> 2 ^ 52" "m_trampoline_at ?m \<le> U64_MAX"
    by (simp_all add: frames_of_def spin_lock_new_def wide_fa(1) sample_machine_def boot_sched(2) position_Some_iff) (auto simp: wide_fa_def U64_MAX_def)
  have bi: "has_user_image sample_info" "BootInfo.user_entry sample_info \<le> U64_MAX" "image_fits sample_info"
    by (simp_all add: sample_info_def has_user_image_def boot_info_new_def boot_info_default_def image_fits_def rust_consts)
  have i: "user_size sample_info = 8192" "user_vaddr sample_info = USER_BASE" "user_phys sample_info = 3145728" by (simp_all add: sample_info_def)
  have at: "k_arena_at (m_kernel ?m) = 2097152" "ready_queue (m_sched ?m) = []" by (simp_all add: sample_kernel_def sample_machine_def boot_sched(5))
  obtain m' where m': "user_init ?m sample_info = Some (m', Inr 1)" "threads_inv m'" "ready_queue (m_sched m') = ready_queue (m_sched ?m) @ [1]"
    "\<forall>d < 8192. walk (entry (k_arena (m_kernel m'))) 2097152 0 (USER_BASE + d) = Some \<lparr> phys = 3145728 + d, may_write = False, may_user = True \<rparr>"
    using user_service_starts [OF inv m(1-5) _ bi] a unfolding i at Let_def by auto
  then show ?thesis using inv at(2) m'(4) [rule_format, of 64] by (intro exI [of _ ?m] exI [of _ m']) simp
qed

end
