(* ===== verification/Spec2Isabelle.thy ===== *)
theory Spec2Isabelle
  imports Scheduler Frame_Allocator Heap_Contract Boot_Info Elf_Image Heap_Self_Check Boot_Handoff User_Service
begin

text \<open>
  A verification development for ParanukOS, a small x86-64 kernel in Rust with a UEFI boot loader.

  \<^bold>\<open>The program.\<close>  The boot loader (\<^verbatim>\<open>src/src\<close>) reads the kernel and a user program from the boot volume, checks
  both ELF images, places them in memory, leaves the firmware and jumps to the kernel with a structure
  \<open>BootInfo\<close>.  The kernel (\<^verbatim>\<open>src/crates/kernel\<close>) validates the structure, builds its own page tables from the firmware's
  memory map, sets up a frame allocator and a heap, its segment and interrupt tables, the interrupt controllers
  and the scheduler, and runs threads and one user-mode service under a timer.  Its algorithms are in crates without machine
  access: \<open>kernel-sched\<close>, \<open>kernel-memory\<close>, \<open>kernel-image\<close> and \<open>boot-info\<close>.

  \<^bold>\<open>Conventions.\<close>  \<open>Prelude\<close> has the types.  Integers of the source are \<open>nat\<close> with a checked arithmetic (\<open>uadd\<close>, \<open>usub\<close>,
  \<open>umul\<close>) whose result is \<open>None\<close> where a build with overflow checks panics; bytes are \<open>8 word\<close>.  The type
  \<open>panics\<close> is \<open>option\<close>: \<open>None\<close> is a panic, so a theorem that a call equals \<open>Some r\<close> also says that it
  does not panic.  A \<open>Result\<close> is a sum with the error on the left, and an operation with effects returns the new state
  next to its result.  Constants of the source are in the collection \<open>rust_consts\<close>.

  \<^bold>\<open>The theories.\<close>

  \<^item> \<open>Scheduler\<close>: \<^verbatim>\<open>kernel-sched/src/lib.rs\<close>, the state machine of threads with its ring buffer.  The ring is an instance of the
    interface \<open>bounded_fifo\<close>; the invariant holds on every reachable state, decisions refine a queue of threads,
    repeated yields run every ready thread in turn.
  \<^item> \<open>Memory_Map\<close> and \<open>Frame_Allocator\<close>: \<^verbatim>\<open>kernel-memory/src/map.rs\<close> and \<^verbatim>\<open>frame.rs\<close>.  Parsing classifies its input exactly and inverts
    the encoding; the map gives the allocator its regions through the interface \<open>region_source\<close>; initialisation frees
    exactly the frames of conventional memory outside the reserved ranges, allocation takes the lowest run, release rejects what was
    not given out.
  \<^item> \<open>Free_List\<close>, \<open>Heap_Tiling\<close> and \<open>Heap_Contract\<close>: \<^verbatim>\<open>kernel-memory/src/heap.rs\<close>.  The free list in its arena of bytes is
    abstracted to a tiling by free and live blocks; the interface \<open>byte_allocator\<close> is interpreted on it, and histories of
    allocations, releases and client writes keep live areas apart and the free blocks merged.
  \<^item> \<open>Page_Tables\<close>, \<open>Paging\<close> and \<open>User_Map\<close>: \<^verbatim>\<open>kernel-memory/src/paging.rs\<close> and \<^verbatim>\<open>user_map.rs\<close>.  \<open>walk\<close> is the processor's translation
    over the table entries in the arena; the tables built refine the identity map of RAM and the user mappings, and each error is
    characterised.
  \<^item> \<open>Boot_Info\<close> and \<open>Elf_Image\<close>: \<^verbatim>\<open>boot-info/src/lib.rs\<close> and \<^verbatim>\<open>kernel-image/src/lib.rs\<close>.  The byte layout of the handover structure;
    the checks of an image, whose passes over the program headers share the interface \<open>segment_pass\<close>.
  \<^item> \<open>Lock\<close>: \<^verbatim>\<open>kernel/src/lock.rs\<close>.  Critical sections and spin locks are instances of the interface \<open>guarded\<close>; \<open>spin_lock\<close> is
    a partial function, so waiting for ever is \<open>None\<close>.
  \<^item> \<open>Kernel_Memory\<close>, \<open>Kernel_Allocators\<close>, \<open>Kernel_Heap\<close> and \<open>Heap_Self_Check\<close>: \<^verbatim>\<open>kernel/src/memory.rs\<close> and \<^verbatim>\<open>heap.rs\<close> over a record of the machine:
    installing the page tables, the allocators with the ranges the kernel keeps,
    the global allocator in terms of addresses, and the memory self-check, which passes on every machine where initialisation
    succeeded and two frames are left.
  \<^item> \<open>Descriptors\<close> and \<open>Interrupt_Controller\<close>: \<^verbatim>\<open>kernel/src/gdt.rs\<close>, the tables of \<^verbatim>\<open>idt.rs\<close>, \<^verbatim>\<open>pic.rs\<close> and the port accesses of \<^verbatim>\<open>serial.rs\<close>.
    The bits of every descriptor and gate; the sequence of port writes and the state it leaves.
  \<^item> \<open>Threads\<close>, \<open>Thread_Table\<close>, \<open>Thread_Switch\<close> and \<open>Interrupts\<close>: \<^verbatim>\<open>kernel/src/thread.rs\<close>, \<^verbatim>\<open>sched.rs\<close>, the entry code of \<^verbatim>\<open>idt.rs\<close> and the system call
    of \<^verbatim>\<open>user.rs\<close>.  \<open>threads_inv\<close> ties the scheduler's states to stacks, frames and memory; creation, interrupts, exits and
    reaping keep it, and a thread is resumed with exactly the registers it was interrupted with.
  \<^item> \<open>Image_Loader\<close> and \<open>Boot_Handoff\<close>: \<^verbatim>\<open>src/src/bootloader/fs_loader.rs\<close>, \<^verbatim>\<open>handoff.rs\<close> and \<^verbatim>\<open>src/src/main.rs\<close>.  Loading places every segment or reports why
    not; the boot enters the kernel with both images, the stack and a valid structure on distinct pages.
  \<^item> \<open>User_Service\<close>: \<^verbatim>\<open>kernel/src/user.rs\<close> and the bounded waits of \<^verbatim>\<open>sched.rs\<close>.  The service's image and stack are mapped as
    user memory and its thread starts in user mode.

  \<^bold>\<open>Machine and firmware.\<close>  \<open>Kernel\<close> and \<open>Machine\<close> are records of the processor state the code reads or writes, physical memory and
  the statics of the modules.  Firmware services are fields of the records \<open>BootServices\<close> and \<open>HandoffServices\<close>, which the loader takes as
  arguments; \<open>firmware_ok\<close> and \<open>handoff_ok\<close> state what their documentation promises, and each theorem that
  uses them has a witness with concrete services.  Interference from outside, such as the values a waiting loop observes, is an argument.

  \<^bold>\<open>Loops and bounds.\<close>  Loops are recursive functions with a termination proof.  No fuel is used except where the source has a bound
  of its own: the heap's walk over its list ends after \<open>max_blocks\<close> steps, the waits after their budget and the repair of the magic
  number after eight rounds.

  \<^bold>\<open>Not modelled.\<close>  Text output (console, log lines and \<open>Display\<close>), the builds with fault injection, the kernel's entry
  function, which calls the modelled operations in turn, the scheduler's self-check, which runs test
  threads, the user program, the block device wrapper, which nothing calls, and the build scripts.
\<close>

end
